(* ===== verification/Prelude.thy ===== *)
theory Prelude
  imports Main "HOL-Library.Word" "HOL-Library.AList" "HOL-Library.Multiset"
begin

text \<open>
  Shared vocabulary of the LionFS development.

  \<^item> machine integers: a \<open>u64\<close> counter or size is a \<open>nat\<close> together with the operation the
    source applies to it (saturating, wrapping or checked, written out against \<open>2 ^ 64\<close>);
    code that shifts, masks or multiplies modulo \<open>2 ^ w\<close> on purpose works on \<open>w word\<close>;
  \<^item> bytes are \<open>8 word\<close>, a byte buffer is a list of bytes, and the little- and big-endian
    conversions of the Rust standard library are \<open>le_bytes\<close>, \<open>of_le_bytes\<close> and
    \<open>be_bytes\<close>, \<open>of_be_bytes\<close>;
  \<^item> \<open>position\<close>, \<open>insert_at\<close> and \<open>remove_at\<close> are the searches and edits of sequences the source uses,
    \<open>count_ones\<close> is the population count;
  \<^item> two interfaces: \<open>guarded_machine\<close>, a transition system whose steps keep an invariant, and
    \<open>kv_store\<close>, a key/value structure that implements a partial map.
\<close>

named_theorems state_defs \<open>definitions of the state transformers of a component\<close>
named_theorems inv_defs \<open>definitions of the invariants of a component\<close>

type_synonym byte = "8 word"

section \<open>Unsigned 64-bit arithmetic on natural numbers\<close>

definition u64_max :: nat where
  "u64_max = 2 ^ 64 - 1"

definition sat_add :: "nat \<Rightarrow> nat \<Rightarrow> nat" where
  "sat_add a b = min (a + b) u64_max"

definition sat_sub :: "nat \<Rightarrow> nat \<Rightarrow> nat" where
  "sat_sub a b = a - b"

definition sat_mul :: "nat \<Rightarrow> nat \<Rightarrow> nat" where
  "sat_mul a b = min (a * b) u64_max"

definition wrap_add :: "nat \<Rightarrow> nat \<Rightarrow> nat" where
  "wrap_add a b = (a + b) mod 2 ^ 64"

definition wrap_sub :: "nat \<Rightarrow> nat \<Rightarrow> nat" where
  "wrap_sub a b = (if b \<le> a then a - b else a + 2 ^ 64 - b)"

section \<open>Searching a sequence\<close>

fun position :: "('a \<Rightarrow> bool) \<Rightarrow> 'a list \<Rightarrow> nat option" where
  "position P [] = None"
| "position P (x # xs) = (if P x then Some 0 else map_option Suc (position P xs))"

section \<open>Editing a sequence\<close>

definition insert_at :: "nat \<Rightarrow> 'a \<Rightarrow> 'a list \<Rightarrow> 'a list" where
  "insert_at i x xs = take i xs @ x # drop i xs"

definition remove_at :: "nat \<Rightarrow> 'a list \<Rightarrow> 'a list" where
  "remove_at i xs = take i xs @ drop (Suc i) xs"

section \<open>Set bits of a word\<close>

definition ones :: "'a::len word \<Rightarrow> nat list" where
  "ones w = filter (bit w) [0..<LENGTH('a)]"

definition count_ones :: "'a::len word \<Rightarrow> nat" where
  "count_ones w = length (ones w)"

section \<open>Byte conversions\<close>

fun le_bytes :: "nat \<Rightarrow> nat \<Rightarrow> byte list" where
  "le_bytes 0 n = []"
| "le_bytes (Suc k) n = of_nat (n mod 256) # le_bytes k (n div 256)"

fun of_le_bytes :: "byte list \<Rightarrow> nat" where
  "of_le_bytes [] = 0"
| "of_le_bytes (b # bs) = unat b + 256 * of_le_bytes bs"

definition be_bytes :: "nat \<Rightarrow> nat \<Rightarrow> byte list" where
  "be_bytes k n = rev (le_bytes k n)"

definition of_be_bytes :: "byte list \<Rightarrow> nat" where
  "of_be_bytes bs = of_le_bytes (rev bs)"

section \<open>Lemmas on the arithmetic\<close>

lemma u64_max_pos [simp]: "0 < u64_max"
  by (simp add: u64_max_def)

lemma sat_add_le_max [simp]: "sat_add a b \<le> u64_max"
  by (simp add: sat_add_def)

lemma sat_mul_le_max [simp]: "sat_mul a b \<le> u64_max"
  by (simp add: sat_mul_def)

lemma sat_sub_le [simp]: "sat_sub a b \<le> a"
  by (simp add: sat_sub_def)

lemma sat_add_le: "sat_add a b \<le> a + b"
  by (simp add: sat_add_def)

lemma sat_mul_le: "sat_mul a b \<le> a * b"
  by (simp add: sat_mul_def)

lemma sat_add_exact: "a + b \<le> u64_max \<Longrightarrow> sat_add a b = a + b"
  by (simp add: sat_add_def)

lemma sat_add_ge_left: "a \<le> u64_max \<Longrightarrow> a \<le> sat_add a b"
  by (simp add: sat_add_def)

lemma wrap_add_bound [simp]: "wrap_add a b < 2 ^ 64"
  by (simp add: wrap_add_def)

section \<open>Lemmas on the searches\<close>

lemma position_None_iff: "position P xs = None \<longleftrightarrow> (\<forall>x\<in>set xs. \<not> P x)"
  by (induction xs) auto

lemma position_SomeD:
  "position P xs = Some i \<Longrightarrow> i < length xs \<and> P (xs ! i) \<and> (\<forall>j<i. \<not> P (xs ! j))"
proof (induction xs arbitrary: i)
  case Nil
  then show ?case by simp
next
  case (Cons x xs)
  then show ?case
    by (cases i) (auto split: if_splits simp: nth_Cons' less_Suc_eq_0_disj)
qed

lemma find_Some_in: "find P xs = Some x \<Longrightarrow> x \<in> set xs \<and> P x"
  by (induction xs) (auto split: if_splits)

lemma size_list_nth [termination_simp]: "i < length xs \<Longrightarrow> f (xs ! i) < Suc (size_list f xs)"
  using size_list_estimation' [of "xs ! i" xs "f (xs ! i)" f] by (simp add: less_Suc_eq_le)

section \<open>Lemmas on the set bits\<close>

lemma length_insert_at [simp]: "length (insert_at i x xs) = Suc (length xs)"
  by (simp add: insert_at_def)

lemma ones_split:
  fixes w :: "'a::len word"
  assumes "i < LENGTH('a)"
  shows "ones w = filter (bit w) [0..<i] @ (if bit w i then [i] else []) @
           filter (bit w) [Suc i..<LENGTH('a)]"
proof -
  have "[0..<LENGTH('a)] = [0..<i] @ i # [Suc i..<LENGTH('a)]"
    using assms by (metis less_imp_le_nat upt_conv_Cons upt_add_eq_append le_add_diff_inverse
        add_0 zero_le)
  then show ?thesis by (simp add: ones_def)
qed

lemma bit_two_power: "bit (2 ^ i :: 'a::len word) j \<longleftrightarrow> j = i \<and> i < LENGTH('a)"
  by (auto simp: bit_exp_iff dest: bit_imp_le_length)

lemma count_ones_below:
  fixes w :: "'a::len word"
  assumes "i < LENGTH('a)"
  shows "count_ones (and w (2 ^ i - 1)) = length (filter (bit w) [0..<i])"
proof -
  have b: "bit (and w (2 ^ i - 1)) j \<longleftrightarrow> bit w j \<and> j < i" for j
    by (auto simp: bit_and_iff bit_mask_iff mask_eq_exp_minus_1 [symmetric] dest: bit_imp_le_length)
  have "filter (bit (and w (2 ^ i - 1))) [Suc i..<LENGTH('a)] = []"
    by (auto simp: filter_empty_conv b)
  moreover have "filter (bit (and w (2 ^ i - 1))) [0..<i] = filter (bit w) [0..<i]"
    by (rule filter_cong) (auto simp: b)
  ultimately show ?thesis
    unfolding count_ones_def ones_split [OF assms] by (simp add: b)
qed

lemma and_bit_zero_iff: "and w (2 ^ i) = 0 \<longleftrightarrow> \<not> bit (w :: 'a::len word) i"
  by (rule and_exp_eq_0_iff_not_bit)

lemma ones_set_bit:
  fixes w :: "'a::len word"
  assumes "i < LENGTH('a)" and "\<not> bit w i"
  shows "ones (or w (2 ^ i)) = insert_at (count_ones (and w (2 ^ i - 1))) i (ones w)"
proof -
  have b: "bit (or w (2 ^ i)) j \<longleftrightarrow> bit w j \<or> j = i" for j
    using assms(1) by (auto simp: bit_or_iff bit_two_power)
  have "filter (bit (or w (2 ^ i))) [0..<i] = filter (bit w) [0..<i]"
    "filter (bit (or w (2 ^ i))) [Suc i..<LENGTH('a)] = filter (bit w) [Suc i..<LENGTH('a)]"
    by (rule filter_cong; auto simp: b)+
  then show ?thesis
    using assms
    by (simp add: ones_split [OF assms(1)] count_ones_below [OF assms(1)] insert_at_def b)
qed

lemma ones_nth_slot:
  fixes w :: "'a::len word"
  assumes "i < LENGTH('a)" and "bit w i"
  shows "count_ones (and w (2 ^ i - 1)) < length (ones w)"
    and "ones w ! count_ones (and w (2 ^ i - 1)) = i"
  using assms by (simp_all add: ones_split [OF assms(1)] count_ones_below [OF assms(1)] nth_append)

lemma distinct_ones [simp]: "distinct (ones w)"
  by (simp add: ones_def)

lemma set_ones: "set (ones w) = {i. bit w i}"
  by (auto simp: ones_def dest: bit_imp_le_length)

section \<open>Lemmas on the byte conversions\<close>

lemma length_le_bytes [simp]: "length (le_bytes k n) = k"
  by (induction k arbitrary: n) auto

lemma length_be_bytes [simp]: "length (be_bytes k n) = k"
  by (simp add: be_bytes_def)

lemma of_le_bytes_le_bytes_mod: "of_le_bytes (le_bytes k n) = n mod 256 ^ k"
proof (induction k arbitrary: n)
  case 0
  then show ?case by simp
next
  case (Suc k)
  have "of_le_bytes (le_bytes (Suc k) n) = n mod 256 + 256 * (n div 256 mod 256 ^ k)"
    by (simp add: Suc.IH unat_of_nat)
  also have "\<dots> = n mod (256 * 256 ^ k)"
    by (simp only: mod_mult2_eq add.commute)
  finally show ?case by simp
qed

lemma of_le_bytes_le_bytes [simp]: "n < 256 ^ k \<Longrightarrow> of_le_bytes (le_bytes k n) = n"
  by (simp add: of_le_bytes_le_bytes_mod)

lemma of_be_bytes_be_bytes [simp]: "n < 256 ^ k \<Longrightarrow> of_be_bytes (be_bytes k n) = n"
  by (simp add: of_be_bytes_def be_bytes_def)

lemma of_le_bytes_bound: "of_le_bytes bs < 256 ^ length bs"
proof (induction bs)
  case Nil
  then show ?case by simp
next
  case (Cons b bs)
  have "unat b < 256"
    using unsigned_less [of b] by simp
  with Cons.IH show ?case by simp
qed

section \<open>Invariants of transition systems\<close>

text \<open>
  A component whose operations change a state: the initial states, the steps its operations
  make, and a predicate every step keeps. The client's lemma is that every state reached by any
  sequence of steps satisfies it.
\<close>

locale guarded_machine =
  fixes initial :: "'s \<Rightarrow> bool"
    and step :: "'s \<Rightarrow> 's \<Rightarrow> bool"
    and inv :: "'s \<Rightarrow> bool"
  assumes initial_inv: "initial s \<Longrightarrow> inv s"
    and step_inv: "step s t \<Longrightarrow> inv s \<Longrightarrow> inv t"
begin

lemma steps_inv: "step\<^sup>*\<^sup>* s t \<Longrightarrow> inv s \<Longrightarrow> inv t"
  by (induction rule: rtranclp_induct) (auto intro: step_inv)

lemma reachable_inv: "initial s \<Longrightarrow> step\<^sup>*\<^sup>* s t \<Longrightarrow> inv t"
  by (blast intro: initial_inv steps_inv)

end

section \<open>Key/value structures\<close>

text \<open>
  The contract of an index that is only ever extended or overwritten: on an index that satisfies
  its invariant an insert returns, keeps the invariant, and a lookup afterwards sees the inserted
  binding and nothing else changes. A client that loads a sequence of bindings obtains the map
  they denote.
\<close>

fun load :: "('k \<Rightarrow> 'v \<Rightarrow> 't \<Rightarrow> 't option) \<Rightarrow> ('k \<times> 'v) list \<Rightarrow> 't \<Rightarrow> 't option" where
  "load ins [] t = Some t"
| "load ins ((k, v) # kvs) t = (case ins k v t of None \<Rightarrow> None | Some t' \<Rightarrow> load ins kvs t')"

locale kv_store =
  fixes invar :: "'t \<Rightarrow> bool"
    and empty :: "'t"
    and insert :: "'k \<Rightarrow> 'v \<Rightarrow> 't \<Rightarrow> 't option"
    and lookup :: "'t \<Rightarrow> 'k \<Rightarrow> 'v option"
  assumes invar_empty: "invar empty"
    and lookup_empty: "lookup empty k = None"
    and insert_law: "invar t \<Longrightarrow>
      \<exists>t'. insert k v t = Some t' \<and> invar t' \<and> lookup t' = (lookup t)(k \<mapsto> v)"
begin

lemma load_from:
  "invar t \<Longrightarrow> \<exists>t'. load insert kvs t = Some t' \<and> invar t' \<and> lookup t' = lookup t ++ map_of (rev kvs)"
proof (induction kvs arbitrary: t)
  case Nil
  then show ?case by simp
next
  case (Cons kv kvs)
  obtain k v where kv: "kv = (k, v)" by (cases kv)
  obtain t1 where "insert k v t = Some t1" "invar t1" and l: "lookup t1 = (lookup t)(k \<mapsto> v)"
    using insert_law [OF Cons.prems] by blast
  with Cons.IH [of t1] show ?case by (auto simp: kv simp del: fun_upd_apply)
qed

lemma load_map:
  "\<exists>t'. load insert kvs empty = Some t' \<and> invar t' \<and> lookup t' = map_of (rev kvs)"
proof -
  have "lookup empty = Map.empty" by (simp add: fun_eq_iff lookup_empty)
  with load_from [OF invar_empty, of kvs] show ?thesis by simp
qed

end

end
