(* ===== verification/Raft.thy ===== *)
theory Raft
  imports Prelude Complex_Main
begin

text \<open>
  The metadata consensus of the cluster plane: \<^verbatim>\<open>src/crates/lionfs-cluster/src/raft.rs\<close>.

  A \<open>server\<close> is the code's \<^verbatim>\<open>Server\<close>, field by field; \<open>server_tick\<close> and \<open>handle\<close> are its two
  entry points and return the updated server with the messages it emits; \<open>network\<close> is the
  deterministic switch that owns every server and the queue of messages in flight.

  Terms, log indices and timers are \<open>nat\<close>; the one subtraction that can leave the range of
  \<^verbatim>\<open>u64\<close>, \<^verbatim>\<open>next - 1\<close>, is \<open>wrap_sub\<close> (the release build wraps). The generator states are
  \<open>64 word\<close>. A drop probability is a rational, and the sample it is compared with is the exact
  value \<^verbatim>\<open>(state >> 11) / 2^53\<close>. A \<^verbatim>\<open>BTreeMap\<close> is an association list that holds
  each key once; indexing \<^verbatim>\<open>nodes\<close> out of range is the error \<open>NodePanic\<close>.
\<close>

unbundle bit_operations_syntax

section \<open>Messages and log\<close>

record log_entry =
  entry_term :: nat
  entry_index :: nat
  entry_command :: "byte list"

datatype raft_message =
    RequestVote (rv_term: nat) (rv_candidate: nat) (rv_last_log_index: nat) (rv_last_log_term: nat)
  | RequestVoteReply (rvr_term: nat) (rvr_granted: bool)
  | AppendEntries (ae_term: nat) (ae_leader: nat) (ae_prev_log_index: nat) (ae_prev_log_term: nat)
      (ae_entries: "log_entry list") (ae_leader_commit: nat)
  | AppendEntriesReply (aer_term: nat) (aer_success: bool) (aer_match_index: nat)

datatype role = Follower | Candidate | Leader

section \<open>Server\<close>

record server =
  self_id :: nat
  srole :: role
  current_term :: nat
  voted_for :: "nat option"
  votes_received :: nat
  slog :: "log_entry list"
  commit_index :: nat
  last_applied :: nat
  next_index :: "(nat \<times> nat) list"
  match_index :: "(nat \<times> nat) list"
  election_timeout_in :: nat
  election_timeout :: nat
  heartbeat_due_in :: nat
  cluster_size :: nat
  rng_state :: "64 word"

definition other_ids :: "nat \<Rightarrow> nat \<Rightarrow> nat list" where
  "other_ids n i = filter (\<lambda>p. p \<noteq> i) [0..<n]"

definition put_all :: "nat \<Rightarrow> nat list \<Rightarrow> (nat \<times> nat) list \<Rightarrow> (nat \<times> nat) list" where
  "put_all v ps m = fold (\<lambda>p. AList.update p v) ps m"

definition server_new :: "nat \<Rightarrow> nat \<Rightarrow> server" where
  "server_new ident sz =
     \<lparr>self_id = ident, srole = Follower, current_term = 0, voted_for = None, votes_received = 0,
      slog = [], commit_index = 0, last_applied = 0,
      next_index = put_all 1 (other_ids sz ident) [],
      match_index = put_all 0 (other_ids sz ident) [],
      election_timeout_in = 150 + (ident * 37) mod 50,
      election_timeout = 150 + (ident * 37) mod 50,
      heartbeat_due_in = 0, cluster_size = sz,
      rng_state = (of_nat ident * 6364136223846793005 + 1442695040888963407) OR 1\<rparr>"

definition quorum :: "server \<Rightarrow> nat" where
  "quorum s = cluster_size s div 2 + 1"

definition last_index_of :: "log_entry list \<Rightarrow> nat" where
  "last_index_of l = (if l = [] then 0 else entry_index (last l))"

definition last_term_of :: "log_entry list \<Rightarrow> nat" where
  "last_term_of l = (if l = [] then 0 else entry_term (last l))"

definition last_log_index :: "server \<Rightarrow> nat" where
  "last_log_index s = last_index_of (slog s)"

definition last_log_term :: "server \<Rightarrow> nat" where
  "last_log_term s = last_term_of (slog s)"

definition xorshift64 :: "64 word \<Rightarrow> 64 word" where
  "xorshift64 x =
     (let a = x XOR push_bit 13 x; b = a XOR drop_bit 7 a in b XOR push_bit 17 b)"

definition next_rand :: "server \<Rightarrow> nat \<times> server" where
  "next_rand s =
     (let r = xorshift64 (rng_state s) in (unat r, s\<lparr>rng_state := r\<rparr>))"

definition find_index :: "nat \<Rightarrow> log_entry list \<Rightarrow> log_entry option" where
  "find_index i l = find (\<lambda>e. entry_index e = i) l"

definition term_at :: "nat \<Rightarrow> log_entry list \<Rightarrow> nat" where
  "term_at i l = (case find_index i l of Some e \<Rightarrow> entry_term e | None \<Rightarrow> 0)"

definition build_append_for :: "server \<Rightarrow> nat \<Rightarrow> raft_message" where
  "build_append_for s peer =
     (let nxt = (case map_of (next_index s) peer of Some v \<Rightarrow> v | None \<Rightarrow> 1);
          prev_index = wrap_sub nxt 1
      in AppendEntries (current_term s) (self_id s) prev_index (term_at prev_index (slog s))
           (filter (\<lambda>e. nxt \<le> entry_index e) (slog s)) (commit_index s))"

text \<open>What both ways of winning an election do: take the role and reset the peer tables.\<close>

definition install_leader :: "server \<Rightarrow> server" where
  "install_leader s =
     (let l = last_log_index s; ps = other_ids (cluster_size s) (self_id s)
      in s\<lparr>srole := Leader, heartbeat_due_in := 0,
           next_index := put_all (l + 1) ps (next_index s),
           match_index := put_all 0 ps (match_index s)\<rparr>)"

definition start_election :: "server \<Rightarrow> server \<times> (nat \<times> raft_message) list" where
  "start_election s =
     (let s1 = s\<lparr>srole := Candidate, current_term := current_term s + 1,
                 voted_for := Some (self_id s), votes_received := 1\<rparr>;
          (r, s2) = next_rand s1;
          s3 = s2\<lparr>election_timeout := 150 + r mod 75, election_timeout_in := 150 + r mod 75\<rparr>;
          out = map (\<lambda>p. (p, RequestVote (current_term s3) (self_id s3)
                               (last_log_index s3) (last_log_term s3)))
                  (other_ids (cluster_size s3) (self_id s3))
      in (if quorum s3 \<le> votes_received s3 then install_leader s3 else s3, out))"

definition append_round :: "server \<Rightarrow> (nat \<times> raft_message) list" where
  "append_round s =
     map (\<lambda>p. (p, build_append_for s p)) (other_ids (cluster_size s) (self_id s))"

definition server_tick :: "nat \<Rightarrow> server \<Rightarrow> server \<times> (nat \<times> raft_message) list" where
  "server_tick elapsed s =
     (if srole s = Leader
      then let s1 = s\<lparr>heartbeat_due_in := sat_sub (heartbeat_due_in s) elapsed\<rparr>
           in if heartbeat_due_in s1 = 0
              then let s2 = s1\<lparr>heartbeat_due_in := 50\<rparr> in (s2, append_round s2)
              else (s1, [])
      else let s1 = s\<lparr>election_timeout_in := sat_sub (election_timeout_in s) elapsed\<rparr>
           in if election_timeout_in s1 = 0 then start_election s1 else (s1, []))"

definition become_follower :: "nat \<Rightarrow> server \<Rightarrow> server" where
  "become_follower t s =
     (if current_term s < t
      then s\<lparr>current_term := t, voted_for := None, srole := Follower, votes_received := 0,
             election_timeout_in := election_timeout s\<rparr>
      else s)"

definition up_to_date :: "server \<Rightarrow> nat \<Rightarrow> nat \<Rightarrow> bool" where
  "up_to_date s lli llt =
     (last_log_term s < llt \<or> (llt = last_log_term s \<and> last_log_index s \<le> lli))"

definition handle_request_vote ::
    "server \<Rightarrow> nat \<Rightarrow> nat \<Rightarrow> nat \<Rightarrow> nat \<Rightarrow> server \<times> (nat \<times> raft_message) list" where
  "handle_request_vote s t cand lli llt =
     (if t < current_term s
      then (s, [(cand, RequestVoteReply (current_term s) False)])
      else let s1 = become_follower t s;
               can_vote = (voted_for s1 = None \<or> voted_for s1 = Some cand)
           in if can_vote \<and> up_to_date s1 lli llt
              then (s1\<lparr>voted_for := Some cand, election_timeout_in := election_timeout s1\<rparr>,
                    [(cand, RequestVoteReply (current_term s1) True)])
              else (s1, [(cand, RequestVoteReply (current_term s1) False)]))"

definition handle_request_vote_reply ::
    "server \<Rightarrow> nat \<Rightarrow> bool \<Rightarrow> server \<times> (nat \<times> raft_message) list" where
  "handle_request_vote_reply s t granted =
     (if srole s \<noteq> Candidate then (become_follower t s, [])
      else if current_term s < t then (become_follower t s, [])
      else if t = current_term s \<and> granted
      then let s1 = s\<lparr>votes_received := votes_received s + 1\<rparr>
           in if quorum s1 \<le> votes_received s1
              then let s2 = install_leader s1 in (s2, append_round s2)
              else (s1, [])
      else (s, []))"

text \<open>One iteration of the loop over the received entries.\<close>

definition append_one :: "log_entry \<Rightarrow> log_entry list \<Rightarrow> log_entry list" where
  "append_one e l =
     (case position (\<lambda>x. entry_index x = entry_index e) l of
        Some pos \<Rightarrow> if entry_term (l ! pos) = entry_term e then l else take pos l @ [e]
      | None \<Rightarrow> if entry_index e = last_index_of l + 1 then l @ [e] else l)"

definition consistent_prev :: "log_entry list \<Rightarrow> nat \<Rightarrow> nat \<Rightarrow> bool" where
  "consistent_prev l pidx pterm =
     (pidx = 0 \<or> (case find_index pidx l of Some e \<Rightarrow> entry_term e = pterm | None \<Rightarrow> False))"

definition handle_append_entries ::
    "server \<Rightarrow> nat \<Rightarrow> nat \<Rightarrow> nat \<Rightarrow> nat \<Rightarrow> log_entry list \<Rightarrow> nat
       \<Rightarrow> server \<times> (nat \<times> raft_message) list" where
  "handle_append_entries s t leader pidx pterm es lcommit =
     (if t < current_term s
      then (s, [(leader, AppendEntriesReply (current_term s) False (last_log_index s))])
      else let s1 = become_follower t s;
               s2 = (if srole s1 = Candidate then s1\<lparr>srole := Follower\<rparr> else s1);
               s3 = s2\<lparr>election_timeout_in := election_timeout s2\<rparr>
           in if \<not> consistent_prev (slog s3) pidx pterm
              then (s3, [(leader, AppendEntriesReply (current_term s3) False (last_log_index s3))])
              else let s4 = s3\<lparr>slog := fold append_one es (slog s3)\<rparr>;
                       s5 = (if commit_index s4 < lcommit
                             then s4\<lparr>commit_index := min lcommit (last_log_index s4)\<rparr> else s4)
                   in (s5, [(leader,
                         AppendEntriesReply (current_term s5) True (last_log_index s5))]))"

definition replicas_at :: "server \<Rightarrow> nat \<Rightarrow> nat" where
  "replicas_at s n = 1 + length (filter (\<lambda>kv. n \<le> snd kv) (match_index s))"

definition advance_commit :: "server \<Rightarrow> server" where
  "advance_commit s =
     s\<lparr>commit_index :=
        fold (\<lambda>n committed.
               if term_at n (slog s) \<noteq> current_term s then committed
               else if quorum s \<le> replicas_at s n then n else committed)
          [commit_index s + 1 ..< last_log_index s + 1] (commit_index s)\<rparr>"

definition handle_append_entries_reply ::
    "server \<Rightarrow> nat \<Rightarrow> nat \<Rightarrow> bool \<Rightarrow> nat \<Rightarrow> server \<times> (nat \<times> raft_message) list" where
  "handle_append_entries_reply s from t success mi =
     (if srole s \<noteq> Leader then (become_follower t s, [])
      else if current_term s < t then (become_follower t s, [])
      else if t < current_term s then (s, [])
      else if success
      then let old = (case map_of (match_index s) from of Some v \<Rightarrow> v | None \<Rightarrow> 0)
           in (advance_commit (s\<lparr>match_index := AList.update from (max old mi) (match_index s)\<rparr>),
               [])
      else let old = (case map_of (next_index s) from of Some v \<Rightarrow> v | None \<Rightarrow> 1);
               s1 = s\<lparr>next_index := AList.update from (max old 1 - 1) (next_index s)\<rparr>
           in (s1, [(from, build_append_for s1 from)]))"

fun handle :: "nat \<Rightarrow> raft_message \<Rightarrow> server \<Rightarrow> server \<times> (nat \<times> raft_message) list" where
  "handle from (RequestVote t c lli llt) s = handle_request_vote s t c lli llt"
| "handle from (RequestVoteReply t g) s = handle_request_vote_reply s t g"
| "handle from (AppendEntries t l pidx pterm es lc) s =
     handle_append_entries s t l pidx pterm es lc"
| "handle from (AppendEntriesReply t ok mi) s = handle_append_entries_reply s from t ok mi"

definition append_local :: "byte list \<Rightarrow> server \<Rightarrow> server" where
  "append_local cmd s =
     advance_commit (s\<lparr>slog := slog s @ [\<lparr>entry_term = current_term s,
        entry_index = last_log_index s + 1, entry_command = cmd\<rparr>]\<rparr>)"

section \<open>Network\<close>

type_synonym envelope = "nat \<times> nat \<times> raft_message"

record network =
  nodes :: "server list"
  inbox :: "envelope list"
  partitions :: "((nat \<times> nat) \<times> rat) list"
  net_rng :: "64 word"

datatype raft_error = NodePanic | NotLeader nat

definition network_new :: "nat \<Rightarrow> 64 word \<Rightarrow> network" where
  "network_new sz seed =
     \<lparr>nodes = map (\<lambda>i. server_new i sz) [0..<sz], inbox = [], partitions = [],
      net_rng = seed OR 1\<rparr>"

definition set_partition :: "nat \<Rightarrow> nat \<Rightarrow> rat \<Rightarrow> network \<Rightarrow> network" where
  "set_partition i j p net =
     net\<lparr>partitions := AList.update (i, j) (max 0 (min 1 p)) (partitions net)\<rparr>"

definition heal_all :: "network \<Rightarrow> network" where
  "heal_all net = net\<lparr>partitions := []\<rparr>"

definition next_f64 :: "network \<Rightarrow> rat \<times> network" where
  "next_f64 net =
     (let r = xorshift64 (net_rng net)
      in (of_nat (unat (drop_bit 11 r)) / 2 ^ 53, net\<lparr>net_rng := r\<rparr>))"

definition net_send :: "nat \<Rightarrow> nat \<times> raft_message \<Rightarrow> network \<Rightarrow> network" where
  "net_send from dm net =
     (let drop_p = (case map_of (partitions net) (from, fst dm) of Some p \<Rightarrow> p | None \<Rightarrow> 0);
          (x, net1) = next_f64 net
      in if drop_p \<le> x then net1\<lparr>inbox := inbox net1 @ [(from, fst dm, snd dm)]\<rparr> else net1)"

definition tick_node :: "nat \<Rightarrow> nat \<Rightarrow> network \<Rightarrow> network" where
  "tick_node elapsed i net =
     (let (s, acts) = server_tick elapsed (nodes net ! i)
      in fold (net_send i) acts (net\<lparr>nodes := (nodes net)[i := s]\<rparr>))"

definition net_tick :: "nat \<Rightarrow> network \<Rightarrow> network" where
  "net_tick elapsed net = fold (tick_node elapsed) [0..<length (nodes net)] net"

definition deliver :: "envelope \<Rightarrow> network \<Rightarrow> raft_error + network" where
  "deliver env net =
     (case env of (from, to, msg) \<Rightarrow>
        if to < length (nodes net)
        then let (s, replies) = handle from msg (nodes net ! to)
             in Inr (fold (net_send to) replies (net\<lparr>nodes := (nodes net)[to := s]\<rparr>))
        else Inl NodePanic)"

fun deliver_all :: "envelope list \<Rightarrow> network \<Rightarrow> raft_error + network" where
  "deliver_all [] net = Inr net"
| "deliver_all (e # es) net =
     (case deliver e net of Inl err \<Rightarrow> Inl err | Inr net' \<Rightarrow> deliver_all es net')"

definition net_step :: "network \<Rightarrow> raft_error + (nat \<times> network)" where
  "net_step net =
     (if inbox net = [] then Inr (0, net)
      else case deliver_all (inbox net) (net\<lparr>inbox := []\<rparr>) of
             Inl err \<Rightarrow> Inl err
           | Inr net' \<Rightarrow> Inr (length (inbox net), net'))"

fun run_until_quiet :: "nat \<Rightarrow> network \<Rightarrow> raft_error + network" where
  "run_until_quiet 0 net = Inr net"
| "run_until_quiet (Suc r) net =
     (case net_step net of
        Inl err \<Rightarrow> Inl err
      | Inr (k, net') \<Rightarrow> if k = 0 then Inr net' else run_until_quiet r net')"

definition propose :: "nat \<Rightarrow> byte list \<Rightarrow> network \<Rightarrow> raft_error + network" where
  "propose to cmd net =
     (if length (nodes net) \<le> to then Inl NodePanic
      else if srole (nodes net ! to) \<noteq> Leader then Inl (NotLeader to)
      else Inr (net\<lparr>nodes := (nodes net)
             [to := (append_local cmd (nodes net ! to))\<lparr>heartbeat_due_in := 0\<rparr>]\<rparr>))"

definition leader_of :: "network \<Rightarrow> server option" where
  "leader_of net = find (\<lambda>s. srole s = Leader) (nodes net)"

definition leader_id :: "network \<Rightarrow> nat option" where
  "leader_id net = map_option self_id (leader_of net)"

definition leader_commit_index :: "network \<Rightarrow> nat option" where
  "leader_commit_index net = map_option commit_index (leader_of net)"

definition committed_prefix :: "server \<Rightarrow> log_entry list" where
  "committed_prefix s = filter (\<lambda>e. entry_index e \<le> commit_index s) (slog s)"

definition committed_log :: "network \<Rightarrow> log_entry list" where
  "committed_log net = (case leader_of net of Some s \<Rightarrow> committed_prefix s | None \<Rightarrow> [])"

definition replicated_everywhere :: "nat \<Rightarrow> nat \<Rightarrow> network \<Rightarrow> bool" where
  "replicated_everywhere idx t net =
     list_all (\<lambda>s. list_ex (\<lambda>e. entry_index e = idx \<and> entry_term e = t) (slog s)) (nodes net)"

fun run_stable :: "nat \<Rightarrow> network \<Rightarrow> raft_error + network" where
  "run_stable 0 net = Inr net"
| "run_stable (Suc r) net =
     (case run_until_quiet 16 (net_tick 20 net) of
        Inl err \<Rightarrow> Inl err | Inr net' \<Rightarrow> run_stable r net')"

text \<open>The operations a user of the network can perform, as commands and as a step relation.\<close>

datatype net_cmd = Tick nat | Deliver | Propose nat "byte list" | Partition nat nat rat | Heal

fun exec_cmd :: "net_cmd \<Rightarrow> network \<Rightarrow> raft_error + network" where
  "exec_cmd (Tick elapsed) net = Inr (net_tick elapsed net)"
| "exec_cmd Deliver net = (case net_step net of Inl e \<Rightarrow> Inl e | Inr (k, net') \<Rightarrow> Inr net')"
| "exec_cmd (Propose i cmd) net = propose i cmd net"
| "exec_cmd (Partition i j p) net = Inr (set_partition i j p net)"
| "exec_cmd Heal net = Inr (heal_all net)"

fun exec_cmds :: "net_cmd list \<Rightarrow> network \<Rightarrow> raft_error + network" where
  "exec_cmds [] net = Inr net"
| "exec_cmds (c # cs) net =
     (case exec_cmd c net of Inl e \<Rightarrow> Inl e | Inr net' \<Rightarrow> exec_cmds cs net')"

inductive net_op :: "network \<Rightarrow> network \<Rightarrow> bool" where
  op_tick: "net_op net (net_tick elapsed net)"
| op_step: "net_step net = Inr (k, net') \<Longrightarrow> net_op net net'"
| op_propose: "propose i cmd net = Inr net' \<Longrightarrow> net_op net net'"
| op_partition: "net_op net (set_partition i j p net)"
| op_heal: "net_op net (heal_all net)"

inductive_cases net_opE: "net_op net net'"

lemma exec_cmd_net_op: "exec_cmd c net = Inr net' \<Longrightarrow> net_op net net'"
  by (cases c) (auto intro: net_op.intros split: sum.splits prod.splits)

lemma exec_cmds_net_op: "exec_cmds cs net = Inr net' \<Longrightarrow> net_op\<^sup>*\<^sup>* net net'"
proof (induction cs arbitrary: net)
  case Nil
  then show ?case by simp
next
  case (Cons c cs)
  then show ?case
    by (auto split: sum.splits intro: converse_rtranclp_into_rtranclp exec_cmd_net_op)
qed

end
