(* ===== verification/Raft_Switch.thy ===== *)
theory Raft_Switch
  imports Raft
begin

text \<open>
  How an invariant of the servers and of the messages in flight lifts to the whole network of
  \<^verbatim>\<open>raft.rs\<close>. The interface \<open>switched\<close> lists what such an invariant owes: it survives the loss of
  messages, a tick, the delivery of one message and a proposal, and it holds of a new cluster.
  Its client lemmas carry it through \<open>net_tick\<close>, \<open>net_step\<close> and \<open>propose\<close> to every reachable network,
  and show that delivery never indexes a server that does not exist.
\<close>

definition tagged :: "nat \<Rightarrow> (nat \<times> raft_message) list \<Rightarrow> envelope multiset" where
  "tagged i acts = mset (map (\<lambda>dm. (i, fst dm, snd dm)) acts)"

lemma tagged_Nil [simp]: "tagged i [] = {#}"
  by (simp add: tagged_def)

lemma tagged_Cons [simp]: "tagged i ((d, m) # acts) = add_mset (i, d, m) (tagged i acts)"
  by (simp add: tagged_def)

lemma net_send_nodes [simp]: "nodes (net_send i dm net) = nodes net"
  by (simp add: net_send_def next_f64_def Let_def)

lemma net_sends_nodes [simp]: "nodes (fold (net_send i) acts net) = nodes net"
  by (induction acts arbitrary: net) simp_all

lemma net_send_inbox:
  "mset (inbox (net_send i dm net)) \<subseteq># mset (inbox net) + {#(i, fst dm, snd dm)#}"
  by (simp add: net_send_def next_f64_def Let_def)

lemma net_sends_inbox:
  "mset (inbox (fold (net_send i) acts net)) \<subseteq># mset (inbox net) + tagged i acts"
proof (induction acts arbitrary: net)
  case Nil
  then show ?case by simp
next
  case (Cons dm acts)
  have "mset (inbox (fold (net_send i) acts (net_send i dm net)))
      \<subseteq># mset (inbox (net_send i dm net)) + tagged i acts"
    by (rule Cons.IH)
  also have "\<dots> \<subseteq># (mset (inbox net) + {#(i, fst dm, snd dm)#}) + tagged i acts"
    by (rule subset_mset.add_right_mono [OF net_send_inbox])
  finally show ?case by (cases dm) simp
qed

lemma length_tick_node [simp]: "length (nodes (tick_node el i net)) = length (nodes net)"
  by (simp add: tick_node_def split: prod.split)

lemma length_append_local_nodes:
  "propose i cmd net = Inr net' \<Longrightarrow> length (nodes net') = length (nodes net)"
  by (auto simp: propose_def split: if_splits)

locale switched =
  fixes I :: "server list \<Rightarrow> envelope multiset \<Rightarrow> bool"
  assumes fewer: "I ns M \<Longrightarrow> M' \<subseteq># M \<Longrightarrow> I ns M'"
    and ticked: "I ns M \<Longrightarrow> i < length ns \<Longrightarrow> server_tick el (ns ! i) = (s, acts) \<Longrightarrow>
      I (ns[i := s]) (M + tagged i acts)"
    and addressed: "I ns (add_mset (f, i, m) M) \<Longrightarrow> i < length ns"
    and handled: "I ns (add_mset (f, i, m) M) \<Longrightarrow> i < length ns \<Longrightarrow>
      handle f m (ns ! i) = (s, acts) \<Longrightarrow> I (ns[i := s]) (M + tagged i acts)"
    and proposed: "I ns M \<Longrightarrow> i < length ns \<Longrightarrow> srole (ns ! i) = Leader \<Longrightarrow>
      I (ns[i := (append_local cmd (ns ! i))\<lparr>heartbeat_due_in := 0\<rparr>]) M"
    and fresh: "I (map (\<lambda>i. server_new i sz) [0..<sz]) {#}"
begin

lemma sends:
  assumes "I (nodes net) (N + (mset (inbox net) + tagged i acts))"
  shows "I (nodes net) (N + mset (inbox (fold (net_send i) acts net)))"
  by (rule fewer [OF assms]) (simp add: net_sends_inbox)

lemma tick_node_inv:
  assumes "I (nodes net) (mset (inbox net))" and "i < length (nodes net)"
  shows "I (nodes (tick_node el i net)) (mset (inbox (tick_node el i net)))"
proof -
  obtain s acts where t: "server_tick el (nodes net ! i) = (s, acts)" by fastforce
  let ?net = "net\<lparr>nodes := (nodes net)[i := s]\<rparr>"
  have "I (nodes ?net) ({#} + (mset (inbox ?net) + tagged i acts))"
    using ticked [OF assms t] by simp
  from sends [OF this] show ?thesis by (simp add: tick_node_def t)
qed

lemma net_tick_inv:
  assumes "I (nodes net) (mset (inbox net))"
  shows "I (nodes (net_tick el net)) (mset (inbox (net_tick el net)))"
proof -
  have "I (nodes (fold (tick_node el) is net)) (mset (inbox (fold (tick_node el) is net)))"
    if "\<forall>i\<in>set is. i < length (nodes net)" "I (nodes net) (mset (inbox net))" for "is" net
    using that by (induction "is" arbitrary: net) (auto simp: tick_node_inv)
  with assms show ?thesis by (simp add: net_tick_def)
qed

lemma deliver_inv:
  assumes v: "I (nodes net) (mset (e # es) + mset (inbox net))"
  shows "\<exists>net'. deliver e net = Inr net' \<and> I (nodes net') (mset es + mset (inbox net'))"
proof -
  obtain f i m where e: "e = (f, i, m)" by (cases e)
  have i: "i < length (nodes net)"
    using addressed [of "nodes net" f i m] v by (simp add: e)
  obtain s acts where h: "handle f m (nodes net ! i) = (s, acts)" by fastforce
  let ?net = "net\<lparr>nodes := (nodes net)[i := s]\<rparr>"
  have "I (nodes ?net) (mset es + (mset (inbox ?net) + tagged i acts))"
    using handled [OF _ i h, of "mset es + mset (inbox net)"] v by (simp add: e add.assoc)
  from sends [OF this] show ?thesis by (simp add: deliver_def e i h)
qed

lemma deliver_all_inv:
  assumes "I (nodes net) (mset es + mset (inbox net))"
  shows "\<exists>net'. deliver_all es net = Inr net' \<and> I (nodes net') (mset (inbox net'))"
  using assms
proof (induction es arbitrary: net)
  case Nil
  then show ?case by simp
next
  case (Cons e es)
  obtain net1 where net1: "deliver e net = Inr net1"
    and v1: "I (nodes net1) (mset es + mset (inbox net1))"
    using deliver_inv [OF Cons.prems] by blast
  from Cons.IH [OF v1] net1 show ?case by simp
qed

lemma net_step_inv:
  assumes "I (nodes net) (mset (inbox net))"
  shows "\<exists>k net'. net_step net = Inr (k, net') \<and> I (nodes net') (mset (inbox net'))"
proof (cases "inbox net = []")
  case True
  then show ?thesis using assms by (simp add: net_step_def)
next
  case False
  have "I (nodes (net\<lparr>inbox := []\<rparr>)) (mset (inbox net) + mset (inbox (net\<lparr>inbox := []\<rparr>)))"
    using assms by simp
  from deliver_all_inv [OF this] False show ?thesis by (auto simp: net_step_def)
qed

lemma run_until_quiet_inv:
  assumes "I (nodes net) (mset (inbox net))"
  shows "\<exists>net'. run_until_quiet r net = Inr net' \<and> I (nodes net') (mset (inbox net'))"
  using assms
proof (induction r arbitrary: net)
  case 0
  then show ?case by simp
next
  case (Suc r)
  obtain k net1 where net1: "net_step net = Inr (k, net1)" "I (nodes net1) (mset (inbox net1))"
    using net_step_inv [OF Suc.prems] by blast
  then show ?case using Suc.IH [of net1] by auto
qed

lemma propose_inv:
  assumes "I (nodes net) (mset (inbox net))" and "propose i cmd net = Inr net'"
  shows "I (nodes net') (mset (inbox net'))"
  using assms proposed [OF assms(1), of i cmd]
  by (auto simp: propose_def not_le split: if_splits)

lemma net_op_inv:
  assumes "net_op net net'" and v: "I (nodes net) (mset (inbox net))"
  shows "I (nodes net') (mset (inbox net'))"
  using assms(1)
proof (rule net_opE)
  fix k assume "net_step net = Inr (k, net')"
  then show ?thesis using net_step_inv [OF v] by auto
next
  fix i cmd assume "propose i cmd net = Inr net'"
  then show ?thesis by (rule propose_inv [OF v])
qed (simp_all add: net_tick_inv v set_partition_def heal_all_def)

end

text \<open>
  The companion interface for relations: a preorder that every operation of a server respects
  relates each server of a network to itself after any operation of the network.
\<close>

locale server_order =
  fixes R :: "server \<Rightarrow> server \<Rightarrow> bool"
  assumes R_refl: "R s s"
    and R_trans: "R a b \<Longrightarrow> R b c \<Longrightarrow> R a c"
    and R_tick: "server_tick el s = (s', acts) \<Longrightarrow> R s s'"
    and R_handle: "handle f m s = (s', acts) \<Longrightarrow> R s s'"
    and R_propose: "R s ((append_local cmd s)\<lparr>heartbeat_due_in := 0\<rparr>)"
begin

lemma all_refl: "list_all2 R ns ns"
  by (rule list_all2_refl) (rule R_refl)

lemma all_trans: "list_all2 R a b \<Longrightarrow> list_all2 R b c \<Longrightarrow> list_all2 R a c"
  by (rule list_all2_trans [OF R_trans])

lemma all_update: "i < length ns \<Longrightarrow> R (ns ! i) s \<Longrightarrow> list_all2 R ns (ns[i := s])"
  by (auto simp: list_all2_conv_all_nth nth_list_update R_refl)

lemma tick_node_rel:
  assumes "i < length (nodes net)"
  shows "list_all2 R (nodes net) (nodes (tick_node el i net))"
  using all_update [OF assms R_tick] by (auto simp: tick_node_def split: prod.split)

lemma net_tick_rel: "list_all2 R (nodes net) (nodes (net_tick el net))"
proof -
  have "list_all2 R (nodes net) (nodes (fold (tick_node el) is net))"
    if "\<forall>i\<in>set is. i < length (nodes net)" for "is" net
    using that
  proof (induction "is" arbitrary: net)
    case Nil
    then show ?case by (simp add: all_refl)
  next
    case (Cons i "is")
    then show ?case using all_trans [OF tick_node_rel Cons.IH] by simp
  qed
  then show ?thesis by (simp add: net_tick_def)
qed

lemma deliver_rel: "deliver e net = Inr net' \<Longrightarrow> list_all2 R (nodes net) (nodes net')"
  by (auto simp: deliver_def intro!: all_update R_handle split: prod.splits if_splits)

lemma deliver_all_rel: "deliver_all es net = Inr net' \<Longrightarrow> list_all2 R (nodes net) (nodes net')"
proof (induction es arbitrary: net)
  case Nil
  then show ?case by (simp add: all_refl)
next
  case (Cons e es)
  then show ?case by (auto split: sum.splits intro: all_trans deliver_rel)
qed

lemma net_op_rel:
  assumes "net_op net net'"
  shows "list_all2 R (nodes net) (nodes net')"
  using assms
proof (rule net_opE)
  fix k assume "net_step net = Inr (k, net')"
  then show ?thesis
    using deliver_all_rel [of "inbox net" "net\<lparr>inbox := []\<rparr>"]
    by (auto simp: net_step_def all_refl split: if_splits sum.splits)
next
  fix i cmd assume "propose i cmd net = Inr net'"
  then show ?thesis
    by (auto simp: propose_def intro!: all_update R_propose split: if_splits)
qed (simp_all add: net_tick_rel set_partition_def heal_all_def all_refl)

lemma net_ops_rel: "net_op\<^sup>*\<^sup>* net net' \<Longrightarrow> list_all2 R (nodes net) (nodes net')"
  by (induction rule: rtranclp_induct) (blast intro: all_refl all_trans net_op_rel)+

end

definition network_start :: "network \<Rightarrow> bool" where
  "network_start net \<longleftrightarrow> (\<exists>sz seed. net = network_new sz seed)"

sublocale switched \<subseteq> guarded_machine network_start net_op "\<lambda>net. I (nodes net) (mset (inbox net))"
  by unfold_locales (auto simp: network_start_def network_new_def fresh net_op_inv)

section \<open>Running a network\<close>

lemma sample_less_one: "of_nat (unat (drop_bit 11 (r :: 64 word))) / 2 ^ 53 < (1 :: rat)"
proof -
  have "unat (drop_bit 11 r) = unat r div 2 ^ 11"
    by (simp add: drop_bit_eq_div unat_div)
  moreover have "unat r < 2 ^ 64" using unsigned_less [of r] by simp
  ultimately have "unat (drop_bit 11 r) < 2 ^ 53"
    by (simp add: less_mult_imp_div_less)
  then have "(of_nat (unat (drop_bit 11 r)) :: rat) < of_nat (2 ^ 53)"
    by (simp only: of_nat_less_iff)
  then show ?thesis by simp
qed

lemma sample_nonneg: "0 \<le> (of_nat k / 2 ^ 53 :: rat)"
  by simp

lemma net_send_keep:
  assumes "map_of (partitions net) (i, fst dm) = None"
  shows "net_send i dm net
       = net\<lparr>inbox := inbox net @ [(i, fst dm, snd dm)], net_rng := xorshift64 (net_rng net)\<rparr>"
  using assms sample_nonneg [of "unat (drop_bit 11 (xorshift64 (net_rng net)))"]
  unfolding net_send_def next_f64_def Let_def prod.case by simp

lemma net_send_lose:
  assumes "map_of (partitions net) (i, fst dm) = Some 1"
  shows "net_send i dm net = net\<lparr>net_rng := xorshift64 (net_rng net)\<rparr>"
  using assms sample_less_one [of "xorshift64 (net_rng net)"]
  unfolding net_send_def next_f64_def Let_def prod.case by simp

lemma upt_3: "[0..<3] = [0, 1, 2::nat]"
  by (simp add: upt_rec)

lemma other_ids_3:
  "other_ids 3 0 = [1, 2]" "other_ids 3 (Suc 0) = [0, 2]" "other_ids 3 2 = [0, 1]"
  by (simp_all add: other_ids_def upt_3)

lemma network_new_3:
  "network_new 3 seed = \<lparr>nodes = [server_new 0 3, server_new 1 3, server_new 2 3], inbox = [],
     partitions = [], net_rng = seed OR 1\<rparr>"
  by (simp add: network_new_def upt_3)

lemma net_tick_3:
  "length (nodes net) = 3 \<Longrightarrow>
     net_tick el net = tick_node el 2 (tick_node el 1 (tick_node el 0 net))"
  by (simp add: net_tick_def upt_3)

lemmas raft_run = network_new_3 net_tick_3 other_ids_3 net_send_keep net_send_lose
  tick_node_def server_tick_def server_new_def put_all_def Let_def sat_sub_def start_election_def
  next_rand_def quorum_def last_log_index_def last_index_of_def last_log_term_def last_term_of_def
  net_step_def deliver_def handle_request_vote_def become_follower_def up_to_date_def
  handle_request_vote_reply_def install_leader_def append_round_def build_append_for_def
  term_at_def find_index_def wrap_sub_def handle_append_entries_def consistent_prev_def
  append_one_def handle_append_entries_reply_def advance_commit_def replicas_at_def
  append_local_def propose_def set_partition_def heal_all_def

end
