(* ===== verification/Raft_Election.thy ===== *)
theory Raft_Election
  imports Raft_Switch
begin

text \<open>
  Election safety of the consensus of \<^verbatim>\<open>src/crates/lionfs-cluster/src/raft.rs\<close>.

  The invariant speaks about the servers and the multiset of messages in flight, so it holds for
  every loss and every order of delivery. Three history functions accompany them:
  \<open>H p t\<close> is the candidate server \<open>p\<close> voted for in term \<open>t\<close>, \<open>G c t\<close> is the set of voters
  whose grant candidate \<open>c\<close> has counted in term \<open>t\<close>, and \<open>E t\<close> is the server that won term \<open>t\<close>.
  A grant is counted once because a candidate asks each peer once per term and the switch never
  duplicates a message; two winners of one term would need two disjoint quorums.
\<close>

section \<open>The invariant\<close>

definition rv_count :: "nat \<Rightarrow> nat \<Rightarrow> nat \<Rightarrow> envelope multiset \<Rightarrow> nat" where
  "rv_count p c t M =
     size (filter_mset (\<lambda>(f, d, m). d = p \<and> (\<exists>a b. m = RequestVote t c a b)) M)"

definition grant_count :: "nat \<Rightarrow> nat \<Rightarrow> nat \<Rightarrow> envelope multiset \<Rightarrow> nat" where
  "grant_count p c t M =
     size (filter_mset (\<lambda>(f, d, m). f = p \<and> d = c \<and> m = RequestVoteReply t True) M)"

definition msg_ok :: "nat \<Rightarrow> (nat \<Rightarrow> nat \<Rightarrow> nat option) \<Rightarrow> server list \<Rightarrow> envelope \<Rightarrow> bool" where
  "msg_ok n H ns e =
     (case e of (f, d, m) \<Rightarrow> f < n \<and> d < n \<and>
        (case m of
           RequestVote t c a b \<Rightarrow> c < n \<and> d \<noteq> c \<and> t \<le> current_term (ns ! c)
         | RequestVoteReply t g \<Rightarrow>
             g \<longrightarrow> f \<noteq> d \<and> H f t = Some d \<and> t \<le> current_term (ns ! d)
         | AppendEntries t l pidx pterm es lc \<Rightarrow> l < n
         | AppendEntriesReply t ok mi \<Rightarrow> True))"

definition server_ok ::
    "nat \<Rightarrow> (nat \<Rightarrow> nat \<Rightarrow> nat option) \<Rightarrow> (nat \<Rightarrow> nat \<Rightarrow> nat set) \<Rightarrow> nat \<Rightarrow> server \<Rightarrow> bool" where
  "server_ok n H G i s \<longleftrightarrow>
     self_id s = i \<and> cluster_size s = n \<and>
     H i (current_term s) = voted_for s \<and>
     (\<forall>t>current_term s. H i t = None \<and> G i t = {}) \<and>
     (srole s \<noteq> Follower \<longrightarrow>
        voted_for s = Some i \<and> i \<in> G i (current_term s) \<and>
        votes_received s \<le> card (G i (current_term s)))"

definition winner_ok ::
    "(nat \<Rightarrow> nat \<Rightarrow> nat set) \<Rightarrow> server list \<Rightarrow> nat \<Rightarrow> nat \<Rightarrow> bool" where
  "winner_ok G ns t c \<longleftrightarrow>
     c < length ns \<and> length ns div 2 + 1 \<le> card (G c t) \<and> t \<le> current_term (ns ! c) \<and>
     (current_term (ns ! c) = t \<longrightarrow> srole (ns ! c) = Leader)"

definition vote_inv ::
    "(nat \<Rightarrow> nat \<Rightarrow> nat option) \<Rightarrow> (nat \<Rightarrow> nat \<Rightarrow> nat set) \<Rightarrow> (nat \<Rightarrow> nat option)
       \<Rightarrow> server list \<Rightarrow> envelope multiset \<Rightarrow> bool" where
  "vote_inv H G E ns M \<longleftrightarrow>
     (\<forall>i<length ns. server_ok (length ns) H G i (ns ! i)) \<and>
     (\<forall>i<length ns. srole (ns ! i) = Leader \<longrightarrow> E (current_term (ns ! i)) = Some i) \<and>
     (\<forall>t c. E t = Some c \<longrightarrow> winner_ok G ns t c) \<and>
     (\<forall>e\<in>#M. msg_ok (length ns) H ns e) \<and>
     (\<forall>c<length ns. \<forall>t. G c t \<subseteq> {p. p < length ns \<and> H p t = Some c}) \<and>
     (\<forall>p<length ns. \<forall>c<length ns. \<forall>t. p \<noteq> c \<longrightarrow>
        rv_count p c t M + grant_count p c t M + (if p \<in> G c t then 1 else 0) \<le> 1)"

definition voting :: "(nat \<Rightarrow> nat option) \<Rightarrow> server list \<Rightarrow> envelope multiset \<Rightarrow> bool" where
  "voting E ns M \<longleftrightarrow> (\<exists>H G. vote_inv H G E ns M)"

text \<open>The winners after server \<open>i\<close> moved from \<open>s\<close> to \<open>s'\<close>.\<close>

definition crown :: "nat \<Rightarrow> server \<Rightarrow> server \<Rightarrow> (nat \<Rightarrow> nat option) \<Rightarrow> (nat \<Rightarrow> nat option)" where
  "crown i s s' E =
     (if srole s \<noteq> Leader \<and> srole s' = Leader then E(current_term s' \<mapsto> i) else E)"

definition quiet :: "nat \<Rightarrow> envelope \<Rightarrow> bool" where
  "quiet n e =
     (case e of (f, d, m) \<Rightarrow> f < n \<and> d < n \<and>
        (case m of
           RequestVote t c a b \<Rightarrow> False
         | RequestVoteReply t g \<Rightarrow> \<not> g
         | AppendEntries t l pidx pterm es lc \<Rightarrow> l < n
         | AppendEntriesReply t ok mi \<Rightarrow> True))"

section \<open>Counting messages\<close>

lemma counts_mono:
  assumes "M' \<subseteq># M"
  shows "rv_count p c t M' \<le> rv_count p c t M" and "grant_count p c t M' \<le> grant_count p c t M"
  using assms by (auto simp: rv_count_def grant_count_def intro!: size_mset_mono multiset_filter_mono)

lemma counts_union [simp]:
  "rv_count p c t (M + N) = rv_count p c t M + rv_count p c t N"
  "grant_count p c t (M + N) = grant_count p c t M + grant_count p c t N"
  by (simp_all add: rv_count_def grant_count_def)

lemma counts_empty [simp]: "rv_count p c t {#} = 0" "grant_count p c t {#} = 0"
  by (simp_all add: rv_count_def grant_count_def)

lemma counts_quiet:
  assumes "\<forall>e\<in>#N. quiet n e"
  shows "rv_count p c t N = 0" and "grant_count p c t N = 0"
proof -
  have "filter_mset (\<lambda>(f, d, m). d = p \<and> (\<exists>a b. m = RequestVote t c a b)) N = {#}"
    and "filter_mset (\<lambda>(f, d, m). f = p \<and> d = c \<and> m = RequestVoteReply t True) N = {#}"
    using assms by (auto simp: filter_mset_eq_mempty_iff quiet_def)
  then show "rv_count p c t N = 0" and "grant_count p c t N = 0"
    by (simp_all add: rv_count_def grant_count_def)
qed

lemma rv_count_zero:
  assumes "\<forall>e\<in>#M. msg_ok n H ns e" and "current_term (ns ! c) < t"
  shows "rv_count p c t M = 0"
proof -
  have "filter_mset (\<lambda>(f, d, m). d = p \<and> (\<exists>a b. m = RequestVote t c a b)) M = {#}"
    using assms by (fastforce simp: filter_mset_eq_mempty_iff msg_ok_def)
  then show ?thesis by (simp add: rv_count_def)
qed

lemma grant_count_zero:
  assumes "\<forall>e\<in>#M. msg_ok n H ns e" and "current_term (ns ! c) < t"
  shows "grant_count p c t M = 0"
proof -
  have "filter_mset (\<lambda>(f, d, m). f = p \<and> d = c \<and> m = RequestVoteReply t True) M = {#}"
    using assms by (fastforce simp: filter_mset_eq_mempty_iff msg_ok_def)
  then show ?thesis by (simp add: grant_count_def)
qed

lemma quiet_msg_ok: "quiet n e \<Longrightarrow> msg_ok n H ns e"
  by (auto simp: quiet_def msg_ok_def split: prod.splits raft_message.splits)

lemma msg_ok_mono:
  assumes "msg_ok n H ns e"
    and "\<And>j. current_term (ns ! j) \<le> current_term (ns' ! j)"
    and "\<And>p t c. H p t = Some c \<Longrightarrow> H' p t = Some c"
  shows "msg_ok n H' ns' e"
  using assms order_trans [OF _ assms(2)]
  by (fastforce simp: msg_ok_def split: prod.splits raft_message.splits)

section \<open>The moves of a single server\<close>

lemma voting_subset:
  assumes "voting E ns M" and sub: "M' \<subseteq># M"
  shows "voting E ns M'"
proof -
  obtain H G where v: "vote_inv H G E ns M" using assms by (auto simp: voting_def)
  have cnt: "rv_count p c t M' + grant_count p c t M' + (if p \<in> G c t then 1 else 0) \<le> 1"
    if "p < length ns" "c < length ns" "p \<noteq> c" for p c t
  proof -
    have "rv_count p c t M + grant_count p c t M + (if p \<in> G c t then 1 else 0) \<le> 1"
      using v that by (simp add: vote_inv_def)
    then show ?thesis using counts_mono [OF sub, of p c t] by linarith
  qed
  have "\<forall>e\<in>#M'. msg_ok (length ns) H ns e"
    using v mset_subset_eqD [OF sub] by (simp add: vote_inv_def)
  with v cnt have "vote_inv H G E ns M'" by (simp add: vote_inv_def)
  then show ?thesis by (auto simp: voting_def)
qed

text \<open>A move that keeps term and vote, may step down, and sends no request and no grant.\<close>

lemma voting_silent:
  assumes v: "voting E ns M" and i: "i < length ns"
    and same: "self_id s = self_id (ns ! i)" "cluster_size s = cluster_size (ns ! i)"
      "current_term s = current_term (ns ! i)" "voted_for s = voted_for (ns ! i)"
      "srole s = srole (ns ! i) \<and> votes_received s = votes_received (ns ! i)
         \<or> srole s = Follower \<and> srole (ns ! i) \<noteq> Leader"
    and quiet: "\<forall>e\<in>#N. quiet (length ns) e"
  shows "voting E (ns[i := s]) (M + N)"
proof -
  obtain H G where H: "vote_inv H G E ns M" using v by (auto simp: voting_def)
  have term_eq: "current_term (ns[i := s] ! j) = current_term (ns ! j)" for j
    using same i by (cases "j < length ns") (auto simp: nth_list_update)
  have "vote_inv H G E (ns[i := s]) (M + N)"
    unfolding vote_inv_def length_list_update
  proof (intro conjI allI impI ballI)
    fix j assume "j < length ns"
    then show "server_ok (length ns) H G j (ns[i := s] ! j)"
      using H same i by (auto simp: vote_inv_def server_ok_def nth_list_update)
  next
    fix j assume "j < length ns" and "srole (ns[i := s] ! j) = Leader"
    then show "E (current_term (ns[i := s] ! j)) = Some j"
      using H same i by (auto simp: vote_inv_def nth_list_update split: if_splits)
  next
    fix u c assume "E u = Some c"
    then have "winner_ok G ns u c" using H by (simp add: vote_inv_def)
    then show "winner_ok G (ns[i := s]) u c"
      using same i by (auto simp: winner_ok_def nth_list_update)
  next
    fix e assume "e \<in># M + N"
    then consider "msg_ok (length ns) H ns e" | "quiet (length ns) e"
      using H quiet by (auto simp: vote_inv_def)
    then show "msg_ok (length ns) H (ns[i := s]) e"
      by cases (auto intro: msg_ok_mono quiet_msg_ok simp: term_eq)
  next
    fix c t assume "c < length ns"
    then show "G c t \<subseteq> {p. p < length ns \<and> H p t = Some c}"
      using H by (simp add: vote_inv_def)
  next
    fix p c t assume "p < length ns" "c < length ns" "p \<noteq> c"
    then show "rv_count p c t (M + N) + grant_count p c t (M + N) + (if p \<in> G c t then 1 else 0) \<le> 1"
      using H by (simp add: vote_inv_def counts_quiet [OF quiet])
  qed
  then show ?thesis by (auto simp: voting_def)
qed

text \<open>Adopting a higher term.\<close>

lemma voting_bump:
  assumes v: "voting E ns M" and i: "i < length ns" and t: "current_term (ns ! i) < t"
    and s: "self_id s = self_id (ns ! i)" "cluster_size s = cluster_size (ns ! i)"
      "current_term s = t" "voted_for s = None" "srole s = Follower"
  shows "voting E (ns[i := s]) M"
proof -
  obtain H G where H: "vote_inv H G E ns M" using v by (auto simp: voting_def)
  have term_mono: "current_term (ns ! j) \<le> current_term (ns[i := s] ! j)" for j
    using s t i by (cases "j < length ns") (auto simp: nth_list_update)
  have "vote_inv H G E (ns[i := s]) M"
    unfolding vote_inv_def length_list_update
  proof (intro conjI allI impI ballI)
    fix j assume "j < length ns"
    then show "server_ok (length ns) H G j (ns[i := s] ! j)"
      using H s i t by (auto simp: vote_inv_def server_ok_def nth_list_update)
  next
    fix j assume "j < length ns" and "srole (ns[i := s] ! j) = Leader"
    then show "E (current_term (ns[i := s] ! j)) = Some j"
      using H s i by (auto simp: vote_inv_def nth_list_update split: if_splits)
  next
    fix u c assume "E u = Some c"
    then have "winner_ok G ns u c" using H by (simp add: vote_inv_def)
    then show "winner_ok G (ns[i := s]) u c"
      using s t i by (auto simp: winner_ok_def nth_list_update)
  next
    fix e assume "e \<in># M"
    then have "msg_ok (length ns) H ns e" using H by (simp add: vote_inv_def)
    then show "msg_ok (length ns) H (ns[i := s]) e"
      by (rule msg_ok_mono) (simp_all add: term_mono)
  next
    fix c t' assume "c < length ns"
    then show "G c t' \<subseteq> {p. p < length ns \<and> H p t' = Some c}"
      using H by (simp add: vote_inv_def)
  next
    fix p c t' assume "p < length ns" "c < length ns" "p \<noteq> c"
    then show "rv_count p c t' M + grant_count p c t' M + (if p \<in> G c t' then 1 else 0) \<le> 1"
      using H by (simp add: vote_inv_def)
  qed
  then show ?thesis by (auto simp: voting_def)
qed

text \<open>Starting an election: a fresh term, a vote for itself, one request to each listed peer.\<close>

definition requests :: "nat \<Rightarrow> nat \<Rightarrow> nat \<Rightarrow> nat \<Rightarrow> nat list \<Rightarrow> envelope multiset" where
  "requests i t lli llt ps = mset (map (\<lambda>p. (i, p, RequestVote t i lli llt)) ps)"

lemma rv_count_requests:
  "distinct ps \<Longrightarrow>
     rv_count p c t' (requests i t lli llt ps) = (if c = i \<and> t' = t \<and> p \<in> set ps then 1 else 0)"
  by (induction ps) (auto simp: rv_count_def requests_def)

lemma grant_count_requests [simp]: "grant_count p c t' (requests i t lli llt ps) = 0"
  by (induction ps) (auto simp: grant_count_def requests_def)

lemma voting_election:
  assumes v: "voting E ns M" and i: "i < length ns"
    and t: "t = current_term (ns ! i) + 1"
    and s: "self_id s = i" "cluster_size s = cluster_size (ns ! i)"
      "current_term s = t" "voted_for s = Some i" "votes_received s = 1"
      "srole s = Candidate"
    and ps: "distinct ps" "set ps \<subseteq> {..<length ns} - {i}"
  shows "voting E (ns[i := s]) (M + requests i t lli llt ps)"
proof -
  obtain H G where H: "vote_inv H G E ns M" using v by (auto simp: voting_def)
  define H' where "H' = H(i := (H i)(t := Some i))"
  define G' where "G' = G(i := (G i)(t := {i}))"
  have fresh: "H i t = None" "G i t = {}"
    using H i t by (auto simp: vote_inv_def server_ok_def)
  have H_mono: "H p u = Some c \<Longrightarrow> H' p u = Some c" for p u c
    using fresh by (auto simp: H'_def)
  have term_mono: "current_term (ns ! j) \<le> current_term (ns[i := s] ! j)" for j
    using s t i by (cases "j < length ns") (auto simp: nth_list_update)
  have "vote_inv H' G' E (ns[i := s]) (M + requests i t lli llt ps)"
    unfolding vote_inv_def length_list_update
  proof (intro conjI allI impI ballI)
    fix j assume j: "j < length ns"
    then have ok: "server_ok (length ns) H G j (ns ! j)" using H by (simp add: vote_inv_def)
    show "server_ok (length ns) H' G' j (ns[i := s] ! j)"
    proof (cases "j = i")
      case True
      then show ?thesis
        using ok s t i by (auto simp: server_ok_def nth_list_update H'_def G'_def)
    next
      case False
      then show ?thesis using ok j by (simp add: server_ok_def H'_def G'_def)
    qed
  next
    fix j assume "j < length ns" and "srole (ns[i := s] ! j) = Leader"
    then show "E (current_term (ns[i := s] ! j)) = Some j"
      using H s i by (auto simp: vote_inv_def nth_list_update split: if_splits)
  next
    fix u c assume "E u = Some c"
    then have "winner_ok G ns u c" using H by (simp add: vote_inv_def)
    then show "winner_ok G' (ns[i := s]) u c"
      using s t fresh i by (auto simp: winner_ok_def nth_list_update G'_def)
  next
    fix e assume "e \<in># M + requests i t lli llt ps"
    then consider "msg_ok (length ns) H ns e"
      | p where "p \<in> set ps" "e = (i, p, RequestVote t i lli llt)"
      using H by (auto simp: vote_inv_def requests_def)
    then show "msg_ok (length ns) H' (ns[i := s]) e"
    proof cases
      case 1
      then show ?thesis by (rule msg_ok_mono) (simp_all add: term_mono H_mono)
    next
      case 2
      then show ?thesis using ps s i by (auto simp: msg_ok_def)
    qed
  next
    fix c u assume "c < length ns"
    then have "G c u \<subseteq> {p. p < length ns \<and> H p u = Some c}" using H by (simp add: vote_inv_def)
    then show "G' c u \<subseteq> {p. p < length ns \<and> H' p u = Some c}"
      using i fresh by (auto simp: G'_def H'_def)
  next
    fix p c u assume pc: "p < length ns" "c < length ns" "p \<noteq> c"
    then have old: "rv_count p c u M + grant_count p c u M + (if p \<in> G c u then 1 else 0) \<le> 1"
      using H by (simp add: vote_inv_def)
    have zero: "rv_count p i t M = 0" "grant_count p i t M = 0"
      using H t by (auto simp: vote_inv_def intro!: rv_count_zero grant_count_zero)
    show "rv_count p c u (M + requests i t lli llt ps) + grant_count p c u (M + requests i t lli llt ps)
        + (if p \<in> G' c u then 1 else 0) \<le> 1"
      using old zero pc by (auto simp: rv_count_requests [OF ps(1)] G'_def)
  qed
  then show ?thesis by (auto simp: voting_def)
qed

text \<open>Granting a vote: the request is consumed and one grant is sent.\<close>

lemma voting_grant:
  assumes v: "voting E ns (add_mset (f, i, RequestVote t c lli llt) M)" and i: "i < length ns"
    and t: "t = current_term (ns ! i)" and can: "voted_for (ns ! i) = None \<or> voted_for (ns ! i) = Some c"
    and s: "self_id s = i" "cluster_size s = cluster_size (ns ! i)"
      "current_term s = t" "voted_for s = Some c" "srole s = srole (ns ! i)"
  shows "voting E (ns[i := s]) (add_mset (i, c, RequestVoteReply t True) M)"
proof -
  obtain H G where H: "vote_inv H G E ns (add_mset (f, i, RequestVote t c lli llt) M)"
    using v by (auto simp: voting_def)
  define H' where "H' = H(i := (H i)(t := Some c))"
  have ic: "i \<noteq> c" "c < length ns" "t \<le> current_term (ns ! c)"
    using H by (auto simp: vote_inv_def msg_ok_def)
  have Hi: "H i t = None \<or> H i t = Some c"
    using H i t can by (auto simp: vote_inv_def server_ok_def)
  then have H_mono: "H p u = Some d \<Longrightarrow> H' p u = Some d" for p u d
    by (auto simp: H'_def)
  have term_mono: "current_term (ns ! j) \<le> current_term (ns[i := s] ! j)" for j
    using s t i by (cases "j < length ns") (auto simp: nth_list_update)
  have "vote_inv H' G E (ns[i := s]) (add_mset (i, c, RequestVoteReply t True) M)"
    unfolding vote_inv_def length_list_update
  proof (intro conjI allI impI ballI)
    fix j assume j: "j < length ns"
    then have ok: "server_ok (length ns) H G j (ns ! j)" using H by (simp add: vote_inv_def)
    show "server_ok (length ns) H' G j (ns[i := s] ! j)"
    proof (cases "j = i")
      case True
      then show ?thesis
        using ok s t i can ic by (auto simp: server_ok_def H'_def)
    next
      case False
      then show ?thesis using ok j by (simp add: server_ok_def H'_def)
    qed
  next
    fix j assume "j < length ns" and "srole (ns[i := s] ! j) = Leader"
    then show "E (current_term (ns[i := s] ! j)) = Some j"
      using H s t i by (auto simp: vote_inv_def nth_list_update split: if_splits)
  next
    fix u c assume "E u = Some c"
    then have "winner_ok G ns u c" using H by (simp add: vote_inv_def)
    then show "winner_ok G (ns[i := s]) u c"
      using s t i by (auto simp: winner_ok_def nth_list_update)
  next
    fix e assume "e \<in># add_mset (i, c, RequestVoteReply t True) M"
    then consider "msg_ok (length ns) H ns e" | "e = (i, c, RequestVoteReply t True)"
      using H by (auto simp: vote_inv_def)
    then show "msg_ok (length ns) H' (ns[i := s]) e"
    proof cases
      case 1
      then show ?thesis by (rule msg_ok_mono) (simp_all add: term_mono H_mono)
    next
      case 2
      then show ?thesis using ic i by (auto simp: msg_ok_def H'_def)
    qed
  next
    fix d u assume "d < length ns"
    then have "G d u \<subseteq> {p. p < length ns \<and> H p u = Some d}" using H by (simp add: vote_inv_def)
    then show "G d u \<subseteq> {p. p < length ns \<and> H' p u = Some d}"
      using H_mono by blast
  next
    fix p d u assume "p < length ns" "d < length ns" "p \<noteq> d"
    then have "rv_count p d u (add_mset (f, i, RequestVote t c lli llt) M)
        + grant_count p d u (add_mset (f, i, RequestVote t c lli llt) M)
        + (if p \<in> G d u then 1 else 0) \<le> 1"
      using H by (simp add: vote_inv_def)
    then show "rv_count p d u (add_mset (i, c, RequestVoteReply t True) M)
        + grant_count p d u (add_mset (i, c, RequestVoteReply t True) M)
        + (if p \<in> G d u then 1 else 0) \<le> 1"
      by (auto simp: rv_count_def grant_count_def split: if_splits)
  qed
  then show ?thesis by (auto simp: voting_def)
qed

text \<open>Counting a grant.\<close>

lemma voting_count:
  assumes v: "voting E ns (add_mset (f, i, RequestVoteReply t True) M)" and i: "i < length ns"
    and t: "t = current_term (ns ! i)" and cand: "srole (ns ! i) = Candidate"
    and s: "self_id s = i" "cluster_size s = cluster_size (ns ! i)"
      "current_term s = t" "voted_for s = voted_for (ns ! i)"
      "votes_received s = votes_received (ns ! i) + 1"
      "srole s = Candidate"
  shows "voting E (ns[i := s]) M"
proof -
  obtain H G where H: "vote_inv H G E ns (add_mset (f, i, RequestVoteReply t True) M)"
    using v by (auto simp: voting_def)
  define G' where "G' = G(i := (G i)(t := insert f (G i t)))"
  have fi: "f < length ns" "f \<noteq> i" "H f t = Some i"
    using H by (auto simp: vote_inv_def msg_ok_def)
  have cnt: "rv_count p d u (add_mset (f, i, RequestVoteReply t True) M)
        + grant_count p d u (add_mset (f, i, RequestVoteReply t True) M)
        + (if p \<in> G d u then 1 else 0) \<le> 1" if "p < length ns" "d < length ns" "p \<noteq> d" for p d u
    using H that by (simp add: vote_inv_def)
  have fG: "f \<notin> G i t"
    using cnt [of f i t] fi i by (auto simp: rv_count_def grant_count_def split: if_splits)
  have sub: "G i t \<subseteq> {p. p < length ns \<and> H p t = Some i}"
    using H i by (simp add: vote_inv_def)
  then have fin: "finite (G i t)"
    by (rule finite_subset) simp
  have term_eq: "current_term (ns[i := s] ! j) = current_term (ns ! j)" for j
    using s t i by (cases "j < length ns") (auto simp: nth_list_update)
  have "vote_inv H G' E (ns[i := s]) M"
    unfolding vote_inv_def length_list_update
  proof (intro conjI allI impI ballI)
    fix j assume j: "j < length ns"
    then have ok: "server_ok (length ns) H G j (ns ! j)" using H by (simp add: vote_inv_def)
    show "server_ok (length ns) H G' j (ns[i := s] ! j)"
    proof (cases "j = i")
      case True
      then show ?thesis
        using ok s t i cand fG fin by (auto simp: server_ok_def G'_def)
    next
      case False
      then show ?thesis using ok j by (simp add: server_ok_def G'_def)
    qed
  next
    fix j assume "j < length ns" and "srole (ns[i := s] ! j) = Leader"
    then show "E (current_term (ns[i := s] ! j)) = Some j"
      using H s t i by (auto simp: vote_inv_def nth_list_update split: if_splits)
  next
    fix u c assume "E u = Some c"
    then have "winner_ok G ns u c" using H by (simp add: vote_inv_def)
    then show "winner_ok G' (ns[i := s]) u c"
      using s t cand fG fin i by (auto simp: winner_ok_def nth_list_update G'_def)
  next
    fix e assume "e \<in># M"
    then have "msg_ok (length ns) H ns e" using H by (simp add: vote_inv_def)
    then show "msg_ok (length ns) H (ns[i := s]) e"
      by (rule msg_ok_mono) (simp_all add: term_eq)
  next
    fix d u assume "d < length ns"
    then have "G d u \<subseteq> {p. p < length ns \<and> H p u = Some d}" using H by (simp add: vote_inv_def)
    then show "G' d u \<subseteq> {p. p < length ns \<and> H p u = Some d}"
      using fi by (auto simp: G'_def)
  next
    fix p d u assume pd: "p < length ns" "d < length ns" "p \<noteq> d"
    show "rv_count p d u M + grant_count p d u M + (if p \<in> G' d u then 1 else 0) \<le> 1"
      using cnt [OF pd, of u]
      by (auto simp: rv_count_def grant_count_def G'_def split: if_splits)
  qed
  then show ?thesis by (auto simp: voting_def)
qed

text \<open>Taking the leadership: the first and only winner of the term.\<close>

lemma quorums_meet:
  assumes "A \<subseteq> {p. p < n \<and> h p = Some i}" and "B \<subseteq> {p. p < n \<and> h p = Some j}"
    and "n div 2 + 1 \<le> card A" and "n div 2 + 1 \<le> card B"
  shows "i = j"
proof (rule ccontr)
  assume "i \<noteq> j"
  have "A \<inter> B = {}"
  proof (rule equals0I)
    fix p assume "p \<in> A \<inter> B"
    then have "h p = Some i" "h p = Some j" using assms(1,2) by auto
    with \<open>i \<noteq> j\<close> show False by simp
  qed
  moreover have sub: "A \<subseteq> {..<n}" "B \<subseteq> {..<n}" using assms(1,2) by auto
  moreover have "finite A" "finite B" using sub finite_subset by blast+
  ultimately have "card A + card B = card (A \<union> B)" by (simp add: card_Un_disjoint)
  also have "\<dots> \<le> card {..<n}" by (rule card_mono) (use sub in auto)
  finally show False using assms(3,4) by simp
qed

lemma voting_win:
  assumes v: "voting E ns M" and i: "i < length ns" and cand: "srole (ns ! i) = Candidate"
    and q: "length ns div 2 + 1 \<le> votes_received (ns ! i)"
    and s: "self_id s = i" "cluster_size s = cluster_size (ns ! i)"
      "current_term s = current_term (ns ! i)" "voted_for s = voted_for (ns ! i)"
      "votes_received s = votes_received (ns ! i)" "srole s = Leader"
  shows "E (current_term s) = None" and "voting (E(current_term s \<mapsto> i)) (ns[i := s]) M"
proof -
  let ?t = "current_term s"
  obtain H G where H: "vote_inv H G E ns M" using v by (auto simp: voting_def)
  have ok: "server_ok (length ns) H G i (ns ! i)" using H i by (simp add: vote_inv_def)
  then have card: "length ns div 2 + 1 \<le> card (G i ?t)"
    using q cand s by (simp add: server_ok_def)
  have sub: "G c ?t \<subseteq> {p. p < length ns \<and> H p ?t = Some c}" if "c < length ns" for c
    using H that by (simp add: vote_inv_def)
  show fresh: "E ?t = None"
  proof (rule ccontr)
    assume "E ?t \<noteq> None"
    then obtain c where "E ?t = Some c" by auto
    then have w: "winner_ok G ns ?t c" using H by (simp add: vote_inv_def)
    then have "c = i"
      using quorums_meet [OF sub [of c] sub [OF i]] card by (simp add: winner_ok_def)
    with w s cand show False by (simp add: winner_ok_def)
  qed
  have term_eq: "current_term (ns[i := s] ! j) = current_term (ns ! j)" for j
    using s i by (cases "j = i") simp_all
  have "vote_inv H G (E(?t \<mapsto> i)) (ns[i := s]) M"
    unfolding vote_inv_def length_list_update
  proof (intro conjI allI impI ballI)
    fix j assume "j < length ns"
    then have "server_ok (length ns) H G j (ns ! j)" using H by (simp add: vote_inv_def)
    then show "server_ok (length ns) H G j (ns[i := s] ! j)"
      using s cand i by (cases "j = i") (simp_all add: server_ok_def)
  next
    fix j assume j: "j < length ns" "srole (ns[i := s] ! j) = Leader"
    show "(E(?t \<mapsto> i)) (current_term (ns[i := s] ! j)) = Some j"
    proof (cases "j = i")
      case True
      then show ?thesis using i by simp
    next
      case False
      then have "E (current_term (ns ! j)) = Some j" using H j by (simp add: vote_inv_def)
      then show ?thesis using fresh False by auto
    qed
  next
    fix u c assume u: "(E(?t \<mapsto> i)) u = Some c"
    show "winner_ok G (ns[i := s]) u c"
    proof (cases "u = ?t")
      case True
      then show ?thesis using u card s i by (simp add: winner_ok_def)
    next
      case False
      then have "winner_ok G ns u c" using H u by (simp add: vote_inv_def)
      then show ?thesis using s i by (auto simp: winner_ok_def nth_list_update)
    qed
  next
    fix e assume "e \<in># M"
    then have "msg_ok (length ns) H ns e" using H by (simp add: vote_inv_def)
    then show "msg_ok (length ns) H (ns[i := s]) e"
      by (rule msg_ok_mono) (simp_all add: term_eq)
  next
    fix c u assume "c < length ns"
    then show "G c u \<subseteq> {p. p < length ns \<and> H p u = Some c}"
      using H by (simp add: vote_inv_def)
  next
    fix p c u assume "p < length ns" "c < length ns" "p \<noteq> c"
    then show "rv_count p c u M + grant_count p c u M + (if p \<in> G c u then 1 else 0) \<le> 1"
      using H by (simp add: vote_inv_def)
  qed
  then show "voting (E(?t \<mapsto> i)) (ns[i := s]) M" by (auto simp: voting_def)
qed

section \<open>The operations of a server\<close>


text \<open>What a move of server \<open>i\<close> to \<open>s\<close> owes: the winners are updated, and a win is the first one.\<close>

definition moved ::
    "(nat \<Rightarrow> nat option) \<Rightarrow> server list \<Rightarrow> nat \<Rightarrow> server \<Rightarrow> envelope multiset \<Rightarrow> bool" where
  "moved E ns i s M \<longleftrightarrow>
     voting (crown i (ns ! i) s E) (ns[i := s]) M \<and>
     (srole (ns ! i) \<noteq> Leader \<and> srole s = Leader \<longrightarrow> E (current_term s) = None)"

lemma movedI:
  "voting E (ns[i := s]) M \<Longrightarrow> (srole s = Leader \<Longrightarrow> srole (ns ! i) = Leader) \<Longrightarrow> moved E ns i s M"
  by (auto simp: moved_def crown_def)

lemma moved_win:
  assumes "voting E (ns[i := s1]) M" and "i < length ns" and "srole (ns ! i) \<noteq> Leader"
    and "srole s1 = Candidate" and "length ns div 2 + 1 \<le> votes_received s1"
    and "self_id s = i" "cluster_size s = cluster_size s1" "current_term s = current_term s1"
      "voted_for s = voted_for s1" "votes_received s = votes_received s1" "srole s = Leader"
  shows "moved E ns i s M"
  using voting_win [OF assms(1), of i s] assms by (simp add: moved_def crown_def)

lemma voting_self:
  assumes "voting E ns M" and "i < length ns"
  shows "self_id (ns ! i) = i" and "cluster_size (ns ! i) = length ns"
  using assms by (auto simp: voting_def vote_inv_def server_ok_def)

lemma voting_drop: "voting E ns (add_mset e M) \<Longrightarrow> voting E ns M"
  by (erule voting_subset) simp

lemma voting_become_follower:
  assumes "voting E ns M" and "i < length ns"
  shows "voting E (ns[i := become_follower t (ns ! i)]) M"
  using assms voting_bump [OF assms, of t "become_follower t (ns ! i)"]
  by (simp add: become_follower_def)

lemma become_follower_Leader:
  "srole (become_follower t s) = Leader \<Longrightarrow> srole s = Leader"
  by (simp add: become_follower_def split: if_splits)

lemma set_other_ids [simp]: "set (other_ids n i) = {..<n} - {i}"
  by (auto simp: other_ids_def)

lemma distinct_other_ids [simp]: "distinct (other_ids n i)"
  by (simp add: other_ids_def)

lemma quiet_append_round:
  assumes "self_id s < cluster_size s" and "i < cluster_size s"
  shows "\<forall>e\<in>#tagged i (append_round s). quiet (cluster_size s) e"
  using assms by (auto simp: tagged_def append_round_def quiet_def build_append_for_def Let_def)

lemma install_leader_simps [simp]:
  "self_id (install_leader s) = self_id s" "cluster_size (install_leader s) = cluster_size s"
  "current_term (install_leader s) = current_term s" "voted_for (install_leader s) = voted_for s"
  "votes_received (install_leader s) = votes_received s" "srole (install_leader s) = Leader"
  "slog (install_leader s) = slog s" "commit_index (install_leader s) = commit_index s"
  by (simp_all add: install_leader_def Let_def)

text \<open>The candidate that \<open>start_election\<close> builds before it counts its own vote.\<close>

definition candidate_of :: "server \<Rightarrow> server" where
  "candidate_of s =
     (let (r, s2) = next_rand (s\<lparr>srole := Candidate, current_term := current_term s + 1,
                 voted_for := Some (self_id s), votes_received := 1\<rparr>)
      in s2\<lparr>election_timeout := 150 + r mod 75, election_timeout_in := 150 + r mod 75\<rparr>)"

lemma candidate_of_simps [simp]:
  "self_id (candidate_of s) = self_id s" "cluster_size (candidate_of s) = cluster_size s"
  "current_term (candidate_of s) = current_term s + 1"
  "voted_for (candidate_of s) = Some (self_id s)" "votes_received (candidate_of s) = 1"
  "srole (candidate_of s) = Candidate" "slog (candidate_of s) = slog s"
  "commit_index (candidate_of s) = commit_index s" "next_index (candidate_of s) = next_index s"
  by (simp_all add: candidate_of_def next_rand_def Let_def)

lemma start_election_alt:
  "start_election s =
     (if cluster_size s div 2 + 1 \<le> 1 then install_leader (candidate_of s) else candidate_of s,
      map (\<lambda>p. (p, RequestVote (current_term s + 1) (self_id s) (last_log_index s)
                 (last_log_term s))) (other_ids (cluster_size s) (self_id s)))"
  by (simp add: start_election_def candidate_of_def next_rand_def Let_def quorum_def
      last_log_index_def last_log_term_def)

lemma moved_server_tick:
  assumes v: "voting E ns M" and i: "i < length ns" and t: "server_tick el (ns ! i) = (s, acts)"
  shows "moved E ns i s (M + tagged i acts)"
proof -
  note self = voting_self [OF v i]
  show ?thesis
  proof (cases "srole (ns ! i) = Leader")
    case True
    have "\<forall>e\<in>#tagged i (append_round ((ns ! i)\<lparr>heartbeat_due_in := 50\<rparr>)). quiet (length ns) e"
      using quiet_append_round [of "(ns ! i)\<lparr>heartbeat_due_in := 50\<rparr>" i] self i by simp
    then show ?thesis
      using t True by (intro movedI voting_silent [OF v i])
        (auto simp: server_tick_def Let_def split: if_splits)
  next
    case False
    let ?s = "(ns ! i)\<lparr>election_timeout_in := sat_sub (election_timeout_in (ns ! i)) el\<rparr>"
    show ?thesis
    proof (cases "election_timeout_in ?s = 0")
      case True
      let ?c = "candidate_of ?s"
      have e: "start_election ?s = (s, acts)"
        using t False True by (simp add: server_tick_def)
      have acts: "tagged i acts = requests i (current_term (ns ! i) + 1) (last_log_index ?s)
          (last_log_term ?s) (other_ids (length ns) i)"
        using e self
        by (auto simp: start_election_alt tagged_def requests_def multiset.map_comp comp_def)
      have c: "voting E (ns[i := ?c]) (M + tagged i acts)"
        unfolding acts by (rule voting_election [OF v i refl]) (use self i in simp_all)
      show ?thesis
      proof (cases "cluster_size ?s div 2 + 1 \<le> 1")
        case True
        then have "s = install_leader ?c" using e by (simp add: start_election_alt)
        then show ?thesis using True self by (intro moved_win [OF c i False]) simp_all
      next
        case False
        then have "s = ?c" using e by (auto simp: start_election_alt)
        then show ?thesis using c by (intro movedI) simp_all
      qed
    next
      case no: False
      then have "s = ?s" "acts = []" using t False by (auto simp: server_tick_def)
      then show ?thesis
        using voting_silent [OF v i, of s "{#}"] False by (intro movedI) simp_all
    qed
  qed
qed

lemma voting_request_vote:
  assumes v: "voting E ns (add_mset (f, i, RequestVote t c lli llt) M)" and i: "i < length ns"
    and h: "handle_request_vote (ns ! i) t c lli llt = (s, acts)"
  shows "voting E (ns[i := s]) (M + tagged i acts)"
proof -
  let ?e = "(f, i, RequestVote t c lli llt)" and ?s = "become_follower t (ns ! i)"
  note self = voting_self [OF v i]
  have c: "c < length ns"
    using v by (auto simp: voting_def vote_inv_def msg_ok_def)
  have quiet: "\<forall>e\<in>#{#(i, c, RequestVoteReply u False)#}. quiet (length ns) e" for u
    using i c by (simp add: quiet_def)
  have v1: "voting E (ns[i := ?s]) (add_mset ?e M)"
    by (rule voting_become_follower [OF v i])
  show ?thesis
  proof (cases "t < current_term (ns ! i)")
    case True
    then have "s = ns ! i" "acts = [(c, RequestVoteReply (current_term (ns ! i)) False)]"
      using h by (auto simp: handle_request_vote_def)
    then show ?thesis
      using voting_silent [OF voting_drop [OF v] i, of s "tagged i acts"] quiet by simp
  next
    case False
    then have cur: "current_term ?s = t" "self_id ?s = i" "cluster_size ?s = cluster_size (ns ! i)"
      using self by (auto simp: become_follower_def)
    show ?thesis
    proof (cases "(voted_for ?s = None \<or> voted_for ?s = Some c) \<and> up_to_date ?s lli llt")
      case True
      then have "s = ?s\<lparr>voted_for := Some c, election_timeout_in := election_timeout ?s\<rparr>"
        "acts = [(c, RequestVoteReply t True)]"
        using h \<open>\<not> t < _\<close> cur by (simp_all add: handle_request_vote_def Let_def)
      then show ?thesis
        using voting_grant [OF v1, of s] cur i True by simp
    next
      case no: False
      then have "s = ?s" "acts = [(c, RequestVoteReply t False)]"
        using h False cur by (auto simp add: handle_request_vote_def Let_def)
      then show ?thesis
        using voting_silent [OF voting_drop [OF v1], of i ?s "tagged i acts"] quiet i by simp
    qed
  qed
qed

lemma moved_request_vote_reply:
  assumes v: "voting E ns (add_mset (f, i, RequestVoteReply t g) M)" and i: "i < length ns"
    and h: "handle_request_vote_reply (ns ! i) t g = (s, acts)"
  shows "moved E ns i s (M + tagged i acts)"
proof -
  let ?s = "(ns ! i)\<lparr>votes_received := votes_received (ns ! i) + 1\<rparr>"
  note self = voting_self [OF v i]
  have round: "\<forall>e\<in>#tagged i (append_round (install_leader ?s)). quiet (length ns) e"
    using quiet_append_round [of "install_leader ?s" i] self i by simp
  show ?thesis
  proof (cases "srole (ns ! i) = Candidate \<and> t = current_term (ns ! i) \<and> g")
    case False
    then consider "s = become_follower t (ns ! i)" "acts = []" | "s = ns ! i" "acts = []"
      using h by (fastforce simp: handle_request_vote_reply_def split: if_split_asm)
    then show ?thesis
      using voting_become_follower [OF voting_drop [OF v] i] voting_drop [OF v]
      by cases (auto intro: movedI become_follower_Leader)
  next
    case True
    then have c: "voting E (ns[i := ?s]) M"
      using v i self by (intro voting_count [of E ns f i t M]) simp_all
    show ?thesis
    proof (cases "quorum ?s \<le> votes_received ?s")
      case False
      then have "s = ?s" "acts = []"
        using h True by (simp_all add: handle_request_vote_reply_def)
      then show ?thesis using c True by (intro movedI) simp_all
    next
      case quorum: True
      then have s: "s = install_leader ?s" "acts = append_round s"
        using h True by (auto simp add: handle_request_vote_reply_def Let_def)
      have sent: "voting E (ns[i := ?s]) (M + tagged i acts)"
        using voting_silent [OF c, of i ?s "tagged i acts"] round i s by simp
      show ?thesis
        by (rule moved_win [OF sent i]) (use True quorum s self in \<open>simp_all add: quorum_def\<close>)
    qed
  qed
qed

lemma advance_commit_simps [simp]:
  "self_id (advance_commit s) = self_id s" "cluster_size (advance_commit s) = cluster_size s"
  "current_term (advance_commit s) = current_term s" "voted_for (advance_commit s) = voted_for s"
  "votes_received (advance_commit s) = votes_received s" "srole (advance_commit s) = srole s"
  "slog (advance_commit s) = slog s" "next_index (advance_commit s) = next_index s"
  "match_index (advance_commit s) = match_index s"
  by (simp_all add: advance_commit_def)

lemma voting_append_entries:
  assumes v: "voting E ns (add_mset (f, i, AppendEntries t l pidx pterm es lc) M)"
    and i: "i < length ns"
    and h: "handle_append_entries (ns ! i) t l pidx pterm es lc = (s, acts)"
  shows "voting E (ns[i := s]) (M + tagged i acts)"
proof -
  let ?s = "become_follower t (ns ! i)"
  have l: "l < length ns"
    using v by (auto simp: voting_def vote_inv_def msg_ok_def)
  have v1: "voting E (ns[i := ?s]) M"
    by (rule voting_become_follower [OF voting_drop [OF v] i])
  obtain ok mi u where acts: "acts = [(l, AppendEntriesReply u ok mi)]"
    using h by (auto simp: handle_append_entries_def Let_def split: if_splits)
  have quiet: "\<forall>e\<in>#tagged i acts. quiet (length ns) e"
    using i l by (simp add: acts quiet_def)
  show ?thesis
  proof (cases "t < current_term (ns ! i)")
    case True
    then show ?thesis
      using h voting_silent [OF voting_drop [OF v] i, of s] quiet
      by (auto simp: handle_append_entries_def Let_def)
  next
    case False
    have "self_id s = self_id ?s" "cluster_size s = cluster_size ?s"
      "current_term s = current_term ?s" "voted_for s = voted_for ?s"
      "srole s = srole ?s \<and> votes_received s = votes_received ?s
         \<or> srole s = Follower \<and> srole ?s \<noteq> Leader"
      using h False by (auto simp: handle_append_entries_def Let_def split: if_splits)
    then show ?thesis
      using voting_silent [OF v1, of i s "tagged i acts"] quiet i by simp
  qed
qed

lemma voting_append_entries_reply:
  assumes v: "voting E ns (add_mset (f, i, AppendEntriesReply t ok mi) M)" and i: "i < length ns"
    and h: "handle_append_entries_reply (ns ! i) f t ok mi = (s, acts)"
  shows "voting E (ns[i := s]) (M + tagged i acts)"
proof -
  note v' = voting_drop [OF v] and self = voting_self [OF v i]
  have f: "f < length ns"
    using v by (auto simp: voting_def vote_inv_def msg_ok_def)
  have quiet: "\<forall>e\<in>#tagged i [(f, build_append_for x f)]. quiet (length ns) e"
    if "self_id x = i" for x
    using i f that by (simp add: quiet_def build_append_for_def Let_def)
  show ?thesis
  proof (cases "s = become_follower t (ns ! i) \<and> acts = []")
    case True
    then show ?thesis using voting_become_follower [OF v' i] by simp
  next
    case False
    then show ?thesis
      using h quiet self
      by (intro voting_silent [OF v' i])
        (auto simp: handle_append_entries_reply_def Let_def split: if_splits)
  qed
qed

lemma handle_keeps_out:
  assumes "handle f m s = (s', acts)" and "srole s' = Leader" and "\<And>t g. m \<noteq> RequestVoteReply t g"
  shows "srole s = Leader"
  using assms
  by (cases m) (auto simp: handle_request_vote_def handle_append_entries_def
      handle_append_entries_reply_def Let_def dest: become_follower_Leader split: if_splits)

lemma moved_handle:
  assumes "voting E ns (add_mset (f, i, m) M)" and "i < length ns"
    and h: "handle f m (ns ! i) = (s, acts)"
  shows "moved E ns i s (M + tagged i acts)"
proof (cases "\<exists>t g. m = RequestVoteReply t g")
  case True
  then show ?thesis using assms by (auto intro: moved_request_vote_reply)
next
  case False
  have "voting E (ns[i := s]) (M + tagged i acts)"
    using assms False
    by (cases m) (auto intro: voting_request_vote voting_append_entries voting_append_entries_reply)
  then show ?thesis
    by (rule movedI) (use handle_keeps_out [OF h] False in blast)
qed

lemma append_local_simps [simp]:
  "self_id (append_local cmd s) = self_id s" "cluster_size (append_local cmd s) = cluster_size s"
  "current_term (append_local cmd s) = current_term s" "voted_for (append_local cmd s) = voted_for s"
  "votes_received (append_local cmd s) = votes_received s" "srole (append_local cmd s) = srole s"
  by (simp_all add: append_local_def)

lemma voting_append_local:
  assumes "voting E ns M" and "i < length ns"
  shows "voting E (ns[i := (append_local cmd (ns ! i))\<lparr>heartbeat_due_in := 0\<rparr>]) M"
  using voting_silent [OF assms, of "(append_local cmd (ns ! i))\<lparr>heartbeat_due_in := 0\<rparr>" "{#}"]
  by simp

lemma voting_addressed: "voting E ns (add_mset (f, i, m) M) \<Longrightarrow> i < length ns"
  by (auto simp: voting_def vote_inv_def msg_ok_def)

lemma voting_new: "voting (\<lambda>t. None) (map (\<lambda>i. server_new i sz) [0..<sz]) {#}"
proof -
  have "vote_inv (\<lambda>p t. None) (\<lambda>c t. {}) (\<lambda>t. None) (map (\<lambda>i. server_new i sz) [0..<sz]) {#}"
    by (simp add: vote_inv_def server_ok_def server_new_def)
  then show ?thesis by (auto simp: voting_def)
qed

section \<open>The network\<close>

interpretation votes: switched "\<lambda>ns M. \<exists>E. voting E ns M"
proof
  show "\<exists>E. voting E ns M \<Longrightarrow> M' \<subseteq># M \<Longrightarrow> \<exists>E. voting E ns M'" for ns M M'
    by (blast intro: voting_subset)
  show "\<exists>E. voting E ns M \<Longrightarrow> i < length ns \<Longrightarrow> server_tick el (ns ! i) = (s, acts) \<Longrightarrow>
      \<exists>E. voting E (ns[i := s]) (M + tagged i acts)" for ns M i el s acts
    using moved_server_tick moved_def by blast
  show "\<exists>E. voting E ns (add_mset (f, i, m) M) \<Longrightarrow> i < length ns" for ns f i m M
    using voting_addressed by blast
  show "\<exists>E. voting E ns (add_mset (f, i, m) M) \<Longrightarrow> i < length ns \<Longrightarrow>
      handle f m (ns ! i) = (s, acts) \<Longrightarrow> \<exists>E. voting E (ns[i := s]) (M + tagged i acts)"
    for ns f i m M s acts
    using moved_handle moved_def by blast
  show "\<exists>E. voting E ns M \<Longrightarrow> i < length ns \<Longrightarrow> srole (ns ! i) = Leader \<Longrightarrow>
      \<exists>E. voting E (ns[i := (append_local cmd (ns ! i))\<lparr>heartbeat_due_in := 0\<rparr>]) M" for ns M i cmd
    using voting_append_local by blast
  show "\<exists>E. voting E (map (\<lambda>i. server_new i sz) [0..<sz]) {#}" for sz
    using voting_new by blast
qed

lemma leaders_of_term:
  assumes "voting E ns M"
  shows "length (filter (\<lambda>s. srole s = Leader \<and> current_term s = t) ns) \<le> 1"
proof -
  have "card {i. i < length ns \<and> srole (ns ! i) = Leader \<and> current_term (ns ! i) = t}
      \<le> card (set_option (E t))"
    by (rule card_mono) (use assms in \<open>auto simp: voting_def vote_inv_def\<close>)
  also have "\<dots> \<le> 1" by (cases "E t") simp_all
  finally show ?thesis by (simp add: length_filter_conv_card)
qed

lemma reached_start:
  "net_op\<^sup>*\<^sup>* (network_new sz seed) net \<Longrightarrow> \<exists>E. voting E (nodes net) (mset (inbox net))"
  by (rule votes.reachable_inv) (auto simp: network_start_def)

text \<open>
  C1. Election safety: whatever the sequence of ticks, deliveries, proposals and partitions, and
  whichever messages the partitions lose, no term ever has more than one leader in the cluster.
\<close>

theorem election_safety:
  assumes "net_op\<^sup>*\<^sup>* (network_new sz seed) net"
  shows "length (filter (\<lambda>s. srole s = Leader \<and> current_term s = t) (nodes net)) \<le> 1"
  using reached_start [OF assms] leaders_of_term by blast

theorem election_safety_witness:
  "\<exists>net. net_op\<^sup>*\<^sup>* (network_new 3 42) net \<and> leader_id net = Some 0 \<and>
     length (filter (\<lambda>s. srole s = Leader \<and> current_term s = 1) (nodes net)) \<le> 1"
proof -
  obtain net where run: "exec_cmds [Tick 150, Deliver, Deliver] (network_new 3 42) = Inr net"
    and leader: "leader_id net = Some 0"
    by (simp add: raft_run leader_id_def leader_of_def)
  from election_safety [OF exec_cmds_net_op [OF run]] exec_cmds_net_op [OF run] leader
  show ?thesis by blast
qed

text \<open>
  The switch never panics: on every reachable network a delivery round and
  \<^verbatim>\<open>run_until_quiet\<close> return, for every bound on the rounds.
\<close>

theorem delivery_never_panics:
  assumes "net_op\<^sup>*\<^sup>* (network_new sz seed) net"
  shows "(\<exists>k net'. net_step net = Inr (k, net')) \<and> (\<exists>net'. run_until_quiet r net = Inr net')"
  using votes.net_step_inv [OF reached_start [OF assms]]
    votes.run_until_quiet_inv [OF reached_start [OF assms]] by blast

theorem delivery_never_panics_witness:
  "(\<exists>k net'. net_step (network_new 5 7) = Inr (k, net')) \<and>
   (\<exists>net'. run_until_quiet 16 (network_new 5 7) = Inr net')"
  by (rule delivery_never_panics [of 5 7]) simp

end
