(* ===== verification/Raft_Log.thy ===== *)
theory Raft_Log
  imports Raft_Election "HOL-Library.Sublist"
begin

text \<open>
  The replicated log of \<^verbatim>\<open>src/crates/lionfs-cluster/src/raft.rs\<close>: the log matching property, the
  monotonicity of terms and commit indices, and two executions that lose the guarantees of the
  protocol.

  Log matching rests on one more history function: \<open>L t\<close> is the log of the leader of term \<open>t\<close> at
  its longest. Every log, and every segment in flight, agrees with \<open>L t\<close> up to each entry of
  term \<open>t\<close> it holds; \<open>L t\<close> is empty until the term has a winner.
\<close>

section \<open>The invariant\<close>

definition numbered :: "log_entry list \<Rightarrow> bool" where
  "numbered l \<longleftrightarrow> (\<forall>k<length l. entry_index (l ! k) = Suc k)"

definition log_ok :: "(nat \<Rightarrow> log_entry list) \<Rightarrow> log_entry list \<Rightarrow> bool" where
  "log_ok L l \<longleftrightarrow>
     numbered l \<and> (\<forall>k<length l. prefix (take (Suc k) l) (L (entry_term (l ! k))))"

definition segment_ok :: "log_entry list \<Rightarrow> nat \<Rightarrow> nat \<Rightarrow> log_entry list \<Rightarrow> bool" where
  "segment_ok l pidx pterm es \<longleftrightarrow>
     (\<exists>q\<le>length l. prefix es (drop q l) \<and>
        (q = 0 \<or> pidx = q \<and> pterm = entry_term (l ! (q - 1))))"

definition append_ok ::
    "(nat \<Rightarrow> nat option) \<Rightarrow> (nat \<Rightarrow> log_entry list) \<Rightarrow> envelope \<Rightarrow> bool" where
  "append_ok E L e =
     (case e of (f, d, m) \<Rightarrow>
        (case m of
           AppendEntries t l pidx pterm es lc \<Rightarrow>
             E t = Some l \<and> l \<noteq> d \<and> segment_ok (L t) pidx pterm es
         | AppendEntriesReply t ok mi \<Rightarrow> f \<noteq> d
         | _ \<Rightarrow> True))"

definition nexts_ok :: "server \<Rightarrow> bool" where
  "nexts_ok s \<longleftrightarrow>
     (\<forall>p v. p \<in> set (other_ids (cluster_size s) (self_id s)) \<longrightarrow>
        map_of (next_index s) p = Some v \<longrightarrow> v \<le> Suc (length (slog s)))"

definition logs_ok ::
    "(nat \<Rightarrow> nat option) \<Rightarrow> (nat \<Rightarrow> log_entry list) \<Rightarrow> server list \<Rightarrow> envelope multiset \<Rightarrow> bool" where
  "logs_ok E L ns M \<longleftrightarrow>
     (\<forall>j<length ns. log_ok L (slog (ns ! j))) \<and>
     (\<forall>t. log_ok L (L t)) \<and>
     (\<forall>t. E t = None \<longrightarrow> L t = []) \<and>
     (\<forall>j<length ns. srole (ns ! j) = Leader \<longrightarrow>
        slog (ns ! j) = L (current_term (ns ! j)) \<and> nexts_ok (ns ! j)) \<and>
     (\<forall>e\<in>#M. append_ok E L e)"

definition logged :: "server list \<Rightarrow> envelope multiset \<Rightarrow> bool" where
  "logged ns M \<longleftrightarrow> (\<exists>E L. voting E ns M \<and> logs_ok E L ns M)"

section \<open>Numbered logs\<close>

lemma numbered_take: "numbered l \<Longrightarrow> numbered (take k l)"
  by (simp add: numbered_def)

lemma numbered_last: "numbered l \<Longrightarrow> last_index_of l = length l"
  by (simp add: numbered_def last_index_of_def last_conv_nth)

lemma numbered_filter:
  assumes "numbered l" and "0 < k"
  shows "filter (\<lambda>e. k \<le> entry_index e) l = drop (k - 1) l"
proof -
  have "filter (\<lambda>e. k \<le> entry_index e) (take (k - 1) l) = []"
    using assms by (auto simp: numbered_def filter_empty_conv in_set_conv_nth)
  moreover have "filter (\<lambda>e. k \<le> entry_index e) (drop (k - 1) l) = drop (k - 1) l"
    using assms by (auto simp: numbered_def filter_id_conv in_set_conv_nth)
  ultimately show ?thesis
    by (metis append_Nil append_take_drop_id filter_append)
qed

lemma numbered_position:
  assumes "numbered l" and "0 < i"
  shows "position (\<lambda>x. entry_index x = i) l = (if i \<le> length l then Some (i - 1) else None)"
proof (cases "position (\<lambda>x. entry_index x = i) l")
  case None
  then have "\<forall>x\<in>set l. entry_index x \<noteq> i" by (simp add: position_None_iff)
  moreover have "i \<le> length l \<Longrightarrow> entry_index (l ! (i - 1)) = i"
    using assms by (simp add: numbered_def)
  ultimately have "\<not> i \<le> length l"
    using assms(2) by (metis One_nat_def Suc_pred less_eq_Suc_le nth_mem)
  with None show ?thesis by simp
next
  case (Some k)
  then have "k < length l" "entry_index (l ! k) = i"
    using position_SomeD by fastforce+
  with assms Some show ?thesis by (auto simp: numbered_def)
qed

lemma numbered_find:
  assumes "numbered l" and "0 < i"
  shows "find_index i l = (if i \<le> length l then Some (l ! (i - 1)) else None)"
proof (cases "i \<le> length l")
  case True
  have "find_index i l = Some (l ! (i - 1))"
    unfolding find_index_def find_Some_iff
    by (rule exI [of _ "i - 1"]) (use assms True in \<open>auto simp: numbered_def\<close>)
  with True show ?thesis by simp
next
  case False
  have "find_index i l = None"
    unfolding find_index_def find_None_iff
    using assms False by (auto simp: numbered_def in_set_conv_nth)
  with False show ?thesis by simp
qed

section \<open>Logs that agree with the leaders' logs\<close>

lemma prefix_takeD: "prefix (take k l) l' \<Longrightarrow> k \<le> length l \<Longrightarrow> take k l' = take k l"
  by (auto simp: prefix_def)

lemma log_ok_Nil [simp]: "log_ok L []"
  by (simp add: log_ok_def numbered_def)

lemma log_ok_take: "log_ok L l \<Longrightarrow> log_ok L (take k l)"
  by (auto simp: log_ok_def numbered_take min_def)

lemma log_ok_prefix: "log_ok L l \<Longrightarrow> prefix l' l \<Longrightarrow> log_ok L l'"
  by (metis append_eq_conv_conj log_ok_take prefix_def)

lemma log_ok_same_term:
  assumes "log_ok L l" "log_ok L l'" "k < length l" "k < length l'"
    and "entry_term (l ! k) = entry_term (l' ! k)"
  shows "take (Suc k) l = take (Suc k) l'"
proof -
  let ?u = "L (entry_term (l ! k))"
  have "prefix (take (Suc k) l) ?u" using assms(1,3) by (simp add: log_ok_def)
  moreover have "prefix (take (Suc k) l') ?u" using assms(2,4,5) by (simp add: log_ok_def)
  ultimately show ?thesis
    using prefix_takeD [of "Suc k" l ?u] prefix_takeD [of "Suc k" l' ?u] assms(3,4)
    by (simp add: Suc_le_eq)
qed

lemma log_ok_mono:
  assumes "log_ok L l" and "\<And>t. prefix (L t) (L' t)"
  shows "log_ok L' l"
  using assms prefix_order.trans by (fastforce simp: log_ok_def)

lemma segment_ok_mono:
  assumes "segment_ok l pidx pterm es" and "prefix l l'"
  shows "segment_ok l' pidx pterm es"
proof -
  obtain r where l': "l' = l @ r" using assms(2) by (auto simp: prefix_def)
  obtain q where "q \<le> length l" "prefix es (drop q l)"
    "q = 0 \<or> pidx = q \<and> pterm = entry_term (l ! (q - 1))"
    using assms(1) by (auto simp: segment_ok_def)
  then show ?thesis
    unfolding segment_ok_def l' by (intro exI [of _ q]) (auto simp: nth_append prefix_prefix)
qed

lemma append_one_follows:
  assumes l: "log_ok L l" and c: "log_ok L c" and k: "k < length c" and eq: "take k l = take k c"
  shows "log_ok L (append_one (c ! k) l) \<and>
    take (Suc k) (append_one (c ! k) l) = take (Suc k) c"
proof -
  have idx: "entry_index (c ! k) = Suc k" using c k by (simp add: log_ok_def numbered_def)
  have num: "numbered l" using l by (simp add: log_ok_def)
  have len: "k \<le> length l"
    using eq k by (metis length_take min.absorb2 min.cobounded1 min_def nat_less_le)
  show ?thesis
  proof (cases "k < length l")
    case True
    then have pos: "position (\<lambda>x. entry_index x = Suc k) l = Some k"
      by (simp add: numbered_position [OF num])
    show ?thesis
    proof (cases "entry_term (l ! k) = entry_term (c ! k)")
      case same: True
      then show ?thesis
        using log_ok_same_term [OF l c True k] l by (simp add: append_one_def idx pos)
    next
      case False
      then have "append_one (c ! k) l = take (Suc k) c"
        using eq k by (simp add: append_one_def idx pos take_Suc_conv_app_nth)
      then show ?thesis using log_ok_take [OF c] by simp
    qed
  next
    case False
    then have "l = take k c" using eq len by simp
    moreover have "position (\<lambda>x. entry_index x = Suc k) l = None"
      using False by (simp add: numbered_position [OF num])
    then have "append_one (c ! k) l = l @ [c ! k]"
      using False len idx by (simp add: append_one_def numbered_last [OF num])
    ultimately have "append_one (c ! k) l = take (Suc k) c"
      using k by (simp add: take_Suc_conv_app_nth)
    then show ?thesis using log_ok_take [OF c] by simp
  qed
qed

lemma append_all_follows:
  assumes "log_ok L l" and "log_ok L c" and "take q l = take q c" and "q + length es \<le> length c"
    and "prefix es (drop q c)"
  shows "log_ok L (fold append_one es l) \<and>
    take (q + length es) (fold append_one es l) = take (q + length es) c"
  using assms
proof (induction es arbitrary: l q)
  case Nil
  then show ?case by simp
next
  case (Cons e es)
  then have q: "q < length c" by simp
  then have "drop q c = c ! q # drop (Suc q) c" by (simp add: Cons_nth_drop_Suc)
  then have e: "e = c ! q" and es: "prefix es (drop (Suc q) c)" using Cons.prems(5) by simp_all
  have "log_ok L (append_one e l)" "take (Suc q) (append_one e l) = take (Suc q) c"
    using append_one_follows [OF Cons.prems(1,2) q Cons.prems(3)] by (simp_all add: e)
  from Cons.IH [OF this(1) Cons.prems(2) this(2) _ es] Cons.prems(4) show ?case by simp
qed

lemma consistent_append:
  assumes l: "log_ok L l" and c: "log_ok L c" and seg: "segment_ok c pidx pterm es"
    and prev: "consistent_prev l pidx pterm"
  shows "log_ok L (fold append_one es l)"
proof -
  obtain q where q: "q \<le> length c" "prefix es (drop q c)"
    "q = 0 \<or> pidx = q \<and> pterm = entry_term (c ! (q - 1))"
    using seg by (auto simp: segment_ok_def)
  have num: "numbered l" using l by (simp add: log_ok_def)
  have "take q l = take q c"
  proof (cases q)
    case 0
    then show ?thesis by simp
  next
    case (Suc k)
    then have "k < length l" "entry_term (l ! k) = entry_term (c ! k)"
      using prev q(3) by (auto simp: consistent_prev_def numbered_find [OF num] split: if_splits)
    then show ?thesis using log_ok_same_term [OF l c] q(1) Suc by simp
  qed
  moreover have "q + length es \<le> length c"
    using prefix_length_le [OF q(2)] q(1) by simp
  ultimately show ?thesis
    using append_all_follows [OF l c _ _ q(2)] by simp
qed

section \<open>Moves on the logs\<close>

text \<open>A server whose log is an accepted one, and that is not a new leader.\<close>

lemma logs_update:
  assumes lo: "logs_ok E L ns M" and "log_ok L (slog s)"
    and "srole s = Leader \<Longrightarrow> slog s = L (current_term s) \<and> nexts_ok s"
    and "\<forall>e\<in>#N. append_ok E L e"
  shows "logs_ok E L (ns[i := s]) (M + N)"
  unfolding logs_ok_def length_list_update
proof (intro conjI allI impI ballI)
  fix j assume j: "j < length ns"
  show "log_ok L (slog (ns[i := s] ! j))"
    using lo assms(2) j by (cases "j = i") (simp_all add: logs_ok_def)
  assume "srole (ns[i := s] ! j) = Leader"
  then have "slog (ns[i := s] ! j) = L (current_term (ns[i := s] ! j)) \<and> nexts_ok (ns[i := s] ! j)"
    using lo assms(3) j by (cases "j = i") (simp_all add: logs_ok_def)
  then show "slog (ns[i := s] ! j) = L (current_term (ns[i := s] ! j))" "nexts_ok (ns[i := s] ! j)"
    by simp_all
qed (use lo assms(4) in \<open>auto simp: logs_ok_def\<close>)

lemma logs_subset: "logs_ok E L ns M \<Longrightarrow> M' \<subseteq># M \<Longrightarrow> logs_ok E L ns M'"
  by (simp add: logs_ok_def mset_subset_eqD)

lemma voting_leader:
  "voting E ns M \<Longrightarrow> j < length ns \<Longrightarrow> srole (ns ! j) = Leader \<Longrightarrow> E (current_term (ns ! j)) = Some j"
  by (auto simp: voting_def vote_inv_def)

text \<open>A new winner: its log becomes the log of the term.\<close>

lemma logs_win:
  assumes lo: "logs_ok E L ns M" and v: "voting E ns M'" and fresh: "E t = None"
    and l: "log_ok L l"
  shows "logs_ok (E(t \<mapsto> i)) (L(t := l)) ns M"
proof -
  let ?L = "L(t := l)" and ?E = "E(t \<mapsto> i)"
  have Lt: "L t = []" using lo fresh by (simp add: logs_ok_def)
  then have mono: "log_ok ?L x" if "log_ok L x" for x
    using log_ok_mono [OF that] by simp
  show ?thesis
    unfolding logs_ok_def
  proof (intro conjI allI impI ballI)
    fix j assume j: "j < length ns"
    then show "log_ok ?L (slog (ns ! j))" using lo mono by (simp add: logs_ok_def)
    assume lead: "srole (ns ! j) = Leader"
    have "current_term (ns ! j) \<noteq> t" using voting_leader [OF v j lead] fresh by auto
    then show "slog (ns ! j) = ?L (current_term (ns ! j))" "nexts_ok (ns ! j)"
      using lo lead j by (simp_all add: logs_ok_def)
  next
    fix u
    show "log_ok ?L (?L u)" using lo mono l by (simp add: logs_ok_def)
    assume "?E u = None"
    then show "?L u = []" using lo by (simp add: logs_ok_def split: if_splits)
  next
    fix e assume "e \<in># M"
    then have "append_ok E L e" using lo by (simp add: logs_ok_def)
    then show "append_ok ?E ?L e"
      using fresh by (auto simp: append_ok_def split: raft_message.splits)
  qed
qed

text \<open>The leader of a term extends its own log.\<close>

lemma logs_extend:
  assumes lo: "logs_ok E L ns M" and v: "voting E ns M'" and i: "i < length ns"
    and lead: "srole (ns ! i) = Leader"
    and s: "slog s = slog (ns ! i) @ [e]" "current_term s = current_term (ns ! i)"
      "self_id s = self_id (ns ! i)" "cluster_size s = cluster_size (ns ! i)"
      "next_index s = next_index (ns ! i)"
    and e: "entry_term e = current_term (ns ! i)" "entry_index e = Suc (length (slog (ns ! i)))"
  shows "logs_ok E (L(current_term s := slog s)) (ns[i := s]) M"
proof -
  let ?t = "current_term s" and ?L = "L(current_term s := slog s)"
  have own: "slog (ns ! i) = L ?t" "nexts_ok (ns ! i)" "log_ok L (slog (ns ! i))"
    using lo i lead s(2) by (simp_all add: logs_ok_def)
  have Et: "E ?t = Some i" using voting_leader [OF v i lead] s(2) by simp
  have pre: "prefix (L u) (?L u)" for u using own s(1) by (simp add: prefix_def)
  then have mono: "log_ok ?L x" if "log_ok L x" for x by (rule log_ok_mono [OF that])
  have new: "log_ok ?L (slog s)"
    using mono [OF own(3)] e s by (auto simp: log_ok_def numbered_def nth_append less_Suc_eq)
  have nexts: "nexts_ok s" using own(2) s by (fastforce simp: nexts_ok_def)
  show ?thesis
    unfolding logs_ok_def length_list_update
  proof (intro conjI allI impI ballI)
    fix j assume j: "j < length ns"
    then show "log_ok ?L (slog (ns[i := s] ! j))"
      using lo mono new by (cases "j = i") (simp_all add: logs_ok_def)
    assume lead': "srole (ns[i := s] ! j) = Leader"
    have "j = i \<or> current_term (ns ! j) \<noteq> ?t"
      using voting_leader [OF v j] lead' Et by (cases "j = i") auto
    then show "slog (ns[i := s] ! j) = ?L (current_term (ns[i := s] ! j))"
      and "nexts_ok (ns[i := s] ! j)"
      using lo lead' j nexts i by (cases "j = i"; simp add: logs_ok_def)+
  next
    fix u
    show "log_ok ?L (?L u)" using lo mono new by (simp add: logs_ok_def)
    assume "E u = None"
    then show "?L u = []" using lo Et by (auto simp: logs_ok_def)
  next
    fix x assume "x \<in># M"
    then have "append_ok E L x" using lo by (simp add: logs_ok_def)
    then show "append_ok E ?L x"
      using segment_ok_mono [OF _ pre]
      by (auto simp: append_ok_def simp del: fun_upd_apply split: raft_message.splits)
  qed
qed

section \<open>The operations of a server\<close>

lemma map_of_put_all:
  "map_of (put_all v ps m) p = (if p \<in> set ps then Some v else map_of m p)"
  unfolding put_all_def
  by (induction ps arbitrary: m) (auto simp: update_conv)

lemma become_follower_simps [simp]:
  "slog (become_follower t s) = slog s" "next_index (become_follower t s) = next_index s"
  "commit_index (become_follower t s) = commit_index s"
  by (simp_all add: become_follower_def)

lemma nexts_ok_install: "numbered (slog s) \<Longrightarrow> nexts_ok (install_leader s)"
  by (auto simp: nexts_ok_def install_leader_def Let_def map_of_put_all last_log_index_def
      numbered_last)

lemma build_append_ok:
  assumes n: "nexts_ok s" and l: "slog s = L (current_term s)" "numbered (slog s)"
    and E: "E (current_term s) = Some i" "self_id s = i"
    and p: "p \<in> set (other_ids (cluster_size s) i)"
  shows "append_ok E L (f, p, build_append_for s p)"
proof -
  define nxt where "nxt = (case map_of (next_index s) p of Some v \<Rightarrow> v | None \<Rightarrow> 1)"
  have bound: "nxt \<le> Suc (length (slog s))"
    using n p E(2) by (auto simp: nxt_def nexts_ok_def split: option.split)
  have "segment_ok (slog s) (wrap_sub nxt 1) (term_at (wrap_sub nxt 1) (slog s))
      (filter (\<lambda>e. nxt \<le> entry_index e) (slog s))"
  proof (cases nxt)
    case 0
    then show ?thesis by (auto simp: segment_ok_def intro: exI [of _ 0])
  next
    case (Suc q)
    then show ?thesis
      unfolding segment_ok_def
      by (intro exI [of _ q], cases "q = 0")
        (use bound in \<open>simp_all add: numbered_filter [OF l(2)] wrap_sub_def term_at_def
          numbered_find [OF l(2)]\<close>)
  qed
  then show ?thesis
    using E p l(1) by (auto simp: append_ok_def build_append_for_def Let_def nxt_def)
qed

lemma append_round_ok:
  assumes "nexts_ok s" and "slog s = L (current_term s)" "numbered (slog s)"
    and "E (current_term s) = Some i" "self_id s = i"
  shows "\<forall>e\<in>#tagged i (append_round s). append_ok E L e"
  using build_append_ok [of s L E i] assms by (auto simp: tagged_def append_round_def)

lemma append_ok_vote [simp]:
  "append_ok E L (f, d, RequestVote t c a b)" "append_ok E L (f, d, RequestVoteReply t g)"
  by (simp_all add: append_ok_def)

lemma logs_okD:
  assumes "logs_ok E L ns M"
  shows "i < length ns \<Longrightarrow> log_ok L (slog (ns ! i))"
    and "i < length ns \<Longrightarrow> numbered (slog (ns ! i))"
    and "i < length ns \<Longrightarrow> srole (ns ! i) = Leader \<Longrightarrow> slog (ns ! i) = L (current_term (ns ! i))"
    and "i < length ns \<Longrightarrow> srole (ns ! i) = Leader \<Longrightarrow> nexts_ok (ns ! i)"
    and "e \<in># M \<Longrightarrow> append_ok E L e" and "log_ok L (L t)"
  using assms by (simp_all add: logs_ok_def log_ok_def)

lemma logged_move:
  assumes v: "voting E ns M0" and lo: "logs_ok E L ns M" and i: "i < length ns"
    and m: "moved E ns i s (M + N)" and old: "srole s = Leader \<Longrightarrow> srole (ns ! i) = Leader"
    and "log_ok L (slog s)"
    and "srole s = Leader \<Longrightarrow> slog s = L (current_term s) \<and> nexts_ok s"
    and "\<forall>e\<in>#N. append_ok E L e"
  shows "logged (ns[i := s]) (M + N)"
proof -
  have "voting E (ns[i := s]) (M + N)"
    using m old by (auto simp: moved_def crown_def split: if_splits)
  moreover have "logs_ok E L (ns[i := s]) (M + N)"
    using assms by (intro logs_update)
  ultimately show ?thesis by (auto simp: logged_def)
qed

lemma logged_win:
  assumes v: "voting E ns M0" and lo: "logs_ok E L ns M" and i: "i < length ns"
    and m: "moved E ns i s (M + N)" and new: "srole s = Leader" "srole (ns ! i) \<noteq> Leader"
    and l: "slog s = slog (ns ! i)" and nx: "nexts_ok s"
    and msgs: "\<forall>e\<in>#N. append_ok (E(current_term s \<mapsto> i)) (L(current_term s := slog s)) e"
  shows "logged (ns[i := s]) (M + N)"
proof -
  let ?E = "E(current_term s \<mapsto> i)" and ?L = "L(current_term s := slog s)"
  have fresh: "E (current_term s) = None" and "voting ?E (ns[i := s]) (M + N)"
    using m new by (simp_all add: moved_def crown_def)
  moreover have "logs_ok ?E ?L ns M"
    using logs_win [OF lo v fresh] logs_okD(1) [OF lo i] l by simp
  then have "logs_ok ?E ?L (ns[i := s]) (M + N)"
    using logs_okD(1) [OF _ i] l nx msgs by (intro logs_update) simp_all
  ultimately show ?thesis by (auto simp: logged_def)
qed

lemma logged_server_tick:
  assumes lg: "logged ns M" and i: "i < length ns" and t: "server_tick el (ns ! i) = (s, acts)"
  shows "logged (ns[i := s]) (M + tagged i acts)"
proof -
  obtain E L where v: "voting E ns M" and lo: "logs_ok E L ns M"
    using lg by (auto simp: logged_def)
  note m = moved_server_tick [OF v i t] and self = voting_self [OF v i] and d = logs_okD [OF lo]
  show ?thesis
  proof (cases "srole (ns ! i) = Leader")
    case True
    let ?s = "(ns ! i)\<lparr>heartbeat_due_in := 50\<rparr>"
    have "nexts_ok ?s" using d(4) [OF i True] by (simp add: nexts_ok_def)
    then have round: "\<forall>e\<in>#tagged i (append_round ?s). append_ok E L e"
      using d(2) [OF i] d(3) [OF i True] voting_leader [OF v i True] self
      by (intro append_round_ok) simp_all
    have s: "slog s = slog (ns ! i)" "current_term s = current_term (ns ! i)" "srole s = Leader"
      "nexts_ok s" "\<forall>e\<in>#tagged i acts. append_ok E L e"
      using t True d(4) [OF i True] round
      by (auto simp: server_tick_def Let_def nexts_ok_def split: if_splits)
    show ?thesis
      by (rule logged_move [OF v lo i m]) (use s d i True in simp_all)
  next
    case False
    let ?s = "(ns ! i)\<lparr>election_timeout_in := sat_sub (election_timeout_in (ns ! i)) el\<rparr>"
    have s: "slog s = slog (ns ! i)" and msgs: "\<forall>e\<in>#tagged i acts. append_ok E' L' e" for E' L'
      using t False by (auto simp: server_tick_def Let_def start_election_alt tagged_def split: if_splits)
    show ?thesis
    proof (cases "srole s = Leader")
      case True
      then have "s = install_leader (candidate_of ?s)"
        using t False by (auto simp: server_tick_def Let_def start_election_alt split: if_splits)
      then have "nexts_ok s" using nexts_ok_install d(2) [OF i] by simp
      then show ?thesis
        by (intro logged_win [OF v lo i m]) (use True False s msgs in simp_all)
    next
      case no: False
      show ?thesis
        by (rule logged_move [OF v lo i m]) (use no s d i msgs in simp_all)
    qed
  qed
qed

lemma logged_request_vote:
  assumes v: "voting E ns M0" and lo: "logs_ok E L ns M" and i: "i < length ns"
    and h: "handle_request_vote (ns ! i) t c lli llt = (s, acts)"
    and m: "moved E ns i s (M + tagged i acts)"
  shows "logged (ns[i := s]) (M + tagged i acts)"
proof -
  note d = logs_okD [OF lo]
  have log: "slog s = slog (ns ! i)" and msgs: "\<forall>e\<in>#tagged i acts. append_ok E L e"
    using h by (auto simp: handle_request_vote_def Let_def become_follower_def split: if_splits)
  have lead: "srole (ns ! i) = Leader \<and> current_term s = current_term (ns ! i) \<and> nexts_ok s"
    if "srole s = Leader"
    using h that d(4) [OF i]
    by (auto simp: handle_request_vote_def Let_def become_follower_def nexts_ok_def split: if_splits)
  show ?thesis
    by (rule logged_move [OF v lo i m]) (use log msgs lead d(1,3) i in auto)
qed

lemma logged_request_vote_reply:
  assumes v: "voting E ns M0" and lo: "logs_ok E L ns M" and i: "i < length ns"
    and h: "handle_request_vote_reply (ns ! i) t g = (s, acts)"
    and m: "moved E ns i s (M + tagged i acts)"
  shows "logged (ns[i := s]) (M + tagged i acts)"
proof -
  note d = logs_okD [OF lo] and self = voting_self [OF v i]
  have log: "slog s = slog (ns ! i)"
    using h by (auto simp: handle_request_vote_reply_def Let_def become_follower_def split: if_splits)
  show ?thesis
  proof (cases "srole s = Leader \<and> srole (ns ! i) \<noteq> Leader")
    case True
    let ?s = "(ns ! i)\<lparr>votes_received := votes_received (ns ! i) + 1\<rparr>"
    have s: "s = install_leader ?s" "acts = append_round s"
      using h True become_follower_Leader
      by (fastforce simp: handle_request_vote_reply_def Let_def split: if_splits)+
    have nx: "nexts_ok s" unfolding s(1) by (rule nexts_ok_install) (use d(2) i in simp)
    have "\<forall>e\<in>#tagged i acts. append_ok (E(current_term s \<mapsto> i)) (L(current_term s := slog s)) e"
      unfolding s(2) by (rule append_round_ok [OF nx]) (use s(1) d(2) i self in simp_all)
    then show ?thesis
      by (intro logged_win [OF v lo i m]) (use True log nx in simp_all)
  next
    case False
    have lead: "current_term s = current_term (ns ! i) \<and> nexts_ok s" if "srole s = Leader"
      using h that d(4) [OF i] False
      by (auto simp: handle_request_vote_reply_def Let_def become_follower_def split: if_splits)
    have "acts = []"
      using h False
      by (auto simp: handle_request_vote_reply_def Let_def split: if_splits)
    then show ?thesis
      by (intro logged_move [OF v lo i m]) (use log lead d(1,3) i False in auto)
  qed
qed

lemma logged_append_entries:
  assumes v: "voting E ns M0" and lo: "logs_ok E L ns M" and i: "i < length ns"
    and e: "append_ok E L (f, i, AppendEntries t l pidx pterm es lc)"
    and h: "handle_append_entries (ns ! i) t l pidx pterm es lc = (s, acts)"
    and m: "moved E ns i s (M + tagged i acts)"
  shows "logged (ns[i := s]) (M + tagged i acts)"
proof -
  note d = logs_okD [OF lo]
  have e': "E t = Some l" "l \<noteq> i" "segment_ok (L t) pidx pterm es"
    using e by (simp_all add: append_ok_def)
  have msgs: "\<forall>e\<in>#tagged i acts. append_ok E L e"
    using h e'(2) by (auto simp: handle_append_entries_def Let_def append_ok_def split: if_splits)
  show ?thesis
  proof (cases "t < current_term (ns ! i)")
    case True
    then have "s = ns ! i" using h by (simp add: handle_append_entries_def)
    then show ?thesis
      by (intro logged_move [OF v lo i m]) (use msgs d i in simp_all)
  next
    case False
    then have "srole (ns ! i) = Leader \<Longrightarrow> current_term (ns ! i) < t"
      using voting_leader [OF v i] e' by (cases "current_term (ns ! i) = t") auto
    then have "srole s \<noteq> Leader"
      using h False
      by (auto simp: handle_append_entries_def Let_def become_follower_def split: if_splits)
    moreover have "log_ok L (slog s)"
      using h False d(1) [OF i] consistent_append [OF d(1) [OF i] d(6) e'(3)]
      by (auto simp: handle_append_entries_def Let_def become_follower_def split: if_splits)
    ultimately show ?thesis
      by (intro logged_move [OF v lo i m]) (use msgs in simp_all)
  qed
qed

lemma logged_append_entries_reply:
  assumes v: "voting E ns M0" and lo: "logs_ok E L ns M" and i: "i < length ns"
    and f: "f < length ns" "f \<noteq> i"
    and h: "handle_append_entries_reply (ns ! i) f t ok mi = (s, acts)"
    and m: "moved E ns i s (M + tagged i acts)"
  shows "logged (ns[i := s]) (M + tagged i acts)"
proof -
  note d = logs_okD [OF lo] and self = voting_self [OF v i]
  have log: "slog s = slog (ns ! i)"
    using h by (auto simp: handle_append_entries_reply_def Let_def become_follower_def split: if_splits)
  show ?thesis
  proof (cases "srole s = Leader")
    case False
    then have "acts = []"
      using h by (auto simp: handle_append_entries_reply_def Let_def split: if_splits)
    then show ?thesis
      by (intro logged_move [OF v lo i m]) (use log d(1) i False in simp_all)
  next
    case True
    then have lead: "srole (ns ! i) = Leader" "current_term s = current_term (ns ! i)"
      "self_id s = i" "cluster_size s = length ns"
      using h self
      by (auto simp: handle_append_entries_reply_def Let_def become_follower_def split: if_splits)
    let ?old = "case map_of (next_index (ns ! i)) f of Some v \<Rightarrow> v | None \<Rightarrow> 1"
    have "next_index s = next_index (ns ! i) \<or>
        next_index s = AList.update f (max ?old 1 - 1) (next_index (ns ! i))"
      using h True by (auto simp: handle_append_entries_reply_def Let_def split: if_splits)
    moreover have ni: "nexts_ok (ns ! i)" by (rule d(4) [OF i lead(1)])
    moreover have "?old \<le> Suc (length (slog s))"
      using ni f self log by (auto simp: nexts_ok_def split: option.split)
    ultimately have nx: "nexts_ok s"
      using lead self log by (auto simp: nexts_ok_def update_conv split: if_splits)
    have "append_ok E L (i, f, build_append_for s f)"
      by (rule build_append_ok [OF nx])
        (use log lead d(2) [OF i] d(3) [OF i lead(1)] voting_leader [OF v i lead(1)] f in simp_all)
    moreover have "acts = [] \<or> acts = [(f, build_append_for s f)]"
      using h by (auto simp: handle_append_entries_reply_def Let_def split: if_splits)
    ultimately have "\<forall>e\<in>#tagged i acts. append_ok E L e" by auto
    then show ?thesis
      by (intro logged_move [OF v lo i m]) (use log lead nx d(1) [OF i] d(3) [OF i] in simp_all)
  qed
qed

lemma logged_handle:
  assumes lg: "logged ns (add_mset (f, i, m) M)" and i: "i < length ns"
    and h: "handle f m (ns ! i) = (s, acts)"
  shows "logged (ns[i := s]) (M + tagged i acts)"
proof -
  obtain E L where v: "voting E ns (add_mset (f, i, m) M)"
    and lo0: "logs_ok E L ns (add_mset (f, i, m) M)"
    using lg by (auto simp: logged_def)
  have lo: "logs_ok E L ns M" using logs_subset [OF lo0, of M] by simp
  have e: "append_ok E L (f, i, m)" by (rule logs_okD(5) [OF lo0]) simp
  have f: "f < length ns"
    using v by (auto simp: voting_def vote_inv_def msg_ok_def)
  note mv = moved_handle [OF v i h]
  show ?thesis
  proof (cases m)
    case (RequestVote t c a b)
    then show ?thesis using logged_request_vote [OF v lo i _ mv] h by simp
  next
    case (RequestVoteReply t g)
    then show ?thesis using logged_request_vote_reply [OF v lo i _ mv] h by simp
  next
    case (AppendEntries t l pidx pterm es lc)
    then show ?thesis using logged_append_entries [OF v lo i _ _ mv] h e by simp
  next
    case (AppendEntriesReply t ok mi)
    then have "f \<noteq> i" using e by (simp add: append_ok_def)
    then show ?thesis
      using logged_append_entries_reply [OF v lo i f _ _ mv] h AppendEntriesReply by simp
  qed
qed

lemma logged_append_local:
  assumes "logged ns M" and i: "i < length ns" and lead: "srole (ns ! i) = Leader"
  shows "logged (ns[i := (append_local cmd (ns ! i))\<lparr>heartbeat_due_in := 0\<rparr>]) M"
proof -
  obtain E L where v: "voting E ns M" and lo: "logs_ok E L ns M"
    using assms(1) by (auto simp: logged_def)
  let ?e = "\<lparr>entry_term = current_term (ns ! i), entry_index = last_log_index (ns ! i) + 1,
              entry_command = cmd\<rparr>"
  have "logs_ok E (L(current_term (ns ! i) := slog (ns ! i) @ [?e]))
      (ns[i := (append_local cmd (ns ! i))\<lparr>heartbeat_due_in := 0\<rparr>]) M"
    using logs_extend [OF lo v i lead, of "(append_local cmd (ns ! i))\<lparr>heartbeat_due_in := 0\<rparr>" ?e]
      logs_okD(2) [OF lo i]
    by (simp add: append_local_def last_log_index_def numbered_last)
  with voting_append_local [OF v i] show ?thesis by (auto simp: logged_def)
qed

lemma logged_new: "logged (map (\<lambda>i. server_new i sz) [0..<sz]) {#}"
proof -
  have "logs_ok (\<lambda>t. None) (\<lambda>t. []) (map (\<lambda>i. server_new i sz) [0..<sz]) {#}"
    by (simp add: logs_ok_def server_new_def)
  with voting_new show ?thesis by (auto simp: logged_def)
qed

interpretation logs: switched logged
proof
  show "logged ns M \<Longrightarrow> M' \<subseteq># M \<Longrightarrow> logged ns M'" for ns M M'
    using voting_subset logs_subset by (fastforce simp: logged_def)
  show "logged ns (add_mset (f, i, m) M) \<Longrightarrow> i < length ns" for ns f i m M
    using voting_addressed by (auto simp: logged_def)
qed (auto intro: logged_server_tick logged_handle logged_append_local logged_new)

lemma reached_logged:
  "net_op\<^sup>*\<^sup>* (network_new sz seed) net \<Longrightarrow> logged (nodes net) (mset (inbox net))"
  by (rule logs.reachable_inv) (auto simp: network_start_def)

text \<open>
  C2. Log matching: on every reachable network, if the logs of two servers hold entries of the
  same term at the same position, they are identical up to and including that position, commands
  included; and the position of every entry is its index.
\<close>

theorem log_matching:
  assumes "net_op\<^sup>*\<^sup>* (network_new sz seed) net"
    and "i < length (nodes net)" and "j < length (nodes net)"
    and "k < length (slog (nodes net ! i))" and "k < length (slog (nodes net ! j))"
    and "entry_term (slog (nodes net ! i) ! k) = entry_term (slog (nodes net ! j) ! k)"
  shows "take (Suc k) (slog (nodes net ! i)) = take (Suc k) (slog (nodes net ! j))
    \<and> entry_index (slog (nodes net ! i) ! k) = Suc k"
proof -
  obtain E L where lo: "logs_ok E L (nodes net) (mset (inbox net))"
    using reached_logged [OF assms(1)] by (auto simp: logged_def)
  have "take (Suc k) (slog (nodes net ! i)) = take (Suc k) (slog (nodes net ! j))"
    by (rule log_ok_same_term [OF logs_okD(1) [OF lo assms(2)] logs_okD(1) [OF lo assms(3)]
          assms(4,5,6)])
  moreover have "entry_index (slog (nodes net ! i) ! k) = Suc k"
    using logs_okD(2) [OF lo assms(2)] assms(4) by (simp add: numbered_def)
  ultimately show ?thesis ..
qed

theorem log_matching_witness:
  "\<exists>net. net_op\<^sup>*\<^sup>* (network_new 3 42) net \<and>
     take 1 (slog (nodes net ! 0)) = take 1 (slog (nodes net ! 2)) \<and>
     entry_index (slog (nodes net ! 0) ! 0) = 1 \<and>
     slog (nodes net ! 2) = [\<lparr>entry_term = 1, entry_index = 1, entry_command = [9]\<rparr>]"
proof -
  obtain net where run: "exec_cmds [Tick 150, Deliver, Deliver, Propose 0 [9], Tick 0, Deliver]
      (network_new 3 42) = Inr net"
    and net: "length (nodes net) = 3"
      "slog (nodes net ! 0) = [\<lparr>entry_term = 1, entry_index = 1, entry_command = [9]\<rparr>]"
      "slog (nodes net ! 2) = [\<lparr>entry_term = 1, entry_index = 1, entry_command = [9]\<rparr>]"
    by (simp add: raft_run)
  note reached = exec_cmds_net_op [OF run]
  have "take 1 (slog (nodes net ! 0)) = take 1 (slog (nodes net ! 2))
      \<and> entry_index (slog (nodes net ! 0) ! 0) = 1"
    using log_matching [OF reached, of 0 2 0] net by simp
  with reached net show ?thesis by blast
qed

section \<open>Commit indices\<close>

text \<open>The scan of \<^verbatim>\<open>advance_commit\<close> over a range of indices.\<close>

lemma commit_scan:
  fixes P :: "nat \<Rightarrow> bool"
  defines "scan \<equiv> \<lambda>a b. fold (\<lambda>n c. if P n then n else c) [a..<b]"
  assumes "a \<le> b"
  shows "(scan a b c = c \<or> a \<le> scan a b c \<and> scan a b c < b \<and> P (scan a b c)) \<and>
     (\<forall>n. a \<le> n \<longrightarrow> n < b \<longrightarrow> P n \<longrightarrow> n \<le> scan a b c)"
  using \<open>a \<le> b\<close>
proof (induction b rule: dec_induct)
  case base
  then show ?case by (simp add: scan_def)
next
  case (step b)
  have eq: "scan a (Suc b) c = (if P b then b else scan a b c)"
    using step(1) by (simp add: scan_def)
  show ?case
  proof (cases "P b")
    case True
    then show ?thesis using step(1) by (simp add: eq)
  next
    case False
    then show ?thesis using step.IH by (auto simp add: eq less_Suc_eq)
  qed
qed

definition committable :: "server \<Rightarrow> nat \<Rightarrow> bool" where
  "committable s n \<longleftrightarrow> term_at n (slog s) = current_term s \<and> quorum s \<le> replicas_at s n"

lemma advance_commit_scan:
  "commit_index (advance_commit s) =
     fold (\<lambda>n c. if committable s n then n else c)
       [commit_index s + 1 ..< last_log_index s + 1] (commit_index s)"
proof -
  have "(\<lambda>n c. if term_at n (slog s) \<noteq> current_term s then c
            else if quorum s \<le> replicas_at s n then n else c)
      = (\<lambda>n c. if committable s n then n else c)"
    by (auto simp: committable_def fun_eq_iff)
  then show ?thesis by (simp add: advance_commit_def)
qed

lemma advance_commit_bounds:
  shows "commit_index s \<le> commit_index (advance_commit s)"
    and "commit_index (advance_commit s) \<noteq> commit_index s \<Longrightarrow>
      commit_index (advance_commit s) \<le> last_log_index s \<and>
      committable s (commit_index (advance_commit s))"
    and "commit_index (advance_commit s) < n \<Longrightarrow> n \<le> last_log_index s \<Longrightarrow> \<not> committable s n"
proof -
  let ?c = "commit_index s" and ?c' = "commit_index (advance_commit s)" and ?l = "last_log_index s"
  have scan: "(?c' = ?c \<or> ?c < ?c' \<and> ?c' \<le> ?l \<and> committable s ?c') \<and>
      (\<forall>n. ?c < n \<and> n \<le> ?l \<and> committable s n \<longrightarrow> n \<le> ?c')"
  proof (cases "?c \<le> ?l")
    case True
    then show ?thesis
      using commit_scan [of "?c + 1" "?l + 1" "committable s" ?c]
      unfolding advance_commit_scan less_Suc_eq_le Suc_eq_plus1 [symmetric] Suc_le_eq
      by blast
  next
    case False
    then show ?thesis by (simp add: advance_commit_scan)
  qed
  then show "?c \<le> ?c'" by linarith
  show "?c' \<le> ?l \<and> committable s ?c'" if "?c' \<noteq> ?c" using scan that by blast
  show "\<not> committable s n" if "?c' < n" "n \<le> ?l"
    using scan that \<open>?c \<le> ?c'\<close> by (meson le_less_trans not_le)
qed

text \<open>
  C13. \<^verbatim>\<open>advance_commit\<close> never lowers the commit index, and moves it to the largest index above it
  whose entry is of the leader's own term and that a quorum of the match indices (the leader
  included) covers; if there is none it stays.
\<close>

theorem advance_commit_largest:
  "commit_index s \<le> commit_index (advance_commit s) \<and>
   (commit_index (advance_commit s) = commit_index s \<or>
      commit_index (advance_commit s) \<le> last_log_index s \<and>
      term_at (commit_index (advance_commit s)) (slog s) = current_term s \<and>
      quorum s \<le> replicas_at s (commit_index (advance_commit s))) \<and>
   {n. commit_index (advance_commit s) < n \<and> n \<le> last_log_index s \<and>
       term_at n (slog s) = current_term s \<and> quorum s \<le> replicas_at s n} = {}"
  using advance_commit_bounds [of s] by (auto simp: committable_def)


section \<open>Terms and votes\<close>

definition keeps_vote :: "server \<Rightarrow> server \<Rightarrow> bool" where
  "keeps_vote s s' \<longleftrightarrow>
     current_term s \<le> current_term s' \<and>
     (current_term s' = current_term s \<longrightarrow> voted_for s = None \<or> voted_for s' = voted_for s)"

lemma keeps_vote_become_follower: "keeps_vote s (become_follower t s)"
  by (simp add: keeps_vote_def become_follower_def)

lemma keeps_vote_handle:
  assumes "handle f m s = (s', acts)"
  shows "keeps_vote s s'"
proof (cases m)
  case (RequestVote t c a b)
  with assms show ?thesis
    by (auto simp: handle_request_vote_def Let_def become_follower_def keeps_vote_def
        split: if_splits)
next
  case (RequestVoteReply t g)
  with assms keeps_vote_become_follower [of s t] show ?thesis
    by (auto simp: handle_request_vote_reply_def Let_def keeps_vote_def split: if_splits)
next
  case (AppendEntries t l pidx pterm es lc)
  with assms keeps_vote_become_follower [of s t] show ?thesis
    by (auto simp: handle_append_entries_def Let_def keeps_vote_def split: if_splits)
next
  case (AppendEntriesReply t ok mi)
  with assms keeps_vote_become_follower [of s t] show ?thesis
    by (auto simp: handle_append_entries_reply_def Let_def keeps_vote_def split: if_splits)
qed

lemma keeps_vote_tick: "server_tick el s = (s', acts) \<Longrightarrow> keeps_vote s s'"
  by (auto simp: server_tick_def Let_def start_election_alt keeps_vote_def split: if_splits)

interpretation vote_order: server_order keeps_vote
proof
  show "keeps_vote s s" for s by (simp add: keeps_vote_def)
  show "keeps_vote a b \<Longrightarrow> keeps_vote b c \<Longrightarrow> keeps_vote a c" for a b c
    by (auto simp: keeps_vote_def)
  show "keeps_vote s ((append_local cmd s)\<lparr>heartbeat_due_in := 0\<rparr>)" for s cmd
    by (simp add: keeps_vote_def)
qed (fact keeps_vote_tick keeps_vote_handle)+

text \<open>
  Along every execution the term of each server never decreases, and a server that has voted
  in a term keeps that vote as long as it stays in the term: it never votes for a second candidate.
\<close>

theorem terms_grow_votes_stay:
  assumes "net_op\<^sup>*\<^sup>* net net'" and "i < length (nodes net)"
  shows "current_term (nodes net ! i) \<le> current_term (nodes net' ! i) \<and>
    (current_term (nodes net' ! i) = current_term (nodes net ! i) \<longrightarrow>
       voted_for (nodes net ! i) = None \<or> voted_for (nodes net' ! i) = voted_for (nodes net ! i))"
  using vote_order.net_ops_rel [OF assms(1)] assms(2)
  by (simp add: list_all2_conv_all_nth keeps_vote_def)

theorem terms_grow_votes_stay_witness:
  "current_term (nodes (network_new 3 42) ! 1) \<le>
     current_term (nodes (net_tick 200 (network_new 3 42)) ! 1)"
  using terms_grow_votes_stay [of "network_new 3 42" "net_tick 200 (network_new 3 42)" 1]
  by (simp add: network_new_3 r_into_rtranclp op_tick)

section \<open>Executions that lose the guarantees\<close>

text \<open>
  Node 0 leads term 1, is cut off and appends two entries. Node 2 wins term 2 with an empty log;
  its first heartbeat reaches node 0, whose reply reports the index of its own last entry.
\<close>

definition stale_tail_run :: "net_cmd list" where
  "stale_tail_run =
     [Tick 150, Deliver, Deliver, Deliver, Deliver, Partition 0 1 1, Partition 0 2 1,
      Propose 0 [1], Propose 0 [2], Tick 174, Heal, Deliver, Deliver, Deliver, Deliver]"

text \<open>
  Node 2 then proposes and commits at once; node 0 wins term 3, repairs node 1 and commits its own
  entries at the same positions.
\<close>

definition split_commit_run :: "net_cmd list" where
  "split_commit_run = stale_tail_run @
     [Propose 2 [3], Partition 2 0 1, Partition 2 1 1, Tick 177, Deliver, Deliver, Deliver, Deliver,
      Deliver, Deliver, Deliver, Deliver, Propose 0 [4], Tick 0, Deliver, Deliver]"

lemma exec_cmds_append:
  "exec_cmds (xs @ ys) net =
     (case exec_cmds xs net of Inl e \<Rightarrow> Inl e | Inr net' \<Rightarrow> exec_cmds ys net')"
  by (induction xs arbitrary: net) (auto split: sum.split)

lemma node0_draw: "unat (xorshift64 1442695040888963407) mod 75 = 27"
  by (simp add: xorshift64_def Let_def)

text \<open>
  A leader can commit an entry that no other server stores: a follower that accepts an empty
  heartbeat answers with the index of its own last entry, although the entries behind the
  checked position may conflict with the leader's. A reachable three-server network has a
  leader whose newest entry is committed, and neither of the other servers holds it.
\<close>

theorem commit_without_quorum:
  "\<exists>net e. net_op\<^sup>*\<^sup>* (network_new 3 42) net \<and> leader_id net = Some 2 \<and> committed_log net = [e] \<and>
     e \<notin> set (slog (nodes net ! 0)) \<and> e \<notin> set (slog (nodes net ! 1))"
proof -
  obtain net where run: "exec_cmds (stale_tail_run @ [Propose 2 [3]]) (network_new 3 42) = Inr net"
    and st: "leader_id net = Some 2"
      "committed_log net = [\<lparr>entry_term = 2, entry_index = 1, entry_command = [3]\<rparr>]"
      "slog (nodes net ! 0) = [\<lparr>entry_term = 1, entry_index = 1, entry_command = [1]\<rparr>,
         \<lparr>entry_term = 1, entry_index = 2, entry_command = [2]\<rparr>]"
      "slog (nodes net ! 1) = []"
    by (simp add: stale_tail_run_def raft_run leader_id_def leader_of_def committed_log_def
        committed_prefix_def)
  from exec_cmds_net_op [OF run] st show ?thesis
    by (intro exI [of _ net] exI [of _ "\<lparr>entry_term = 2, entry_index = 1, entry_command = [3]\<rparr>"])
      simp
qed

text \<open>
  C35. State machine safety fails: a reachable network has two servers whose committed prefixes hold
  different commands at index 1.
\<close>

theorem committed_prefixes_diverge:
  "\<exists>net. net_op\<^sup>*\<^sup>* (network_new 3 42) net \<and>
     committed_prefix (nodes net ! 2) = [\<lparr>entry_term = 2, entry_index = 1, entry_command = [3]\<rparr>] \<and>
     take 1 (committed_prefix (nodes net ! 0)) =
       [\<lparr>entry_term = 1, entry_index = 1, entry_command = [1]\<rparr>]"
proof -
  have "case exec_cmds split_commit_run (network_new 3 42) of Inl e \<Rightarrow> False
      | Inr net \<Rightarrow> committed_prefix (nodes net ! 2) =
           [\<lparr>entry_term = 2, entry_index = 1, entry_command = [3]\<rparr>] \<and>
         take 1 (committed_prefix (nodes net ! 0)) =
           [\<lparr>entry_term = 1, entry_index = 1, entry_command = [1]\<rparr>]"
    by (simp add: split_commit_run_def stale_tail_run_def raft_run node0_draw committed_prefix_def)
  then obtain net where run: "exec_cmds split_commit_run (network_new 3 42) = Inr net"
    and st: "committed_prefix (nodes net ! 2) =
         [\<lparr>entry_term = 2, entry_index = 1, entry_command = [3]\<rparr>]"
      "take 1 (committed_prefix (nodes net ! 0)) =
         [\<lparr>entry_term = 1, entry_index = 1, entry_command = [1]\<rparr>]"
    by (auto split: sum.splits)
  from exec_cmds_net_op [OF run] st show ?thesis by blast
qed

text \<open>
  C36. Two failed replies in flight wedge a follower: once the next index of a peer is 0 the leader
  asks for the position \<open>2 ^ 64 - 1\<close>, every log the peer can have refuses it without change, and
  the refusal leaves the next index at 0.
\<close>

theorem next_index_zero_wedges:
  assumes "srole s = Leader" and "map_of (next_index s) p = Some 0"
    and "current_term d \<le> current_term s"
    and "\<forall>e\<in>set (slog d). entry_index e < 2 ^ 64 - 1"
  shows "\<exists>d' mi. handle (self_id s) (build_append_for s p) d =
           (d', [(self_id s, AppendEntriesReply (current_term s) False mi)]) \<and> slog d' = slog d \<and>
         map_of (next_index (fst (handle p (AppendEntriesReply (current_term s) False mi) s))) p = Some 0"
proof -
  have "find_index (2 ^ 64 - 1) (slog d) = None"
    using assms(4) by (auto simp: find_index_def find_None_iff)
  then have "\<not> consistent_prev (slog d) (2 ^ 64 - 1) pt" for pt
    by (simp add: consistent_prev_def)
  moreover have "current_term (become_follower (current_term s) d) = current_term s"
    using assms(3) by (simp add: become_follower_def)
  ultimately show ?thesis
    using assms(1-3)
    by (simp add: build_append_for_def Let_def wrap_sub_def handle_append_entries_def not_less
        handle_append_entries_reply_def update_conv)
qed

definition wedge_run :: "net_cmd list" where
  "wedge_run = stale_tail_run @
     [Partition 2 0 1, Partition 2 1 1, Tick 177, Deliver, Deliver, Tick 50, Deliver, Deliver,
      Deliver, Deliver]"

lemma wedge_reached:
  "\<exists>net. net_op\<^sup>*\<^sup>* (network_new 3 42) net \<and> srole (nodes net ! 0) = Leader \<and>
     self_id (nodes net ! 0) = 0 \<and> current_term (nodes net ! 0) = 3 \<and>
     map_of (next_index (nodes net ! 0)) 1 = Some 0 \<and> current_term (nodes net ! 1) = 3 \<and>
     map entry_index (slog (nodes net ! 1)) = [1, 2]"
proof -
  have "case exec_cmds wedge_run (network_new 3 42) of Inl e \<Rightarrow> False
      | Inr net \<Rightarrow> srole (nodes net ! 0) = Leader \<and> self_id (nodes net ! 0) = 0 \<and>
          current_term (nodes net ! 0) = 3 \<and> map_of (next_index (nodes net ! 0)) 1 = Some 0 \<and>
          current_term (nodes net ! 1) = 3 \<and> map entry_index (slog (nodes net ! 1)) = [1, 2]"
    by (simp add: wedge_run_def stale_tail_run_def raft_run node0_draw)
  then show ?thesis by (auto split: sum.splits intro!: exec_cmds_net_op)
qed

theorem next_index_zero_wedges_witness:
  "\<exists>net d' mi. net_op\<^sup>*\<^sup>* (network_new 3 42) net \<and> srole (nodes net ! 0) = Leader \<and>
     handle 0 (build_append_for (nodes net ! 0) 1) (nodes net ! 1) =
       (d', [(0, AppendEntriesReply 3 False mi)]) \<and> slog d' = slog (nodes net ! 1)"
proof -
  obtain net where net: "net_op\<^sup>*\<^sup>* (network_new 3 42) net" "srole (nodes net ! 0) = Leader"
    "self_id (nodes net ! 0) = 0" "current_term (nodes net ! 0) = 3"
    "map_of (next_index (nodes net ! 0)) 1 = Some 0" "current_term (nodes net ! 1) = 3"
    "map entry_index (slog (nodes net ! 1)) = [1, 2]"
    using wedge_reached by auto
  have "\<forall>e\<in>set (slog (nodes net ! 1)). entry_index e < 2 ^ 64 - 1"
    using net(7) by (auto simp: map_eq_Cons_conv)
  with net show ?thesis
    using next_index_zero_wedges [of "nodes net ! 0" 1 "nodes net ! 1"] by auto
qed

end
