(* ===== verification/Hamt.thy ===== *)
theory Hamt
  imports Prelude
begin

text \<open>
  The persistent hash array mapped trie of \<^verbatim>\<open>src/crates/lionfs/src/hamt/mod.rs\<close> and the mixer of
  \<^verbatim>\<open>src/crates/lionfs/src/io_engine/shard.rs\<close> it hashes with.

  A \<open>node\<close> is the code's \<^verbatim>\<open>Node\<close>; the shared pointers between generations are invisible to a value.
  Slots are found by the population count of the bits below a key's nibble. An index into a slot
  vector that is out of range is the error \<open>IndexPanic\<close>; \<open>widen\<close> recurses until two hashes differ,
  with fuel, and running out of it is \<open>NoReturn\<close>. Shift amounts are taken modulo 128, as the release
  build does.
\<close>

unbundle bit_operations_syntax

section \<open>Hashing\<close>

definition splitmix64 :: "64 word \<Rightarrow> 64 word" where
  "splitmix64 x =
     (let z0 = x + 0x9E3779B97F4A7C15;
          z1 = (z0 XOR drop_bit 30 z0) * 0xBF58476D1CE4E5B9;
          z2 = (z1 XOR drop_bit 27 z1) * 0x94D049BB133111EB
      in z2 XOR drop_bit 31 z2)"

definition shard_of :: "32 word \<Rightarrow> 64 word \<Rightarrow> 64 word \<Rightarrow> 64 word" where
  "shard_of fd ino num_shards =
     (let h = splitmix64 (ucast fd XOR push_bit 32 ino)
      in h AND (if num_shards = 0 then 0 else num_shards - 1))"

definition hash128 :: "128 word \<Rightarrow> 128 word" where
  "hash128 key =
     (let lo = splitmix64 (ucast key);
          hi = splitmix64 (ucast (drop_bit 64 key) XOR lo)
      in push_bit 64 (ucast hi) OR ucast lo)"

definition nibble :: "128 word \<Rightarrow> nat \<Rightarrow> nat" where
  "nibble hash level = unat (drop_bit ((level * 5) mod 128) hash AND 31)"

section \<open>Nodes\<close>

type_synonym hkey = "128 word"

datatype 'v node =
    Branch (branch_map: "32 word") (branch_slots: "'v node list")
  | Collision (collision_hash: hkey) (collision_entries: "(hkey \<times> 'v) list")
  | Leaf (leaf_hash: hkey) (leaf_key: hkey) (leaf_value: 'v)

datatype hamt_error = IndexPanic | NoReturn

record 'v hamt =
  root :: "'v node"
  hlen :: nat
  depth_max :: nat

definition hamt_new :: "'v hamt" where
  "hamt_new = \<lparr>root = Branch 0 [], hlen = 0, depth_max = 0\<rparr>"

definition is_empty :: "'v hamt \<Rightarrow> bool" where
  "is_empty t = (hlen t = 0)"

section \<open>Lookup\<close>

fun get_node :: "'v node \<Rightarrow> hkey \<Rightarrow> hkey \<Rightarrow> nat \<Rightarrow> hamt_error + 'v option" where
  "get_node (Branch m slots) key hash level =
     (let bt = 2 ^ nibble hash level; slot = count_ones (m AND (bt - 1))
      in if m AND bt = 0 then Inr None
         else if slot < length slots then get_node (slots ! slot) key hash (level + 1)
         else Inl IndexPanic)"
| "get_node (Leaf h k v) key hash level = Inr (if h = hash \<and> k = key then Some v else None)"
| "get_node (Collision h es) key hash level =
     Inr (if h \<noteq> hash then None else map_option snd (find (\<lambda>e. fst e = key) es))"

definition get :: "'v hamt \<Rightarrow> hkey \<Rightarrow> hamt_error + 'v option" where
  "get t key = get_node (root t) key (hash128 key) 0"

section \<open>Insertion\<close>

fun widen :: "nat \<Rightarrow> 'v node \<Rightarrow> hkey \<Rightarrow> 'v \<Rightarrow> hkey \<Rightarrow> hkey \<Rightarrow> nat
    \<Rightarrow> hamt_error + ('v node \<times> bool \<times> nat)" where
  "widen 0 nd key v new_hash old_hash level = Inl NoReturn"
| "widen (Suc fuel) nd key v new_hash old_hash level =
     (let old_idx = nibble old_hash level; new_idx = nibble new_hash level in
      if old_idx = new_idx
      then (case widen fuel nd key v new_hash old_hash (level + 1) of
              Inl e \<Rightarrow> Inl e
            | Inr (inner, added, depth) \<Rightarrow> Inr (Branch (2 ^ new_idx) [inner], added, depth))
      else let leaf = Leaf new_hash key v;
               slots = (if old_idx < new_idx then [nd, leaf] else [leaf, nd])
           in Inr (Branch (2 ^ old_idx OR 2 ^ new_idx) slots, True, level))"

text \<open>26 levels of five bits exhaust a 128-bit hash.\<close>

abbreviation widen_fuel :: nat where
  "widen_fuel \<equiv> 26"

fun insert_node :: "'v node \<Rightarrow> hkey \<Rightarrow> 'v \<Rightarrow> hkey \<Rightarrow> nat \<Rightarrow> hamt_error + ('v node \<times> bool \<times> nat)" where
  "insert_node (Branch m slots) key v hash level =
     (let idx = nibble hash level; bt = 2 ^ idx; slot = count_ones (m AND (bt - 1))
      in if m AND bt = 0
         then Inr (Branch (m OR bt) (insert_at slot (Leaf hash key v) slots), True, level)
         else if slot < length slots
         then (case insert_node (slots ! slot) key v hash (level + 1) of
                 Inl e \<Rightarrow> Inl e
               | Inr (child, added, depth) \<Rightarrow> Inr (Branch m (slots[slot := child]), added, depth))
         else Inl IndexPanic)"
| "insert_node (Leaf h k w) key v hash level =
     (if h = hash \<and> k = key then Inr (Leaf hash key v, False, level)
      else if h = hash then Inr (Collision hash [(k, w), (key, v)], True, level)
      else widen widen_fuel (Leaf h k w) key v hash h level)"
| "insert_node (Collision h es) key v hash level =
     (if h \<noteq> hash then widen widen_fuel (Collision h es) key v hash h level
      else case position (\<lambda>e. fst e = key) es of
             Some pos \<Rightarrow> Inr (Collision hash (es[pos := (key, v)]), False, level)
           | None \<Rightarrow> Inr (Collision h (es @ [(key, v)]), True, level))"

definition hinsert :: "hkey \<Rightarrow> 'v \<Rightarrow> 'v hamt \<Rightarrow> hamt_error + 'v hamt" where
  "hinsert key v t =
     (case insert_node (root t) key v (hash128 key) 0 of
        Inl e \<Rightarrow> Inl e
      | Inr (r, added, depth) \<Rightarrow>
          Inr \<lparr>root = r, hlen = hlen t + (if added then 1 else 0),
               depth_max = max (depth_max t) depth\<rparr>)"

section \<open>Removal\<close>

datatype 'v remove_result = Missing | Removed "'v node" 'v | Replace "'v node" 'v

fun is_empty_branch :: "'v node \<Rightarrow> bool" where
  "is_empty_branch (Branch m slots) = (slots = [])"
| "is_empty_branch _ = False"

fun remove_node :: "'v node \<Rightarrow> hkey \<Rightarrow> hkey \<Rightarrow> nat \<Rightarrow> hamt_error + 'v remove_result" where
  "remove_node (Branch m slots) key hash level =
     (let bt = 2 ^ nibble hash level; slot = count_ones (m AND (bt - 1))
      in if m AND bt = 0 then Inr Missing
         else if slot < length slots
         then (case remove_node (slots ! slot) key hash (level + 1) of
                 Inl e \<Rightarrow> Inl e
               | Inr Missing \<Rightarrow> Inr Missing
               | Inr (Replace n v) \<Rightarrow> Inr (Replace (Branch m (slots[slot := n])) v)
               | Inr (Removed n v) \<Rightarrow>
                   Inr (if is_empty_branch n
                        then let rest = remove_at slot slots
                             in case rest of
                                  [] \<Rightarrow> Removed (Branch 0 []) v
                                | [only] \<Rightarrow> Removed only v
                                | _ \<Rightarrow> Removed (Branch (m AND NOT bt) rest) v
                        else Removed (Branch m (slots[slot := n])) v))
         else Inl IndexPanic)"
| "remove_node (Leaf h k v) key hash level =
     Inr (if h = hash \<and> k = key then Removed (Branch 0 []) v else Missing)"
| "remove_node (Collision h es) key hash level =
     Inr (if h \<noteq> hash then Missing
          else case position (\<lambda>e. fst e = key) es of
                 None \<Rightarrow> Missing
               | Some pos \<Rightarrow>
                   let v = snd (es ! pos)
                   in case remove_at pos es of
                        [(k, w)] \<Rightarrow> Replace (Leaf h k w) v
                      | rest \<Rightarrow> Replace (Collision h rest) v)"

definition remove :: "hkey \<Rightarrow> 'v hamt \<Rightarrow> hamt_error + ('v hamt \<times> 'v option)" where
  "remove key t =
     (case remove_node (root t) key (hash128 key) 0 of
        Inl e \<Rightarrow> Inl e
      | Inr Missing \<Rightarrow> Inr (t, None)
      | Inr (Removed n v) \<Rightarrow> Inr (t\<lparr>root := n, hlen := hlen t - 1\<rparr>, Some v)
      | Inr (Replace n v) \<Rightarrow> Inr (t\<lparr>root := n\<rparr>, Some v))"

section \<open>Visiting\<close>

fun walk :: "'v node \<Rightarrow> (hkey \<times> 'v) list" where
  "walk (Branch m slots) = concat (map walk slots)"
| "walk (Leaf h k v) = [(k, v)]"
| "walk (Collision h es) = es"

definition for_each :: "(hkey \<Rightarrow> 'v \<Rightarrow> 's \<Rightarrow> 's) \<Rightarrow> 'v hamt \<Rightarrow> 's \<Rightarrow> 's" where
  "for_each f t s = fold (\<lambda>(k, v). f k v) (walk (root t)) s"

section \<open>Nibbles\<close>

definition agree :: "nat \<Rightarrow> hkey \<Rightarrow> hkey \<Rightarrow> bool" where
  "agree l h h' \<longleftrightarrow> (\<forall>j<l. nibble h j = nibble h' j)"

lemma nibble_less [simp]: "nibble h l < 32"
proof -
  have "drop_bit ((l * 5) mod 128) h AND 31 < (32 :: 128 word)"
    using and_mask_less' [of 5 "drop_bit ((l * 5) mod 128) h"] by (simp add: mask_eq_exp_minus_1)
  then show ?thesis by (simp add: nibble_def word_less_nat_alt)
qed

lemma agree_all:
  assumes "agree 26 h h'"
  shows "h = h'"
proof (rule bit_eqI)
  fix n assume "possible_bit TYPE(128 word) n"
  then have n: "n < 128" by simp
  then have "nibble h (n div 5) = nibble h' (n div 5)" using assms by (simp add: agree_def)
  moreover have "(n div 5 * 5) mod 128 = n div 5 * 5" using n by simp
  ultimately have "drop_bit (n div 5 * 5) h AND mask 5 = drop_bit (n div 5 * 5) h' AND mask 5"
    by (simp add: nibble_def mask_eq_exp_minus_1 word_unat_eq_iff)
  then have "bit (drop_bit (n div 5 * 5) h AND mask 5) (n mod 5)
      = bit (drop_bit (n div 5 * 5) h' AND mask 5) (n mod 5)" by simp
  moreover have "n mod 5 < 128" using n by simp
  ultimately show "bit h n = bit h' n"
    by (simp add: bit_and_iff bit_mask_iff bit_drop_bit_eq)
qed

section \<open>Well-formed nodes\<close>

abbreviation keys :: "'v node \<Rightarrow> hkey set" where
  "keys nd \<equiv> fst ` set (walk nd)"

definition routed :: "nat \<Rightarrow> 32 word \<Rightarrow> 'v node list \<Rightarrow> bool" where
  "routed l m slots \<longleftrightarrow>
     list_all2 (\<lambda>i c. \<forall>k\<in>keys c. nibble (hash128 k) l = i) (ones m) slots"

fun wf :: "nat \<Rightarrow> 'v node \<Rightarrow> bool" where
  "wf l (Branch m slots) \<longleftrightarrow> l < 26 \<and> list_all (wf (Suc l)) slots \<and> routed l m slots"
| "wf l (Leaf h k v) \<longleftrightarrow> h = hash128 k"
| "wf l (Collision h es) \<longleftrightarrow>
     es \<noteq> [] \<and> distinct (map fst es) \<and> (\<forall>k\<in>fst ` set es. hash128 k = h)"

lemma fst_set_concat:
  "k \<in> fst ` set (concat (map f xs)) \<longleftrightarrow> (\<exists>x\<in>set xs. k \<in> fst ` set (f x))"
  by (simp add: image_UN)

lemma map_of_concat_one:
  assumes j: "j < length xs" and "\<And>j'. j' < length xs \<Longrightarrow> k \<in> fst ` set (f (xs ! j')) \<Longrightarrow> j' = j"
  shows "map_of (concat (map f xs)) k = map_of (f (xs ! j)) k"
proof -
  have xs: "xs = take j xs @ xs ! j # drop (Suc j) xs"
    using j by (rule id_take_nth_drop)
  have "k \<notin> fst ` set (f x)" if "x \<in> set (take j xs) \<union> set (drop (Suc j) xs)" for x
  proof
    assume k: "k \<in> fst ` set (f x)"
    have "\<exists>i<length xs. i \<noteq> j \<and> x = xs ! i"
    proof (cases "x \<in> set (take j xs)")
      case True
      then obtain i where "i < j" "x = xs ! i" by (auto simp: in_set_conv_nth)
      then show ?thesis using j by (intro exI [of _ i]) simp
    next
      case False
      then have "x \<in> set (drop (Suc j) xs)" using that by simp
      then obtain i where "i < length xs - Suc j" "x = xs ! (Suc j + i)"
        by (auto simp: in_set_conv_nth)
      then show ?thesis by (intro exI [of _ "Suc j + i"]) simp
    qed
    then obtain i where "i < length xs" "i \<noteq> j" "x = xs ! i" by blast
    with assms(2) [of i] k show False by simp
  qed
  then have "map_of (concat (map f (take j xs))) k = None"
    "map_of (concat (map f (drop (Suc j) xs))) k = None"
    unfolding map_of_eq_None_iff fst_set_concat by auto
  then show ?thesis
    by (subst xs) (simp add: map_add_def split: option.splits)
qed

lemma routed_nth:
  "routed l m slots \<Longrightarrow> j < length slots \<Longrightarrow> k \<in> keys (slots ! j) \<Longrightarrow>
     nibble (hash128 k) l = ones m ! j"
  by (auto simp: routed_def list_all2_conv_all_nth)

lemma routed_length: "routed l m slots \<Longrightarrow> length (ones m) = length slots"
  by (simp add: routed_def list_all2_lengthD)

abbreviation slot_of :: "32 word \<Rightarrow> nat \<Rightarrow> nat" where
  "slot_of m i \<equiv> count_ones (m AND (2 ^ i - 1))"

lemma slot_of_nth:
  assumes "bit m i" and "i < 32"
  shows "slot_of m i < length (ones m)" and "ones m ! slot_of m i = i"
  using ones_nth_slot [of i m] assms by simp_all

lemma slot_of_inj:
  assumes "bit m i" "i < 32" "bit m j" "j < 32" and "slot_of m i = slot_of m j"
  shows "i = j"
  using slot_of_nth(2) [OF assms(1,2)] slot_of_nth(2) [OF assms(3,4)] unfolding assms(5) by (rule trans [OF sym])

lemma branch_map_of:
  assumes r: "routed l m slots"
  shows "map_of (concat (map walk slots)) k =
    (let i = nibble (hash128 k) l in if bit m i then map_of (walk (slots ! slot_of m i)) k else None)"
proof (cases "bit m (nibble (hash128 k) l)")
  case True
  let ?i = "nibble (hash128 k) l"
  have s: "slot_of m ?i < length slots" "ones m ! slot_of m ?i = ?i"
    using slot_of_nth [OF True] routed_length [OF r] by simp_all
  have "j = slot_of m ?i" if "j < length slots" "k \<in> keys (slots ! j)" for j
    using routed_nth [OF r that] s that(1) routed_length [OF r]
    by (metis distinct_ones nth_eq_iff_index_eq)
  then show ?thesis using True map_of_concat_one [OF s(1), of k walk] by simp
next
  case False
  have "k \<notin> keys (slots ! j)" if "j < length slots" for j
  proof
    assume "k \<in> keys (slots ! j)"
    then have "nibble (hash128 k) l = ones m ! j" by (rule routed_nth [OF r that])
    moreover have "ones m ! j \<in> set (ones m)" using that routed_length [OF r] by simp
    ultimately show False using False by (simp add: set_ones)
  qed
  then have "map_of (concat (map walk slots)) k = None"
    unfolding map_of_eq_None_iff fst_set_concat by (metis in_set_conv_nth)
  with False show ?thesis by simp
qed

section \<open>Lookup\<close>

lemma find_map_of: "map_option snd (find (\<lambda>e. fst e = k) es) = map_of es k"
  by (induction es) auto

lemma get_node_map_of:
  assumes "wf l nd" and "hash = hash128 key"
  shows "get_node nd key hash l = Inr (map_of (walk nd) key)"
  using assms
proof (induction nd key hash l rule: get_node.induct)
  case (1 m slots key hash level)
  let ?i = "nibble hash level"
  have r: "routed level m slots" and w: "list_all (wf (Suc level)) slots" using 1 by simp_all
  show ?case
  proof (cases "bit m ?i")
    case True
    then have s: "slot_of m ?i < length slots"
      using slot_of_nth(1) [OF True] routed_length [OF r] by simp
    then have "wf (level + 1) (slots ! slot_of m ?i)" using w by (simp add: list_all_length)
    with 1 s True show ?thesis
      by (simp add: and_bit_zero_iff branch_map_of [OF r] Let_def)
  next
    case False
    then show ?thesis using 1 by (simp add: and_bit_zero_iff branch_map_of [OF r] Let_def)
  qed
next
  case (3 h es key hash level)
  have "map_of es key = None" if "h \<noteq> hash128 key"
    unfolding map_of_eq_None_iff using 3 that by auto
  then show ?case using 3 by (simp add: find_map_of)
qed simp

section \<open>Insertion\<close>

text \<open>What inserting into the subtree at level \<open>l\<close> owes.\<close>

definition inserted ::
    "nat \<Rightarrow> 'v node \<Rightarrow> hkey \<Rightarrow> 'v \<Rightarrow> hamt_error + ('v node \<times> bool \<times> nat) \<Rightarrow> bool" where
  "inserted l nd key v r \<longleftrightarrow>
     (\<exists>nd' added depth. r = Inr (nd', added, depth) \<and> wf l nd' \<and> depth \<le> 26 \<and>
        map_of (walk nd') = (map_of (walk nd))(key \<mapsto> v) \<and> (added \<longleftrightarrow> key \<notin> keys nd))"

lemma ones_power: "i < 32 \<Longrightarrow> ones (2 ^ i :: 32 word) = [i]"
proof -
  assume "i < 32"
  then have "set (ones (2 ^ i :: 32 word)) = {i}" by (auto simp: set_ones bit_two_power)
  moreover have "sorted (ones (2 ^ i :: 32 word))" by (simp add: ones_def sorted_wrt_filter)
  ultimately show ?thesis
    using sorted_distinct_set_unique [of "ones (2 ^ i :: 32 word)" "[i]"] by simp
qed

lemma ones_two_powers:
  assumes "i < j" and "j < 32"
  shows "ones (2 ^ i OR 2 ^ j :: 32 word) = [i, j]"
proof -
  have "set (ones (2 ^ i OR 2 ^ j :: 32 word)) = {i, j}"
    using assms by (auto simp: set_ones bit_or_iff bit_two_power)
  moreover have "sorted (ones (2 ^ i OR 2 ^ j :: 32 word))" by (simp add: ones_def sorted_wrt_filter)
  ultimately show ?thesis
    using sorted_distinct_set_unique [of "ones (2 ^ i OR 2 ^ j :: 32 word)" "[i, j]"] assms by simp
qed

lemma map_of_snoc: "key \<notin> fst ` set xs \<Longrightarrow> map_of (xs @ [(key, v)]) = (map_of xs)(key \<mapsto> v)"
  by (induction xs) (auto simp: fun_eq_iff)

lemma keys_inserted: "map_of (walk c) = (map_of (walk d))(key \<mapsto> v) \<Longrightarrow> keys c = insert key (keys d)"
  by (metis dom_fun_upd dom_map_of_conv_image_fst option.distinct(1))

lemma widen_inserts:
  assumes "wf 0 nd" and nb: "\<And>l. wf l nd = wf 0 nd"
    and old: "\<forall>k\<in>keys nd. hash128 k = old" and new: "new = hash128 key"
    and "nibble old j \<noteq> nibble new j" and "level \<le> j" and "j < level + fuel" and "j < 26"
  shows "inserted level nd key v (widen fuel nd key v new old level)"
  using assms(5-8)
proof (induction fuel arbitrary: level)
  case 0
  then show ?case by simp
next
  case (Suc fuel)
  let ?o = "nibble old level" and ?n = "nibble new level"
  have key: "key \<notin> keys nd" using old new Suc.prems(1) by auto
  show ?case
  proof (cases "?o = ?n")
    case True
    then have "level \<noteq> j" using Suc.prems(1) by auto
    then have "inserted (level + 1) nd key v (widen fuel nd key v new old (level + 1))"
      using Suc.IH [of "level + 1"] Suc.prems by simp
    then obtain nd' d where r: "widen fuel nd key v new old (level + 1) = Inr (nd', True, d)"
      "wf (Suc level) nd'" "d \<le> 26" "map_of (walk nd') = (map_of (walk nd))(key \<mapsto> v)"
      using key by (auto simp: inserted_def)
    have "\<forall>k\<in>keys nd'. nibble (hash128 k) level = ?n"
      unfolding keys_inserted [OF r(4)] using True old new by auto
    then have "routed level (2 ^ ?n) [nd']"
      unfolding routed_def ones_power [OF nibble_less] by simp
    then show ?thesis
      using r True Suc.prems key by (auto simp: inserted_def)
  next
    case False
    let ?leaf = "Leaf new key v"
    have slots: "routed level (2 ^ ?o OR 2 ^ ?n) (if ?o < ?n then [nd, ?leaf] else [?leaf, nd])"
    proof (cases "?o < ?n")
      case True
      then show ?thesis using old new by (simp add: routed_def ones_two_powers)
    next
      case no: False
      then have "?n < ?o" using False by simp
      then have "ones (2 ^ ?o OR 2 ^ ?n :: 32 word) = [?n, ?o]"
        by (subst or.commute) (simp add: ones_two_powers)
      then show ?thesis using no old new by (simp add: routed_def)
    qed
    have "map_of (walk nd @ [(key, v)]) = (map_of (walk nd))(key \<mapsto> v)"
      using key by (rule map_of_snoc)
    then show ?thesis
      using slots False Suc.prems assms(1) nb [of "Suc level"] new key
      by (auto simp: inserted_def Let_def)
  qed
qed

lemma differing_level:
  assumes "agree l h h'" and "h \<noteq> h'"
  obtains j where "l \<le> j" "j < 26" "nibble h j \<noteq> nibble h' j"
proof -
  obtain j where "j < 26" "nibble h j \<noteq> nibble h' j"
    using agree_all assms(2) unfolding agree_def by blast
  moreover have "l \<le> j" using calculation assms(1) by (auto simp: agree_def not_less [symmetric])
  ultimately show ?thesis using that by blast
qed

lemma widen_node:
  assumes "wf 0 nd" and "\<And>l. wf l nd = wf 0 nd" and "\<forall>k\<in>keys nd. hash128 k = old"
    and "keys nd \<noteq> {}" and "\<forall>k\<in>keys nd. agree l (hash128 k) (hash128 key)" and "old \<noteq> hash128 key"
  shows "inserted l nd key v (widen widen_fuel nd key v (hash128 key) old l)"
proof -
  have "agree l old (hash128 key)" using assms(3-5) by (metis all_not_in_conv)
  then obtain j where "l \<le> j" "j < 26" "nibble old j \<noteq> nibble (hash128 key) j"
    using assms(6) by (rule differing_level)
  then show ?thesis
    by (intro widen_inserts [OF assms(1-3) refl]) simp_all
qed

lemma insert_at_routed:
  assumes r: "routed l m slots" and "\<not> bit m i" "i < 32" and k: "\<forall>k\<in>keys c. nibble (hash128 k) l = i"
  shows "routed l (m OR 2 ^ i) (insert_at (slot_of m i) c slots)"
proof -
  have "ones (m OR 2 ^ i) = insert_at (slot_of m i) i (ones m)"
    using ones_set_bit [of i m] assms by simp
  moreover have "list_all2 (\<lambda>i c. \<forall>k\<in>keys c. nibble (hash128 k) l = i) (take p (ones m)) (take p slots)"
    "list_all2 (\<lambda>i c. \<forall>k\<in>keys c. nibble (hash128 k) l = i) (drop p (ones m)) (drop p slots)" for p
    using r by (auto simp: routed_def intro: list_all2_takeI list_all2_dropI)
  ultimately show ?thesis
    using k unfolding routed_def insert_at_def by (auto intro!: list_all2_appendI)
qed

lemma branch_child_inserted:
  assumes r: "routed l m slots" and w: "list_all (wf (Suc l)) slots" and l: "l < 26"
    and b: "bit m i" and i: "i = nibble (hash128 key) l"
    and c: "insert_node (slots ! slot_of m i) key v hash (l + 1) = Inr (c, added, depth)"
      "wf (Suc l) c" "depth \<le> 26" "map_of (walk c) = (map_of (walk (slots ! slot_of m i)))(key \<mapsto> v)"
      "added \<longleftrightarrow> key \<notin> keys (slots ! slot_of m i)"
  shows "wf l (Branch m (slots[slot_of m i := c])) \<and> depth \<le> 26 \<and>
    map_of (walk (Branch m (slots[slot_of m i := c]))) = (map_of (walk (Branch m slots)))(key \<mapsto> v) \<and>
    (added \<longleftrightarrow> key \<notin> keys (Branch m slots))"
proof -
  let ?s = "slot_of m i"
  have i32: "i < 32" using i by simp
  have s: "?s < length slots" using slot_of_nth(1) [OF b i32] routed_length [OF r] by simp
  have nib: "\<forall>k\<in>keys c. nibble (hash128 k) l = ones m ! ?s"
  proof
    fix k assume "k \<in> keys c"
    then consider "k = key" | "k \<in> keys (slots ! ?s)" using keys_inserted [OF c(4)] by blast
    then show "nibble (hash128 k) l = ones m ! ?s"
    proof cases
      case 1
      then show ?thesis unfolding slot_of_nth(2) [OF b i32] using i by simp
    next
      case 2
      then show ?thesis by (rule routed_nth [OF r s])
    qed
  qed
  have r': "routed l m (slots[?s := c])"
    using list_all2_update_cong [OF r [unfolded routed_def] nib, of ?s] by (simp add: routed_def)
  have "map_of (concat (map walk (slots[?s := c]))) k = ((map_of (concat (map walk slots)))(key \<mapsto> v)) k" for k
  proof (cases "nibble (hash128 k) l = i")
    case True
    then show ?thesis using b s c(4) by (simp add: branch_map_of [OF r] branch_map_of [OF r'] Let_def)
  next
    case False
    then have k: "k \<noteq> key" using i by auto
    show ?thesis
    proof (cases "bit m (nibble (hash128 k) l)")
      case True
      then have "slot_of m (nibble (hash128 k) l) \<noteq> ?s"
        using slot_of_inj [OF True _ b i32] False by auto
      then show ?thesis using k by (simp add: branch_map_of [OF r] branch_map_of [OF r'] Let_def)
    qed (use k in \<open>simp add: branch_map_of [OF r] branch_map_of [OF r'] Let_def\<close>)
  qed
  moreover have "list_all (wf (Suc l)) (slots[?s := c])"
    using w c(2) set_update_subset_insert [of slots ?s c] by (auto simp: list_all_iff)
  moreover have "map_of (walk (Branch m slots)) key = map_of (walk (slots ! ?s)) key"
    using branch_map_of [OF r, of key] b i by (simp add: Let_def)
  then have "key \<in> keys (Branch m slots) \<longleftrightarrow> key \<in> keys (slots ! ?s)"
    by (metis map_of_eq_None_iff)
  ultimately show ?thesis using r' l c(3,5) by (simp only: wf.simps walk.simps fun_eq_iff) simp
qed

lemma collision_inserted:
  assumes "distinct (map fst es)"
  shows "case position (\<lambda>e. fst e = key) es of
      Some pos \<Rightarrow> key \<in> fst ` set es \<and> map fst (es[pos := (key, v)]) = map fst es \<and>
        map_of (es[pos := (key, v)]) = (map_of es)(key \<mapsto> v)
    | None \<Rightarrow> key \<notin> fst ` set es \<and> map_of (es @ [(key, v)]) = (map_of es)(key \<mapsto> v)"
proof (cases "position (\<lambda>e. fst e = key) es")
  case None
  then have "key \<notin> fst ` set es" by (auto simp: position_None_iff)
  then show ?thesis using None map_of_snoc by simp
next
  case (Some pos)
  then have p: "pos < length es" "fst (es ! pos) = key" using position_SomeD [OF Some] by simp_all
  then have keys: "map fst (es[pos := (key, v)]) = map fst es"
    by (simp add: map_update list_update_same_conv)
  have "map_of (es[pos := (key, v)]) k = ((map_of es)(key \<mapsto> v)) k" for k
  proof (cases "k = key")
    case True
    have "(key, v) \<in> set (es[pos := (key, v)])" using p by (simp add: set_update_memI)
    then show ?thesis using True keys assms by (metis fun_upd_same map_of_is_SomeI)
  next
    case False
    then show ?thesis using p
    proof (induction es arbitrary: pos)
      case (Cons e es)
      then show ?case by (cases pos) auto
    qed simp
  qed
  moreover have "key \<in> fst ` set es" using p by (metis image_eqI nth_mem)
  ultimately show ?thesis using Some keys by (simp add: fun_eq_iff)
qed

lemma branch_leaf_inserted:
  assumes r: "routed l m slots" and w: "list_all (wf (Suc l)) slots" and l: "l < 26"
    and b: "\<not> bit m i" and i: "nibble (hash128 key) l = i"
  shows "inserted l (Branch m slots) key v
    (Inr (Branch (m OR 2 ^ i) (insert_at (slot_of m i) (Leaf (hash128 key) key v) slots), True, l))"
proof -
  let ?s = "slot_of m i" and ?leaf = "Leaf (hash128 key) key v"
  let ?a = "concat (map walk (take (slot_of m i) slots))"
    and ?b = "concat (map walk (drop (slot_of m i) slots))"
  have split: "concat (map walk slots) = ?a @ ?b"
    by (metis append_take_drop_id concat_append map_append)
  have none: "map_of (concat (map walk slots)) key = None"
    using branch_map_of [OF r, of key] b i by simp
  then have "map_of ?a key = None" unfolding split by (simp add: map_add_None)
  then have "map_of (?a @ (key, v) # ?b) k = ((map_of (?a @ ?b))(key \<mapsto> v)) k" for k
    by (cases "k = key") (auto simp: map_add_def split: option.splits)
  then have map: "map_of (walk (Branch (m OR 2 ^ i) (insert_at ?s ?leaf slots))) =
      (map_of (walk (Branch m slots)))(key \<mapsto> v)"
    unfolding walk.simps split by (simp add: insert_at_def fun_eq_iff)
  have "\<forall>k\<in>keys ?leaf. nibble (hash128 k) l = i" using i by simp
  moreover have "i < 32" using i nibble_less by metis
  ultimately have "routed l (m OR 2 ^ i) (insert_at ?s ?leaf slots)"
    by (intro insert_at_routed [OF r b])
  moreover have "set (insert_at ?s ?leaf slots) \<subseteq> insert ?leaf (set slots)"
    by (auto simp: insert_at_def dest: in_set_takeD in_set_dropD)
  then have "list_all (wf (Suc l)) (insert_at ?s ?leaf slots)"
    using w unfolding list_all_iff by (metis (no_types, lifting) insertE subsetD wf.simps(2))
  moreover have "key \<notin> keys (Branch m slots)" using none unfolding walk.simps map_of_eq_None_iff .
  ultimately show ?thesis
    unfolding inserted_def using l map
    by (intro exI [of _ "Branch (m OR 2 ^ i) (insert_at ?s ?leaf slots)"] exI [of _ True] exI [of _ l])
      (simp only: wf.simps, simp)
qed

lemma insert_node_inserted:
  assumes "wf l nd" and "hash = hash128 key" and "\<forall>k\<in>keys nd. agree l (hash128 k) hash"
    and "l \<le> 26"
  shows "inserted l nd key v (insert_node nd key v hash l)"
  using assms
proof (induction nd key v hash l rule: insert_node.induct)
  case (1 m slots key v hash l)
  let ?i = "nibble hash l"
  let ?s = "slot_of m ?i"
  have r: "routed l m slots" and w: "list_all (wf (Suc l)) slots" and l: "l < 26"
    and hash: "hash = hash128 key" using 1 by simp_all
  show ?case
  proof (cases "bit m ?i")
    case False
    then show ?thesis
      using branch_leaf_inserted [OF r w l False] hash by (simp add: and_bit_zero_iff Let_def)
  next
    case True
    have s: "?s < length slots" using slot_of_nth(1) [OF True] routed_length [OF r] by simp
    have sub: "keys (slots ! ?s) \<subseteq> keys (Branch m slots)" 
      using nth_mem [OF s] unfolding walk.simps by (metis fst_set_concat subsetI)
    have nib: "nibble (hash128 k) l = ?i" if "k \<in> keys (slots ! ?s)" for k
      using routed_nth [OF r s that] unfolding slot_of_nth(2) [OF True nibble_less] .
    have "agree (l + 1) (hash128 k) hash" if "k \<in> keys (slots ! ?s)" for k
    proof -
      have "agree l (hash128 k) hash" using 1(4) sub that by blast
      then show ?thesis using nib [OF that] by (simp add: agree_def less_Suc_eq)
    qed
    moreover have "wf (l + 1) (slots ! ?s)" using w s by (simp add: list_all_length)
    ultimately have "inserted (l + 1) (slots ! ?s) key v (insert_node (slots ! ?s) key v hash (l + 1))"
      using 1(1) [OF refl refl refl] True s hash l by (simp add: and_bit_zero_iff)
    then obtain c added depth where c: "insert_node (slots ! ?s) key v hash (l + 1) = Inr (c, added, depth)"
      "wf (Suc l) c" "depth \<le> 26" "map_of (walk c) = (map_of (walk (slots ! ?s)))(key \<mapsto> v)"
      "added \<longleftrightarrow> key \<notin> keys (slots ! ?s)"
      by (auto simp: inserted_def)
    have ins: "insert_node (Branch m slots) key v hash l = Inr (Branch m (slots[?s := c]), added, depth)"
      using True s c(1) by (simp add: and_bit_zero_iff Let_def)
    have "?i = nibble (hash128 key) l" using hash by simp
    from branch_child_inserted [OF r w l True this c] show ?thesis
      unfolding ins inserted_def by blast
  qed
next
  case (2 h k w key v hash l)
  have h: "h = hash128 k" using 2(1) by simp
  show ?case
  proof (cases "h = hash")
    case True
    then show ?thesis using 2 h by (auto simp: inserted_def fun_eq_iff)
  next
    case False
    have "inserted l (Leaf h k w) key v (widen widen_fuel (Leaf h k w) key v (hash128 key) h l)"
      by (rule widen_node) (use 2 False h in auto)
    then show ?thesis using False 2(2) by simp
  qed
next
  case (3 h es key v hash l)
  have es: "es \<noteq> []" "distinct (map fst es)" "\<forall>k\<in>fst ` set es. hash128 k = h"
    using 3(1) by simp_all
  show ?case
  proof (cases "h = hash")
    case True
    note c = collision_inserted [OF es(2), of key v]
    show ?thesis
    proof (cases "position (\<lambda>e. fst e = key) es")
      case None
      then have "key \<notin> fst ` set es" "map_of (es @ [(key, v)]) = (map_of es)(key \<mapsto> v)"
        using c by simp_all
      moreover have "insert_node (Collision h es) key v hash l = Inr (Collision h (es @ [(key, v)]), True, l)"
        using None True by simp
      ultimately show ?thesis using True es 3(2,4) by (auto simp: inserted_def)
    next
      case (Some pos)
      then have same: "map fst (es[pos := (key, v)]) = map fst es" and "key \<in> fst ` set es"
        "map_of (es[pos := (key, v)]) = (map_of es)(key \<mapsto> v)" using c by simp_all
      moreover have "fst ` set (es[pos := (key, v)]) = fst ` set es"
        using same by (metis list.set_map)
      moreover have "insert_node (Collision h es) key v hash l =
          Inr (Collision h (es[pos := (key, v)]), False, l)"
        using Some True by simp
      ultimately show ?thesis using es 3(4) by (auto simp: inserted_def)
    qed
  next
    case False
    have "inserted l (Collision h es) key v (widen widen_fuel (Collision h es) key v (hash128 key) h l)"
      by (rule widen_node) (use 3 False es in auto)
    then show ?thesis using False 3(2) by simp
  qed
qed

section \<open>The trie as a map\<close>

lemma routed_image:
  assumes "list_all2 (\<lambda>i c. \<forall>k\<in>fst ` set (f c). g k = i) is cs"
    and "k \<in> fst ` set (concat (map f cs))"
  shows "g k \<in> set is"
  using assms by (induction rule: list_all2_induct) auto

lemma routed_distinct:
  assumes "list_all2 (\<lambda>i c. \<forall>k\<in>fst ` set (f c). g k = i) is cs" and "distinct is"
    and "\<forall>c\<in>set cs. distinct (map fst (f c))"
  shows "distinct (map fst (concat (map f cs)))"
  using assms
proof (induction rule: list_all2_induct)
  case (Cons i "is" c cs)
  have "k \<notin> fst ` set (f c)" if "k \<in> fst ` set (concat (map f cs))" for k
    using routed_image [OF Cons.hyps(2) that] Cons.hyps(1) Cons.prems(1) by auto
  then have "fst ` set (f c) \<inter> fst ` set (concat (map f cs)) = {}" by blast
  with Cons show ?case by simp
qed simp

lemma wf_distinct: "wf l nd \<Longrightarrow> distinct (map fst (walk nd))"
proof (induction nd arbitrary: l)
  case (Branch m slots)
  then have "\<forall>c\<in>set slots. distinct (map fst (walk c))" by (auto simp: list_all_iff)
  then show ?case
    using routed_distinct [of walk "\<lambda>k. nibble (hash128 k) l" "ones m" slots] Branch.prems
    by (simp add: routed_def)
qed simp_all

definition hamt_ok :: "'v hamt \<Rightarrow> bool" where
  "hamt_ok t \<longleftrightarrow> wf 0 (root t) \<and> hlen t = length (walk (root t)) \<and> depth_max t \<le> 26"

lemma hamt_ok_get: "hamt_ok t \<Longrightarrow> get t key = Inr (map_of (walk (root t)) key)"
  by (simp add: get_def hamt_ok_def get_node_map_of)

lemma hamt_ok_new: "hamt_ok hamt_new"
  by (simp add: hamt_ok_def hamt_new_def routed_def ones_def)

lemma walk_card: "wf l nd \<Longrightarrow> length (walk nd) = card (keys nd)"
  using distinct_card [OF wf_distinct] by fastforce

lemma hamt_insert:
  assumes "hamt_ok t"
  shows "\<exists>t'. hinsert key v t = Inr t' \<and> hamt_ok t' \<and>
    map_of (walk (root t')) = (map_of (walk (root t)))(key \<mapsto> v)"
proof -
  have w: "wf 0 (root t)" using assms by (simp add: hamt_ok_def)
  have "inserted 0 (root t) key v (insert_node (root t) key v (hash128 key) 0)"
    by (rule insert_node_inserted [OF w refl]) (simp_all add: agree_def)
  then obtain nd added depth where nd: "insert_node (root t) key v (hash128 key) 0 = Inr (nd, added, depth)"
    "wf 0 nd" "depth \<le> 26" "map_of (walk nd) = (map_of (walk (root t)))(key \<mapsto> v)"
    "added \<longleftrightarrow> key \<notin> keys (root t)"
    by (auto simp: inserted_def)
  have "length (walk nd) = length (walk (root t)) + (if added then 1 else 0)"
    using walk_card [OF nd(2)] walk_card [OF w] keys_inserted [OF nd(4)] nd(5)
    by (simp add: card_insert_if)
  with nd assms show ?thesis by (simp add: hinsert_def hamt_ok_def)
qed

definition hget :: "'v hamt \<Rightarrow> hkey \<Rightarrow> 'v option" where
  "hget t key = (case get t key of Inl e \<Rightarrow> None | Inr r \<Rightarrow> r)"

definition hput :: "hkey \<Rightarrow> 'v \<Rightarrow> 'v hamt \<Rightarrow> 'v hamt option" where
  "hput key v t = (case hinsert key v t of Inl e \<Rightarrow> None | Inr t' \<Rightarrow> Some t')"

interpretation hamt_map: kv_store hamt_ok hamt_new hput hget
proof
  show "hamt_ok hamt_new" by (rule hamt_ok_new)
  show "hget hamt_new k = None" for k :: hkey
    by (simp add: hget_def hamt_ok_get hamt_ok_new) (simp add: hamt_new_def)
  fix t :: "'v hamt" and k v
  assume ok: "hamt_ok t"
  obtain t' where t': "hinsert k v t = Inr t'" "hamt_ok t'"
    and m: "map_of (walk (root t')) = (map_of (walk (root t)))(k \<mapsto> v)"
    using hamt_insert [OF ok] by blast
  have "hget t' = (hget t)(k \<mapsto> v)"
    using m by (simp add: fun_eq_iff hget_def hamt_ok_get [OF ok] hamt_ok_get [OF t'(2)])
  with t' show "\<exists>t'. hput k v t = Some t' \<and> hamt_ok t' \<and> hget t' = (hget t)(k \<mapsto> v)"
    by (simp add: hput_def)
qed

text \<open>
  C6. The trie implements a map: inserting any sequence of bindings into an empty trie returns, a
  lookup of any key then gives the last value bound to it and never panics, the length is the
  number of distinct keys, a visit meets every binding once, and the depth stays within 26 levels.
\<close>

theorem hamt_is_map:
  "\<exists>t. load hput kvs hamt_new = Some t \<and>
     (\<forall>k. get t k = Inr (map_of (rev kvs) k)) \<and>
     hlen t = card (fst ` set kvs) \<and> depth_max t \<le> 26 \<and>
     distinct (map fst (walk (root t))) \<and> set (walk (root t)) = {(k, v). map_of (rev kvs) k = Some v}"
proof -
  obtain t where t: "load hput kvs hamt_new = Some t" "hamt_ok t" "hget t = map_of (rev kvs)"
    using hamt_map.load_map by blast
  have w: "wf 0 (root t)" using t(2) by (simp add: hamt_ok_def)
  have m: "map_of (walk (root t)) = map_of (rev kvs)"
    using t(3) by (simp add: fun_eq_iff hget_def hamt_ok_get [OF t(2)])
  then have "keys (root t) = fst ` set kvs"
    by (metis dom_map_of_conv_image_fst set_rev)
  then have "hlen t = card (fst ` set kvs)"
    using t(2) walk_card [OF w] by (simp add: hamt_ok_def)
  moreover have "set (walk (root t)) = {(k, v). map_of (rev kvs) k = Some v}"
    using wf_distinct [OF w] m by (auto simp: map_of_eq_Some_iff [symmetric])
  ultimately show ?thesis
    using t m wf_distinct [OF w] by (simp add: hamt_ok_get [OF t(2)] hamt_ok_def)
qed

section \<open>The hash is injective\<close>

lemma xor_zero: "x XOR y = 0 \<Longrightarrow> x = (y :: 'a::len word)"
  by (metis xor.assoc xor.left_neutral xor.right_neutral xor_self_eq)

lemma xor_cancel: "x XOR z = y XOR z \<Longrightarrow> x = (y :: 'a::len word)"
  by (metis xor.assoc xor.right_neutral xor_self_eq)

lemma xor_shift_inj:
  fixes x y :: "'a::len word"
  assumes eq: "x XOR drop_bit k x = y XOR drop_bit k y" and "0 < k"
  shows "x = y"
proof -
  define d where "d = x XOR y"
  have "d XOR drop_bit k d = (x XOR drop_bit k x) XOR (y XOR drop_bit k y)"
    by (simp add: d_def drop_bit_xor xor.assoc xor.left_commute xor.commute)
  then have step: "d = drop_bit k d" unfolding eq xor_self_eq by (rule xor_zero)
  have "d = drop_bit (m * k) d" for m
  proof (induction m)
    case (Suc m)
    have "drop_bit (Suc m * k) d = drop_bit (m * k) (drop_bit k d)"
      by (simp add: drop_bit_drop_bit add.commute)
    also have "\<dots> = drop_bit (m * k) d" by (simp only: step [symmetric])
    also have "\<dots> = d" by (rule Suc.IH [symmetric])
    finally show ?case by (rule sym)
  qed simp
  note all = this [of "LENGTH('a)"]
  have "LENGTH('a) \<le> LENGTH('a) * k" using \<open>0 < k\<close> by simp
  then have "drop_bit (LENGTH('a) * k) d = 0"
    by (intro bit_eqI) (auto simp: bit_drop_bit_eq dest: bit_imp_le_length)
  with all have "d = 0" by (rule trans)
  then show ?thesis unfolding d_def by (rule xor_zero)
qed

lemma mult_unit_inj: "x * c = y * c \<Longrightarrow> c * i = (1 :: 'a::len word) \<Longrightarrow> x = y"
  by (metis mult.assoc mult.right_neutral)

lemma splitmix64_inj: "splitmix64 x = splitmix64 y \<Longrightarrow> x = y"
proof -
  have m: "(0xBF58476D1CE4E5B9 :: 64 word) * 0x96DE1B173F119089 = 1"
    "(0x94D049BB133111EB :: 64 word) * 0x319642B2D24D8EC3 = 1" by simp_all
  define s1 where "s1 = (\<lambda>z :: 64 word. (z XOR drop_bit 30 z) * 0xBF58476D1CE4E5B9)"
  define s2 where "s2 = (\<lambda>z :: 64 word. (z XOR drop_bit 27 z) * 0x94D049BB133111EB)"
  have s1: "s1 a = s1 b \<Longrightarrow> a = b" for a b
    unfolding s1_def by (drule mult_unit_inj [OF _ m(1)], drule xor_shift_inj) simp_all
  have s2: "s2 a = s2 b \<Longrightarrow> a = b" for a b
    unfolding s2_def by (drule mult_unit_inj [OF _ m(2)], drule xor_shift_inj) simp_all
  let ?z = "\<lambda>x. s2 (s1 (x + 0x9E3779B97F4A7C15))"
  assume "splitmix64 x = splitmix64 y"
  then have "?z x XOR drop_bit 31 (?z x) = ?z y XOR drop_bit 31 (?z y)"
    by (simp add: splitmix64_def Let_def s1_def s2_def)
  then have "?z x = ?z y" by (rule xor_shift_inj) simp
  then have "x + 0x9E3779B97F4A7C15 = y + 0x9E3779B97F4A7C15" by (rule s1 [OF s2])
  then show "x = y" by simp
qed

lemma ucast_halves:
  fixes k l :: "128 word"
  assumes "ucast k = (ucast l :: 64 word)" and "ucast (drop_bit 64 k) = (ucast (drop_bit 64 l) :: 64 word)"
  shows "k = l"
proof (rule bit_eqI)
  fix n assume "possible_bit TYPE(128 word) n"
  then have n: "n < 128" by simp
  show "bit k n = bit l n"
  proof (cases "n < 64")
    case True
    have "bit (ucast k :: 64 word) n = bit (ucast l :: 64 word) n" using assms(1) by simp
    then show ?thesis using True by (simp add: bit_simps)
  next
    case False
    have "bit (ucast (drop_bit 64 k) :: 64 word) (n - 64) = bit (ucast (drop_bit 64 l) :: 64 word) (n - 64)"
      using assms(2) by simp
    moreover have "n - 64 < 64" using n False by simp
    ultimately show ?thesis using False n by (simp add: bit_simps)
  qed
qed

lemma joined_halves:
  fixes a b c d :: "64 word"
  assumes "push_bit 64 (ucast a) OR ucast b = (push_bit 64 (ucast c) OR ucast d :: 128 word)"
  shows "a = c" and "b = d"
proof -
  let ?w = "push_bit 64 (ucast a) OR ucast b :: 128 word" and ?w' = "push_bit 64 (ucast c) OR ucast d :: 128 word"
  have "bit ?w (n + 64) = bit a n" "bit ?w' (n + 64) = bit c n" if "n < 64" for n
    using that by (auto simp: bit_simps dest: bit_imp_le_length)
  then show "a = c" using assms by (intro bit_eqI) simp
  have "bit ?w n = bit b n" "bit ?w' n = bit d n" if "n < 64" for n
    using that by (auto simp: bit_simps)
  then show "b = d" using assms by (intro bit_eqI) simp
qed

text \<open>
  The 128-bit mixer is injective: two different keys never share a full hash, so the
  collision chains of the trie are never built by insertions of different keys.
\<close>

theorem hash128_injective: "inj hash128"
proof (rule injI)
  fix k l assume "hash128 k = hash128 l"
  note eq = this [unfolded hash128_def Let_def]
  note lo = joined_halves(2) [OF eq] and hi = splitmix64_inj [OF joined_halves(1) [OF eq]]
  have "ucast (drop_bit 64 k) = (ucast (drop_bit 64 l) :: 64 word)"
    by (rule xor_cancel) (rule hi [unfolded lo])
  with splitmix64_inj [OF lo] show "k = l" by (rule ucast_halves)
qed

section \<open>Removal\<close>

lemma remove_node_reports:
  assumes "wf l nd" and "hash = hash128 key"
  shows "\<exists>r. remove_node nd key hash l = Inr r \<and>
    map_of (walk nd) key = (case r of Missing \<Rightarrow> None | Removed n v \<Rightarrow> Some v | Replace n v \<Rightarrow> Some v)"
  using assms
proof (induction nd key hash l rule: remove_node.induct)
  case (1 m slots key hash l)
  let ?i = "nibble hash l"
  have r: "routed l m slots" and w: "list_all (wf (Suc l)) slots" using 1 by simp_all
  show ?case
  proof (cases "bit m ?i")
    case False
    then show ?thesis using 1 by (simp add: and_bit_zero_iff branch_map_of [OF r] Let_def)
  next
    case True
    then have s: "slot_of m ?i < length slots"
      using slot_of_nth(1) [OF True] routed_length [OF r] by simp
    then have "wf (l + 1) (slots ! slot_of m ?i)" using w by (simp add: list_all_length)
    then obtain x where x: "remove_node (slots ! slot_of m ?i) key hash (l + 1) = Inr x"
      "map_of (walk (slots ! slot_of m ?i)) key =
         (case x of Missing \<Rightarrow> None | Removed n v \<Rightarrow> Some v | Replace n v \<Rightarrow> Some v)"
      using 1(1) [OF refl refl] True s 1(3) by (auto simp: and_bit_zero_iff)
    have "map_of (walk (Branch m slots)) key = map_of (walk (slots ! slot_of m ?i)) key"
      using branch_map_of [OF r, of key] True 1(3) by simp
    with x True s show ?thesis
      by (auto simp: and_bit_zero_iff Let_def split: remove_result.splits list.splits)
  qed
next
  case (3 h es key hash l)
  show ?case
  proof (cases "h = hash")
    case False
    then have "map_of es key = None" unfolding map_of_eq_None_iff using 3 by auto
    then show ?thesis using False by simp
  next
    case True
    show ?thesis
    proof (cases "position (\<lambda>e. fst e = key) es")
      case None
      then have "map_of es key = None" by (auto simp: map_of_eq_None_iff position_None_iff)
      then show ?thesis using None True by simp
    next
      case (Some pos)
      then have "pos < length es" "fst (es ! pos) = key" using position_SomeD [OF Some] by simp_all
      then have "(key, snd (es ! pos)) \<in> set es" by (metis nth_mem prod.collapse)
      then have "map_of es key = Some (snd (es ! pos))" using 3(1) by simp
      then show ?thesis using Some True by (auto simp: Let_def split: list.splits)
    qed
  qed
qed simp



lemma hash128_values:
  "hash128 0 = 222016715237339370914088099478784298415"
  "hash128 1 = 125288399861424008942965980437179161793"
  "hash128 32 = 165027412387540835687816348853607474177"
  by (simp_all add: hash128_def splitmix64_def Let_def)

lemma nibble_values:
  "nibble (hash128 0) 0 = 15" "nibble (hash128 1) 0 = 1" "nibble (hash128 32) 0 = 1"
  "nibble (hash128 1) (Suc 0) = 6" "nibble (hash128 32) (Suc 0) = 0"
  by (simp_all add: hash128_values nibble_def)

lemma hash128_differ: "hash128 1 \<noteq> hash128 32" "hash128 32 \<noteq> hash128 0" "hash128 1 \<noteq> hash128 0"
  by (simp_all add: hash128_values)

lemmas widen_26 = widen.simps(2) [of 25, simplified]

lemma upt_32:
  "[0..<32] = [0, 1, 2, 3, 4, 5, 6, 7, 8, 9, 10, 11, 12, 13, 14, 15, 16, 17, 18, 19, 20, 21, 22, 23,
     24, 25, 26, 27, 28, 29, 30, 31 :: nat]"
  by (simp add: upt_rec)

lemma count_ones_values:
  "count_ones (0 :: 32 word) = 0" "count_ones (1 :: 32 word) = 1" "count_ones (2 :: 32 word) = 1"
  by (simp_all add: count_ones_def ones_def upt_32)

text \<open>
  C37. \<^verbatim>\<open>remove\<close> can lose other keys: when a branch is left with one slot it is replaced by the
  child in that slot, and a child that is itself a branch then sits one level too high, where
  lookups read the wrong nibble. After inserting the keys 1, 32 and 0 and removing 0, the
  key 1 is no longer found, although the trie still counts two keys.
\<close>

theorem remove_loses_keys:
  "\<exists>t t'. load hput [(1, 10), (32, 20), (0, 30 :: nat)] hamt_new = Some t \<and> hget t 1 = Some 10 \<and>
     remove 0 t = Inr (t', Some 30) \<and> get t' 1 = Inr None \<and> hlen t' = 2"
proof -
  let ?l1 = "Leaf (hash128 1) 1 (10 :: nat)" and ?l32 = "Leaf (hash128 32) 32 (20 :: nat)"
    and ?l0 = "Leaf (hash128 0) 0 (30 :: nat)"
  let ?t1 = "\<lparr>root = Branch 2 [?l1], hlen = 1, depth_max = 0\<rparr>"
  let ?t2 = "\<lparr>root = Branch 2 [Branch 65 [?l32, ?l1]], hlen = 2, depth_max = 1\<rparr>"
  let ?t3 = "\<lparr>root = Branch 32770 [Branch 65 [?l32, ?l1], ?l0], hlen = 3, depth_max = 1\<rparr>"
  let ?t4 = "\<lparr>root = Branch 65 [?l32, ?l1], hlen = 2, depth_max = 1\<rparr>"
  have "hput 1 10 hamt_new = Some ?t1"
    by (simp add: hput_def hinsert_def hamt_new_def nibble_values insert_at_def Let_def)
  moreover have "hput 32 20 ?t1 = Some ?t2"
    by (simp add: hput_def hinsert_def nibble_values hash128_differ widen_26 count_ones_values Let_def)
  moreover have "hput 0 30 ?t2 = Some ?t3"
    by (simp add: hput_def hinsert_def nibble_values insert_at_def count_ones_values Let_def)
  moreover have "hget ?t3 1 = Some 10"
    by (simp add: hget_def get_def nibble_values count_ones_values Let_def)
  moreover have "remove 0 ?t3 = Inr (?t4, Some 30)"
    by (simp add: remove_def nibble_values count_ones_values remove_at_def Let_def)
  moreover have "get ?t4 1 = Inr None"
    by (simp add: get_def nibble_values Let_def)
  ultimately show ?thesis by simp
qed

end
