(* ===== verification/Qos.thy ===== *)
theory Qos
  imports Prelude
begin

text \<open>
  The admission and fairness policies of \<^verbatim>\<open>src/crates/lionfs/src/qos\<close>: priority classes and the dual
  token bucket (\<^verbatim>\<open>classes.rs\<close>), weighted fair queuing in virtual time (\<^verbatim>\<open>wfq.rs\<close>) and the space and
  inode quotas of namespaces (\<^verbatim>\<open>quota.rs\<close>).

  Times, rates, tokens and byte counts are \<open>nat\<close> with the saturating operations of the source
  written out; the virtual clock of the scheduler is advanced by an unchecked addition, which wraps
  in the release build. The fixed-size arrays of the scheduler are lists of one length.
\<close>

section \<open>Priority classes\<close>

datatype io_level = Realtime | BestEffort | Bulk

fun tag :: "io_level \<Rightarrow> nat" where
  "tag Realtime = 0"
| "tag BestEffort = 1"
| "tag Bulk = 2"

definition from_tag :: "nat \<Rightarrow> io_level option" where
  "from_tag t = (if t = 0 then Some Realtime else if t = 1 then Some BestEffort
     else if t = 2 then Some Bulk else None)"

definition sub_levels :: nat where
  "sub_levels = 8"

definition sched_slot_count :: nat where
  "sched_slot_count = 3 * sub_levels"

record io_class =
  class_level :: io_level
  class_sub :: nat

definition class_new :: "io_level \<Rightarrow> nat \<Rightarrow> io_class" where
  "class_new l s = \<lparr>class_level = l, class_sub = s mod sub_levels\<rparr>"

definition class_slot :: "io_class \<Rightarrow> nat" where
  "class_slot c = tag (class_level c) * sub_levels + class_sub c"

definition default_class :: io_class where
  "default_class = class_new BestEffort 4"

section \<open>Token bucket\<close>

record bucket =
  rate_bytes :: nat
  rate_ops :: nat
  burst_bytes :: nat
  burst_ops :: nat
  tokens_bytes :: nat
  tokens_ops :: nat
  last_refill :: nat

definition bucket_unlimited :: bucket where
  "bucket_unlimited =
     \<lparr>rate_bytes = u64_max, rate_ops = u64_max, burst_bytes = u64_max, burst_ops = u64_max,
      tokens_bytes = u64_max, tokens_ops = u64_max, last_refill = 0\<rparr>"

definition bucket_new :: "nat \<Rightarrow> nat \<Rightarrow> nat \<Rightarrow> nat \<Rightarrow> bucket option" where
  "bucket_new rb ro bb bo =
     (if rb = 0 \<or> ro = 0 then None
      else Some \<lparr>rate_bytes = rb, rate_ops = ro, burst_bytes = max bb 1, burst_ops = max bo 1,
                 tokens_bytes = max bb 1, tokens_ops = max bo 1, last_refill = 0\<rparr>)"

definition refill_amount :: "nat \<Rightarrow> nat \<Rightarrow> nat" where
  "refill_amount rate elapsed =
     (let secs = elapsed div 1000000000; frac_ns = elapsed mod 1000000000
      in sat_add (sat_mul rate secs) (sat_mul rate frac_ns div 1000000000))"

definition refill :: "nat \<Rightarrow> bucket \<Rightarrow> bucket" where
  "refill now b =
     (if now \<le> last_refill b then b
      else let elapsed = now - last_refill b
           in b\<lparr>tokens_bytes := min (sat_add (tokens_bytes b) (refill_amount (rate_bytes b) elapsed))
                                (burst_bytes b),
                tokens_ops := min (sat_add (tokens_ops b) (refill_amount (rate_ops b) elapsed))
                                (burst_ops b),
                last_refill := now\<rparr>)"

definition try_charge :: "nat \<Rightarrow> nat \<Rightarrow> nat \<Rightarrow> bucket \<Rightarrow> bool \<times> bucket" where
  "try_charge now bytes ops b =
     (let b1 = refill now b
      in if bytes \<le> tokens_bytes b1 \<and> ops \<le> tokens_ops b1
         then (True, b1\<lparr>tokens_bytes := tokens_bytes b1 - bytes, tokens_ops := tokens_ops b1 - ops\<rparr>)
         else (False, b1))"

definition headroom :: "nat \<Rightarrow> bucket \<Rightarrow> nat \<times> nat" where
  "headroom now b = (let p = refill now b in (tokens_bytes p, tokens_ops p))"

text \<open>A sequence of admission requests \<open>(now, bytes, ops)\<close>, with the bytes and operations admitted.\<close>

fun admit_all :: "(nat \<times> nat \<times> nat) list \<Rightarrow> bucket \<Rightarrow> nat \<times> nat \<times> bucket" where
  "admit_all [] b = (0, 0, b)"
| "admit_all ((now, bytes, ops) # rs) b =
     (let (ok, b1) = try_charge now bytes ops b; (tb, tops, b2) = admit_all rs b1
      in (if ok then (bytes + tb, ops + tops, b2) else (tb, tops, b2)))"

section \<open>Weighted fair queuing\<close>

record wfq =
  weights :: "nat list"
  finish :: "nat option list"
  pending_cost :: "nat list"
  virtual_time :: nat
  served :: "nat list"
  served_cost :: "nat list"

definition wfq_new :: "nat list \<Rightarrow> wfq" where
  "wfq_new ws =
     (let n = length ws
      in \<lparr>weights = map (\<lambda>w. if w = 0 then 1 else w) ws, finish = replicate n None,
          pending_cost = replicate n 0, virtual_time = 0, served = replicate n 0,
          served_cost = replicate n 0\<rparr>)"

definition set_pending :: "nat \<Rightarrow> nat \<Rightarrow> wfq \<Rightarrow> wfq" where
  "set_pending q cost w =
     (if finish w ! q \<noteq> None then w
      else let c = max cost 1
           in w\<lparr>pending_cost := (pending_cost w)[q := c],
                finish := (finish w)[q := Some (wrap_add (virtual_time w) (c div weights w ! q))]\<rparr>)"

definition clear :: "nat \<Rightarrow> wfq \<Rightarrow> wfq" where
  "clear q w = w\<lparr>finish := (finish w)[q := None], pending_cost := (pending_cost w)[q := 0]\<rparr>"

fun scan_best :: "nat \<Rightarrow> nat option list \<Rightarrow> nat option \<Rightarrow> nat \<Rightarrow> nat option \<times> nat" where
  "scan_best q [] best best_f = (best, best_f)"
| "scan_best q (f # fs) best best_f =
     (case f of
        Some v \<Rightarrow> if v < best_f then scan_best (Suc q) fs (Some q) v
                  else scan_best (Suc q) fs best best_f
      | None \<Rightarrow> scan_best (Suc q) fs best best_f)"

definition pick :: "wfq \<Rightarrow> nat option \<times> wfq" where
  "pick w =
     (let (best, best_f) = scan_best 0 (finish w) None u64_max
      in case best of
           None \<Rightarrow> (None, w)
         | Some q \<Rightarrow>
             (Some q, w\<lparr>finish := (finish w)[q := None],
                        virtual_time := max (virtual_time w) best_f,
                        served := (served w)[q := served w ! q + 1],
                        served_cost := (served_cost w)
                          [q := sat_add (served_cost w ! q) (pending_cost w ! q)],
                        pending_cost := (pending_cost w)[q := 0]\<rparr>))"

definition has_pending :: "wfq \<Rightarrow> bool" where
  "has_pending w = list_ex (\<lambda>f. f \<noteq> None) (finish w)"

definition wfq_stats :: "wfq \<Rightarrow> nat list \<times> nat list" where
  "wfq_stats w = (served w, served_cost w)"

section \<open>Quotas\<close>

datatype limit_kind = SoftSpace | HardSpace | SoftInode | HardInode

record quota_spec =
  soft_space :: "nat option"
  hard_space :: "nat option"
  soft_inodes :: "nat option"
  hard_inodes :: "nat option"
  grace_ns :: nat

fun axis_ok :: "nat option \<Rightarrow> nat option \<Rightarrow> bool" where
  "axis_ok (Some s) (Some h) = (s \<le> h \<and> 0 < h)"
| "axis_ok (Some s) None = True"
| "axis_ok None (Some h) = (0 < h)"
| "axis_ok None None = True"

definition validate :: "quota_spec \<Rightarrow> bool" where
  "validate q = (axis_ok (soft_space q) (hard_space q) \<and> axis_ok (soft_inodes q) (hard_inodes q))"

record usage =
  used_bytes :: nat
  used_inodes :: nat
  soft_space_since :: "nat option"
  soft_inodes_since :: "nat option"

definition usage_default :: usage where
  "usage_default = \<lparr>used_bytes = 0, used_inodes = 0, soft_space_since = None, soft_inodes_since = None\<rparr>"

datatype quota_decision = Allow | AllowWarn limit_kind | Deny limit_kind

record denial =
  denial_namespace :: nat
  denial_kind :: limit_kind
  at_ns :: nat
  requested_bytes :: nat
  denial_used :: nat
  denial_hard :: "nat option"

record quota_table =
  specs :: "nat \<rightharpoonup> quota_spec \<times> usage"
  denials :: "denial list"

definition table_new :: quota_table where
  "table_new = \<lparr>specs = Map.empty, denials = []\<rparr>"

definition clear_trip :: "nat option \<Rightarrow> nat \<Rightarrow> nat option \<Rightarrow> nat option" where
  "clear_trip soft used since =
     (case soft of Some s \<Rightarrow> if used \<le> s then None else since | None \<Rightarrow> None)"

definition set_spec :: "nat \<Rightarrow> quota_spec \<Rightarrow> quota_table \<Rightarrow> bool \<times> quota_table" where
  "set_spec ns spec t =
     (if \<not> validate spec then (False, t)
      else let u = (case specs t ns of Some (s, u) \<Rightarrow> u | None \<Rightarrow> usage_default)
           in (True, t\<lparr>specs := (specs t)(ns \<mapsto>
                (spec, u\<lparr>soft_space_since :=
                            clear_trip (soft_space spec) (used_bytes u) (soft_space_since u),
                         soft_inodes_since :=
                            clear_trip (soft_inodes spec) (used_inodes u) (soft_inodes_since u)\<rparr>))\<rparr>))"

definition over :: "nat option \<Rightarrow> nat \<Rightarrow> nat \<Rightarrow> bool" where
  "over limit used extra = (case limit of Some l \<Rightarrow> l < sat_add used extra | None \<Rightarrow> False)"

definition past_grace :: "nat option \<Rightarrow> nat \<Rightarrow> nat \<Rightarrow> bool" where
  "past_grace since now grace =
     (grace < sat_sub now (case since of Some s \<Rightarrow> s | None \<Rightarrow> now) \<and> 0 < grace)"

definition evaluate :: "nat \<Rightarrow> nat \<Rightarrow> nat \<Rightarrow> nat \<Rightarrow> quota_table \<Rightarrow> quota_decision" where
  "evaluate ns now bytes inodes t =
     (case specs t ns of
        None \<Rightarrow> Allow
      | Some (spec, u) \<Rightarrow>
          if over (hard_space spec) (used_bytes u) bytes then Deny HardSpace
          else if over (hard_inodes spec) (used_inodes u) inodes then Deny HardInode
          else if over (soft_space spec) (used_bytes u) bytes
          then (if past_grace (soft_space_since u) now (grace_ns spec) then Deny SoftSpace
                else AllowWarn SoftSpace)
          else if over (soft_inodes spec) (used_inodes u) inodes
          then (if past_grace (soft_inodes_since u) now (grace_ns spec) then Deny SoftInode
                else AllowWarn SoftInode)
          else Allow)"

definition trip :: "nat option \<Rightarrow> nat \<Rightarrow> nat \<Rightarrow> nat option \<Rightarrow> nat option" where
  "trip soft used now since =
     (case soft of Some s \<Rightarrow> if s < used \<and> since = None then Some now else since | None \<Rightarrow> since)"

definition charge :: "nat \<Rightarrow> nat \<Rightarrow> nat \<Rightarrow> nat \<Rightarrow> quota_table \<Rightarrow> quota_table" where
  "charge ns now bytes inodes t =
     (case specs t ns of
        None \<Rightarrow> t
      | Some (spec, u) \<Rightarrow>
          let ub = sat_add (used_bytes u) bytes; ui = sat_add (used_inodes u) inodes
          in t\<lparr>specs := (specs t)(ns \<mapsto>
               (spec, u\<lparr>used_bytes := ub, used_inodes := ui,
                        soft_space_since := trip (soft_space spec) ub now (soft_space_since u),
                        soft_inodes_since := trip (soft_inodes spec) ui now (soft_inodes_since u)\<rparr>))\<rparr>)"

definition untrip :: "nat option \<Rightarrow> nat \<Rightarrow> nat option \<Rightarrow> nat option" where
  "untrip soft used since =
     (case soft of Some s \<Rightarrow> if used \<le> s then None else since | None \<Rightarrow> since)"

definition release :: "nat \<Rightarrow> nat \<Rightarrow> nat \<Rightarrow> quota_table \<Rightarrow> quota_table" where
  "release ns bytes inodes t =
     (case specs t ns of
        None \<Rightarrow> t
      | Some (spec, u) \<Rightarrow>
          let ub = sat_sub (used_bytes u) bytes; ui = sat_sub (used_inodes u) inodes
          in t\<lparr>specs := (specs t)(ns \<mapsto>
               (spec, u\<lparr>used_bytes := ub, used_inodes := ui,
                        soft_space_since := untrip (soft_space spec) ub (soft_space_since u),
                        soft_inodes_since := untrip (soft_inodes spec) ui (soft_inodes_since u)\<rparr>))\<rparr>)"

definition record_denial :: "nat \<Rightarrow> limit_kind \<Rightarrow> nat \<Rightarrow> nat \<Rightarrow> quota_table \<Rightarrow> quota_table" where
  "record_denial ns kind now requested t =
     (let (ub, h) = (case specs t ns of Some (s, u) \<Rightarrow> (used_bytes u, hard_space s) | None \<Rightarrow> (0, None));
          ds = denials t @ [\<lparr>denial_namespace = ns, denial_kind = kind, at_ns = now,
                              requested_bytes = requested, denial_used = ub, denial_hard = h\<rparr>]
      in t\<lparr>denials := if 1024 < length ds then drop (length ds - 1024) ds else ds\<rparr>)"

definition namespaces :: "quota_table \<Rightarrow> nat list" where
  "namespaces t = sorted_list_of_set (dom (specs t))"

section \<open>Classes\<close>

lemma from_tag_tag: "from_tag (tag l) = Some l"
  by (cases l) (simp_all add: from_tag_def)

lemma class_slot_bound: "class_slot (class_new l s) < sched_slot_count"
  by (cases l) (auto simp: class_slot_def class_new_def sched_slot_count_def sub_levels_def)

lemma class_slot_inj:
  "class_slot (class_new l s) = class_slot (class_new l' s') \<longleftrightarrow> class_new l s = class_new l' s'"
  using mod_less_divisor [of 8 s] mod_less_divisor [of 8 s']
  by (cases l; cases l') (auto simp: class_slot_def class_new_def sub_levels_def)

section \<open>The token bucket keeps the configured rate\<close>

lemma refill_amount_bound: "1000000000 * refill_amount rate e \<le> rate * e"
proof -
  let ?s = "e div 1000000000" and ?f = "e mod 1000000000"
  have "refill_amount rate e \<le> rate * ?s + (rate * ?f) div 1000000000"
    unfolding refill_amount_def Let_def
    by (rule order_trans [OF sat_add_le]) (intro add_mono div_le_mono sat_mul_le)
  then have "1000000000 * refill_amount rate e
      \<le> 1000000000 * (rate * ?s) + 1000000000 * ((rate * ?f) div 1000000000)"
    by simp
  also have "\<dots> \<le> rate * (1000000000 * ?s) + rate * ?f"
    by simp
  also have "\<dots> = rate * e"
    by (simp add: distrib_left [symmetric] del: distrib_left_numeral)
  finally show ?thesis .
qed

lemma refill_fields [simp]:
  "rate_bytes (refill now b) = rate_bytes b" "rate_ops (refill now b) = rate_ops b"
  "burst_bytes (refill now b) = burst_bytes b" "burst_ops (refill now b) = burst_ops b"
  "last_refill (refill now b) = max (last_refill b) now"
  by (auto simp: refill_def Let_def)

lemma refill_tokens:
  "1000000000 * tokens_bytes (refill now b)
     \<le> 1000000000 * tokens_bytes b + rate_bytes b * (last_refill (refill now b) - last_refill b)"
  "1000000000 * tokens_ops (refill now b)
     \<le> 1000000000 * tokens_ops b + rate_ops b * (last_refill (refill now b) - last_refill b)"
proof -
  have a: "1000000000 * min (sat_add t (refill_amount r e)) m \<le> 1000000000 * t + r * e" for t r e m
    using refill_amount_bound [of r e] by (auto simp: sat_add_def min_def)
  show "1000000000 * tokens_bytes (refill now b)
      \<le> 1000000000 * tokens_bytes b + rate_bytes b * (last_refill (refill now b) - last_refill b)"
    and "1000000000 * tokens_ops (refill now b)
      \<le> 1000000000 * tokens_ops b + rate_ops b * (last_refill (refill now b) - last_refill b)"
    using a by (simp_all add: refill_def Let_def max_def)
qed

lemma try_charge_account:
  assumes "try_charge now bytes ops b = (ok, b')"
  shows "1000000000 * ((if ok then bytes else 0) + tokens_bytes b')
      \<le> 1000000000 * tokens_bytes b + rate_bytes b * (last_refill b' - last_refill b)"
    and "1000000000 * ((if ok then ops else 0) + tokens_ops b')
      \<le> 1000000000 * tokens_ops b + rate_ops b * (last_refill b' - last_refill b)"
    and "rate_bytes b' = rate_bytes b" "rate_ops b' = rate_ops b" "last_refill b \<le> last_refill b'"
  using assms refill_tokens [of now b] by (auto simp: try_charge_def Let_def split: if_splits)

lemma account_chain:
  fixes k :: nat
  assumes "k * (a + t1) \<le> k * t0 + r1" and "k * (a' + t2) \<le> k * t1 + r2" and "r1 + r2 = r"
  shows "k * (a + a' + t2) \<le> k * t0 + r"
  using assms by (simp add: distrib_left)

lemma admit_all_account:
  assumes "admit_all rs b = (tb, tops, b')"
  shows "1000000000 * (tb + tokens_bytes b')
      \<le> 1000000000 * tokens_bytes b + rate_bytes b * (last_refill b' - last_refill b) \<and>
    1000000000 * (tops + tokens_ops b')
      \<le> 1000000000 * tokens_ops b + rate_ops b * (last_refill b' - last_refill b) \<and>
    last_refill b \<le> last_refill b'"
  using assms
proof (induction rs arbitrary: b tb tops)
  case Nil
  then show ?case by simp
next
  case (Cons r rs)
  obtain now bytes ops where r: "r = (now, bytes, ops)" by (cases r)
  obtain ok b1 where c: "try_charge now bytes ops b = (ok, b1)" by fastforce
  obtain tb1 tops1 b2 where d: "admit_all rs b1 = (tb1, tops1, b2)" by (cases "admit_all rs b1")
  have t: "tb = (if ok then bytes else 0) + tb1" "tops = (if ok then ops else 0) + tops1" "b2 = b'"
    using Cons.prems by (simp_all add: r c d split: if_splits)
  note one = try_charge_account [OF c] and rest = Cons.IH [OF d [unfolded t(3)]]
  have "(last_refill b1 - last_refill b) + (last_refill b' - last_refill b1)
      = last_refill b' - last_refill b"
    using one(5) rest by linarith
  then have split: "r * (last_refill b1 - last_refill b) + r * (last_refill b' - last_refill b1)
      = r * (last_refill b' - last_refill b)" for r :: nat
    by (metis distrib_left)
  note r = rest [unfolded one(3,4)]
  show ?case
    unfolding t(1,2)
    using account_chain [OF one(1) r [THEN conjunct1] split]
      account_chain [OF one(2) r [THEN conjunct2, THEN conjunct1] split] one(5) r by simp
qed

text \<open>
  C16. The token bucket enforces its rates: whatever the sequence of requests and of clock readings,
  the bytes admitted (in billionths) never exceed the tokens the bucket started with plus the byte
  rate times the time that has passed, and likewise for operations.
\<close>

theorem admitted_within_rate:
  assumes "admit_all rs b = (tb, tops, b')"
  shows "1000000000 * tb \<le>
      1000000000 * tokens_bytes b + rate_bytes b * (last_refill b' - last_refill b) \<and>
    1000000000 * tops \<le>
      1000000000 * tokens_ops b + rate_ops b * (last_refill b' - last_refill b)"
  using admit_all_account [OF assms] by simp

theorem admitted_within_rate_witness:
  "\<exists>b'. admit_all [(0, 60, 1), (1000000000, 60, 1)]
      \<lparr>rate_bytes = 50, rate_ops = 10, burst_bytes = 100, burst_ops = 10, tokens_bytes = 100,
       tokens_ops = 10, last_refill = 0\<rparr> = (120, 2, b') \<and>
    1000000000 * 120 \<le> 1000000000 * 100 + 50 * (last_refill b' - (0 :: nat))"
proof -
  let ?b = "\<lparr>rate_bytes = 50, rate_ops = 10, burst_bytes = 100, burst_ops = 10, tokens_bytes = 100,
       tokens_ops = 10, last_refill = 0\<rparr>"
  let ?b1 = "?b\<lparr>tokens_bytes := 40, tokens_ops := 9\<rparr>"
  let ?b2 = "?b\<lparr>tokens_bytes := 30, tokens_ops := 9, last_refill := 1000000000\<rparr>"
  have amount: "refill_amount 50 1000000000 = 50" "refill_amount 10 1000000000 = 10"
    by (simp_all add: refill_amount_def sat_add_def sat_mul_def u64_max_def)
  have "try_charge 0 60 1 ?b = (True, ?b1)"
    by (simp add: try_charge_def refill_def)
  moreover have "try_charge 1000000000 60 1 ?b1 = (True, ?b2)"
    by (simp add: try_charge_def refill_def amount sat_add_def u64_max_def)
  ultimately have b': "admit_all [(0, 60, 1), (1000000000, 60, 1)] ?b = (120, 2, ?b2)" by simp
  from admitted_within_rate [OF b'] b' show ?thesis by (intro exI [of _ ?b2]) simp
qed

section \<open>Frequent polling starves a bucket\<close>

lemma refill_amount_zero: "rate * e < 1000000000 \<Longrightarrow> refill_amount rate e = 0"
  using refill_amount_bound [of rate e] by simp

text \<open>The requests of a client that asks every \<open>e\<close> nanoseconds.\<close>

fun polls :: "nat \<Rightarrow> nat \<Rightarrow> nat \<Rightarrow> nat \<Rightarrow> nat \<Rightarrow> (nat \<times> nat \<times> nat) list" where
  "polls 0 t e bytes ops = []"
| "polls (Suc n) t e bytes ops = (t + e, bytes, ops) # polls n (t + e) e bytes ops"

text \<open>
  C40. The refill moves its clock even when it adds nothing: a client of an empty bucket that asks so
  often that the rate yields less than one token per interval is refused for ever, however long
  it keeps asking.
\<close>

theorem frequent_polling_starves:
  assumes "tokens_bytes b = 0" and "rate_bytes b * e < 1000000000" and "0 < bytes"
  shows "fst (admit_all (polls n (last_refill b) e bytes ops) b) = 0"
  using assms
proof (induction n arbitrary: b)
  case 0
  then show ?case by simp
next
  case (Suc n)
  let ?b = "refill (last_refill b + e) b"
  have "tokens_bytes ?b = 0"
    using Suc.prems(1,2) by (simp add: refill_def Let_def refill_amount_zero sat_add_def)
  moreover have "last_refill ?b = last_refill b + e" by (simp add: max_def)
  ultimately have c: "try_charge (last_refill b + e) bytes ops b = (False, ?b)"
    using Suc.prems(3) by (simp add: try_charge_def)
  have "fst (admit_all (polls n (last_refill ?b) e bytes ops) ?b) = 0"
    by (rule Suc.IH) (use Suc.prems \<open>tokens_bytes ?b = 0\<close> in simp_all)
  then show ?case
    using c \<open>last_refill ?b = last_refill b + e\<close> by (simp split: prod.splits)
qed

theorem frequent_polling_starves_witness:
  "fst (admit_all (polls 1000000000 0 99999 1 0)
     \<lparr>rate_bytes = 10000, rate_ops = 10, burst_bytes = 100, burst_ops = 10, tokens_bytes = 0,
      tokens_ops = 10, last_refill = 0\<rparr>) = 0"
  using frequent_polling_starves [of "\<lparr>rate_bytes = 10000, rate_ops = 10, burst_bytes = 100,
      burst_ops = 10, tokens_bytes = 0, tokens_ops = 10, last_refill = 0\<rparr>" 99999 1 1000000000 0]
  by simp

section \<open>The scheduler serves the earliest head\<close>

definition earliest :: "nat option list \<Rightarrow> nat \<Rightarrow> nat \<Rightarrow> bool" where
  "earliest fs j f \<longleftrightarrow> j < length fs \<and> fs ! j = Some f \<and>
     (\<forall>i<length fs. \<forall>v. fs ! i = Some v \<longrightarrow> f \<le> v \<and> (i < j \<longrightarrow> f < v))"

lemma earliest_Cons:
  assumes "earliest fs j f" and "\<And>v. x = Some v \<Longrightarrow> f < v"
  shows "earliest (x # fs) (Suc j) f"
  using assms by (auto simp: earliest_def less_Suc_eq_0_disj)

lemma scan_best_spec:
  assumes "scan_best q fs best bf = (best', bf')"
  shows "best' = best \<and> bf' = bf \<and> (\<forall>v. Some v \<in> set fs \<longrightarrow> bf \<le> v) \<or>
    (\<exists>j. best' = Some (q + j) \<and> bf' < bf \<and> earliest fs j bf')"
  using assms
proof (induction fs arbitrary: q best bf)
  case Nil
  then show ?case by simp
next
  case (Cons f fs)
  show ?case
  proof (cases "\<exists>v. f = Some v \<and> v < bf")
    case True
    then obtain v where v: "f = Some v" "v < bf" by blast
    then have "scan_best (Suc q) fs (Some q) v = (best', bf')" using Cons.prems by simp
    then consider "best' = Some q" "bf' = v" "\<forall>w. Some w \<in> set fs \<longrightarrow> v \<le> w"
      | j where "best' = Some (Suc q + j)" "bf' < v" "earliest fs j bf'"
      using Cons.IH by blast
    then show ?thesis
    proof cases
      case 1
      then have "earliest (f # fs) 0 bf'" using v nth_mem by (fastforce simp: earliest_def less_Suc_eq_0_disj)
      then show ?thesis using 1 v by (intro disjI2 exI [of _ 0]) simp
    next
      case 2
      then have "earliest (f # fs) (Suc j) bf'" using v by (intro earliest_Cons) auto
      then show ?thesis using 2 v by (intro disjI2 exI [of _ "Suc j"]) simp
    qed
  next
    case False
    then have "scan_best (Suc q) fs best bf = (best', bf')"
      using Cons.prems by (auto split: option.splits if_splits)
    then consider "best' = best" "bf' = bf" "\<forall>w. Some w \<in> set fs \<longrightarrow> bf \<le> w"
      | j where "best' = Some (Suc q + j)" "bf' < bf" "earliest fs j bf'"
      using Cons.IH by blast
    then show ?thesis
    proof cases
      case 1
      then show ?thesis using False by (auto simp: not_less)
    next
      case 2
      then have "earliest (f # fs) (Suc j) bf'" using False by (intro earliest_Cons) auto
      then show ?thesis using 2 by (intro disjI2 exI [of _ "Suc j"]) simp
    qed
  qed
qed

lemma pick_None: "pick w = (None, w') \<Longrightarrow> w' = w \<and> (\<forall>v. Some v \<in> set (finish w) \<longrightarrow> u64_max \<le> v)"
  using scan_best_spec [of 0 "finish w" None u64_max]
  by (auto simp: pick_def Let_def split: prod.splits option.splits)

lemma pick_Some:
  assumes "pick w = (Some q, w')"
  shows "\<exists>f. earliest (finish w) q f \<and> finish w' = (finish w)[q := None] \<and>
    virtual_time w' = max (virtual_time w) f \<and> weights w' = weights w \<and>
    served w' = (served w)[q := served w ! q + 1]"
proof -
  obtain best bf where sb: "scan_best 0 (finish w) None u64_max = (best, bf)" by fastforce
  with assms have "best = Some q" by (auto simp: pick_def split: option.splits)
  with scan_best_spec [OF sb] have "earliest (finish w) q bf" by auto
  with assms sb \<open>best = Some q\<close> show ?thesis by (auto simp: pick_def)
qed

text \<open>
  The operations of a client that respects the array bounds and the width of the virtual clock.
\<close>

inductive wfq_step :: "wfq \<Rightarrow> wfq \<Rightarrow> bool" where
  pend: "q < length (finish w) \<Longrightarrow> virtual_time w + max cost 1 div weights w ! q < 2 ^ 64 \<Longrightarrow>
    wfq_step w (set_pending q cost w)"
| cancel: "q < length (finish w) \<Longrightarrow> wfq_step w (clear q w)"
| serve: "pick w = (r, w') \<Longrightarrow> wfq_step w w'"

definition clock_ok :: "wfq \<Rightarrow> bool" where
  "clock_ok w \<longleftrightarrow> (\<forall>v. Some v \<in> set (finish w) \<longrightarrow> virtual_time w \<le> v)"

lemma set_update_None: "Some v \<in> set (fs[q := None]) \<Longrightarrow> Some v \<in> set fs"
  using set_update_subset_insert [of fs q None] by auto

lemma wfq_step_clock:
  assumes "wfq_step w w'" and ok: "clock_ok w"
  shows "clock_ok w'"
  using assms(1)
proof cases
  case (pend q cost)
  have "Some v \<in> set ((finish w)[q := Some (wrap_add (virtual_time w) (max cost 1 div weights w ! q))]) \<Longrightarrow>
      virtual_time w \<le> v" for v
    using ok pend(3) set_update_subset_insert [of "finish w" q]
    by (fastforce simp: clock_ok_def wrap_add_def)
  then show ?thesis using pend(1) ok by (simp add: set_pending_def clock_ok_def Let_def)
next
  case (cancel q)
  then show ?thesis using ok by (auto simp: clear_def clock_ok_def dest: set_update_None)
next
  case (serve r)
  show ?thesis
  proof (cases r)
    case None
    then show ?thesis using serve pick_None ok by blast
  next
    case (Some q)
    then obtain f where f: "earliest (finish w) q f" "finish w' = (finish w)[q := None]"
      "virtual_time w' = max (virtual_time w) f" using serve pick_Some by blast
    have "f \<le> v" if "Some v \<in> set (finish w)" for v
      using f(1) that by (auto simp: earliest_def in_set_conv_nth)
    then show ?thesis using ok f(2,3) by (auto simp: clock_ok_def dest!: set_update_None)
  qed
qed

interpretation wfq_clock: guarded_machine "\<lambda>w. \<exists>ws. w = wfq_new ws" wfq_step clock_ok
proof
  show "\<exists>ws. w = wfq_new ws \<Longrightarrow> clock_ok w" for w
    by (auto simp: wfq_new_def clock_ok_def Let_def)
qed (rule wfq_step_clock)

text \<open>
  C17. Fair queuing: in every reachable scheduler state a served queue is one whose head has the
  earliest virtual finish time, the lowest index among equals; no head is ever left behind the
  virtual clock, and serving moves the clock exactly to the finish time of the served head.
\<close>

theorem wfq_serves_earliest:
  assumes "wfq_step\<^sup>*\<^sup>* (wfq_new ws) w" and "pick w = (Some q, w')"
  shows "\<exists>f. finish w ! q = Some f \<and> virtual_time w \<le> f \<and> virtual_time w' = f \<and>
    finish w' = (finish w)[q := None] \<and>
    {p. p < length (finish w) \<and> (\<exists>g. finish w ! p = Some g \<and> (g < f \<or> g = f \<and> p < q))} = {}"
proof -
  have ok: "clock_ok w" by (rule wfq_clock.reachable_inv [OF _ assms(1)]) auto
  obtain f where f: "earliest (finish w) q f" "finish w' = (finish w)[q := None]"
    "virtual_time w' = max (virtual_time w) f" using pick_Some [OF assms(2)] by blast
  have "virtual_time w \<le> f" using ok f(1) by (auto simp: clock_ok_def earliest_def in_set_conv_nth)
  then show ?thesis using f by (fastforce simp: earliest_def max_def)
qed

theorem wfq_serves_earliest_witness:
  "\<exists>w w'. wfq_step\<^sup>*\<^sup>* (wfq_new [1, 4]) w \<and> pick w = (Some 1, w') \<and> virtual_time w' = 2"
proof -
  let ?w1 = "set_pending 0 8 (wfq_new [1, 4])"
  let ?w = "set_pending 1 8 ?w1"
  have s1: "wfq_step (wfq_new [1, 4]) ?w1" by (rule pend) (simp_all add: wfq_new_def Let_def)
  have s2: "wfq_step ?w1 ?w"
    by (rule pend) (simp_all add: wfq_new_def set_pending_def Let_def wrap_add_def)
  have reach: "wfq_step\<^sup>*\<^sup>* (wfq_new [1, 4]) ?w"
    using s1 s2 by (meson converse_rtranclp_into_rtranclp rtranclp.rtrancl_refl)
  have "finish ?w = [Some 8, Some 2]"
    by (simp add: wfq_new_def set_pending_def Let_def wrap_add_def)
  moreover from this obtain w' where "pick ?w = (Some 1, w')"
    by (simp add: pick_def u64_max_def)
  ultimately show ?thesis using wfq_serves_earliest [OF reach] reach by fastforce
qed

section \<open>Quotas refuse what would pass a hard limit\<close>

text \<open>
  A charge the table allowed keeps the namespace within both hard limits, whatever the clock
  and the soft limits; a charge beyond a hard limit is refused with the limit that tripped; and
  a namespace without an envelope is never refused.
\<close>

theorem quota_hard_limits:
  "(specs t ns = None \<longrightarrow> evaluate ns now bytes inodes t = Allow) \<and>
   (specs t ns = Some (spec, u) \<and> (\<forall>k. evaluate ns now bytes inodes t \<noteq> Deny k) \<longrightarrow>
      (\<exists>u'. specs (charge ns now bytes inodes t) ns = Some (spec, u') \<and>
        (\<forall>h. hard_space spec = Some h \<longrightarrow> used_bytes u' \<le> h) \<and>
        (\<forall>h. hard_inodes spec = Some h \<longrightarrow> used_inodes u' \<le> h))) \<and>
   (specs t ns = Some (spec, u) \<and> over (hard_space spec) (used_bytes u) bytes \<longrightarrow>
      evaluate ns now bytes inodes t = Deny HardSpace)"
  by (auto simp: evaluate_def charge_def over_def Let_def split: if_splits option.splits)

theorem quota_hard_limits_witness:
  "evaluate 7 0 5 1 (table_new\<lparr>specs := [7 \<mapsto> (\<lparr>soft_space = Some 10, hard_space = Some 12,
      soft_inodes = None, hard_inodes = None, grace_ns = 0\<rparr>, usage_default\<lparr>used_bytes := 8\<rparr>)]\<rparr>)
    = Deny HardSpace"
  by (rule quota_hard_limits [THEN conjunct2, THEN conjunct2, rule_format])
    (auto simp: over_def sat_add_def u64_max_def)

lemma denials_bounded:
  "length (denials t) \<le> 1024 \<Longrightarrow> length (denials (record_denial ns k now r t)) \<le> 1024"
  by (auto simp: record_denial_def Let_def split: prod.splits)

end
