(* ===== verification/Gc.thy ===== *)
theory Gc
  imports Qos "HOL-Library.Product_Lexorder"
begin

text \<open>
  Space reclamation: the planner of \<^verbatim>\<open>src/crates/lionfs/src/gc/mod.rs\<close> and the execution loop of
  \<^verbatim>\<open>src/crates/lionfs/src/wiring/gc_loop.rs\<close> that carries its plans out.

  The planner is a function of a segment census and the accounting of the pool. Its cost model
  computes in \<open>u128\<close>, here \<open>nat\<close> with the reductions modulo \<open>2 ^ 128\<close> written where an unchecked
  product or shift can exceed the type. The trait \<open>RelocationSink\<close>, which the transaction layer
  implements, is a parameter: a record of the four operations the loop calls on an abstract state.
\<close>

section \<open>The planner\<close>

definition default_kick_pct :: nat where
  "default_kick_pct = 25"

definition default_aggressive_pct :: nat where
  "default_aggressive_pct = 10"

record segment_stat =
  segment_id :: nat
  total_bytes :: nat
  live_bytes :: nat
  age_ns :: nat
  write_cycles :: nat

definition freeable_bytes :: "segment_stat \<Rightarrow> nat" where
  "freeable_bytes s = sat_sub (total_bytes s) (live_bytes s)"

definition live_bps :: "segment_stat \<Rightarrow> nat" where
  "live_bps s = (if total_bytes s = 0 then 0 else sat_mul (live_bytes s) 10000 div total_bytes s)"

record gc_config =
  kick_pct :: nat
  aggressive_pct :: nat
  wear_bps_per_100_cycles :: nat
  age_half_life_ns :: nat
  max_segments_per_plan :: nat

definition gc_config_default :: gc_config where
  "gc_config_default =
     \<lparr>kick_pct = default_kick_pct, aggressive_pct = default_aggressive_pct,
      wear_bps_per_100_cycles = 8, age_half_life_ns = 5 * 24 * 3600 * 1000000000,
      max_segments_per_plan = 12\<rparr>"

datatype gc_urgency = Idle | Background | Aggressive

record gc_plan =
  urgency :: gc_urgency
  segments :: "nat list"
  estimated_copy_bytes :: nat
  estimated_reclaimed_bytes :: nat

definition score_benefit :: "gc_config \<Rightarrow> segment_stat \<Rightarrow> nat" where
  "score_benefit c s =
     (let age_mult = 2 ^ 32; half_life = max (age_half_life_ns c) 1;
          age_num = min (age_mult + age_ns s * age_mult div half_life) (2 ^ 128 - 1)
      in (freeable_bytes s * age_num) mod 2 ^ 128 div 2 ^ 32)"

definition score_cost :: "gc_config \<Rightarrow> segment_stat \<Rightarrow> nat" where
  "score_cost c s =
     (let wear_bps = sat_mul (write_cycles s) (wear_bps_per_100_cycles c) div 100;
          cost_mult = 2 ^ 32 + wear_bps * 2 ^ 32 div 10000
      in (2 * live_bytes s * cost_mult) mod 2 ^ 128 div 2 ^ 32)"

definition score :: "gc_config \<Rightarrow> segment_stat \<Rightarrow> bool \<Rightarrow> nat" where
  "score c s aggressive =
     (if freeable_bytes s = 0 then 0
      else if aggressive then freeable_bytes s
      else if score_cost c s = 0 then u64_max div 2
      else min ((score_benefit c s * 2 ^ 20) mod 2 ^ 128 div score_cost c s) (u64_max div 2))"

definition plan_urgency :: "gc_config \<Rightarrow> nat \<Rightarrow> nat \<Rightarrow> gc_urgency" where
  "plan_urgency c tot free =
     (let free_bps = sat_mul free 10000 div tot; free_pct = (free_bps div 100) mod 256
      in if kick_pct c \<le> free_pct then Idle
         else if free_pct < aggressive_pct c then Aggressive else Background)"

definition rank_segments :: "gc_config \<Rightarrow> bool \<Rightarrow> segment_stat list \<Rightarrow> segment_stat list" where
  "rank_segments c aggressive stats =
     map snd (sort_key (\<lambda>(sc, s). (- int sc, segment_id s))
       (map (\<lambda>s. (score c s aggressive, s)) (filter (\<lambda>s. 0 < freeable_bytes s) stats)))"

definition plan :: "gc_config \<Rightarrow> segment_stat list \<Rightarrow> nat \<Rightarrow> nat \<Rightarrow> gc_plan option" where
  "plan c stats pool_total pool_free =
     (if pool_total = 0 then None
      else let u = plan_urgency c pool_total pool_free
        in if u = Idle then None
           else let ranked = rank_segments c (u = Aggressive) stats
             in if ranked = [] then None
                else let chosen = take (max_segments_per_plan c) ranked
                  in Some \<lparr>urgency = u, segments = map segment_id chosen,
                       estimated_copy_bytes =
                         foldl (\<lambda>acc s. sat_add acc (2 * live_bytes s mod 2 ^ 64)) 0 chosen,
                       estimated_reclaimed_bytes =
                         foldl (\<lambda>acc s. sat_add acc (freeable_bytes s)) 0 chosen\<rparr>)"

record reclaim_event =
  ev_segment_id :: nat
  ev_freed_bytes :: nat
  ev_at_ns :: nat

section \<open>The execution loop\<close>

record 's relocation_sink =
  census :: "'s \<Rightarrow> segment_stat list"
  pool_bytes :: "'s \<Rightarrow> nat \<times> nat"
  evacuate :: "'s \<Rightarrow> nat \<Rightarrow> (string + nat) \<times> 's"
  record_reclaim :: "'s \<Rightarrow> reclaim_event \<Rightarrow> 's"

record gc_qos =
  qos_level :: io_level
  qos_unlimited :: bool

definition gc_qos_from :: "gc_urgency \<Rightarrow> gc_qos" where
  "gc_qos_from u = \<lparr>qos_level = Bulk, qos_unlimited = (u = Aggressive)\<rparr>"

record gc_step_report =
  planned :: bool
  segments_relocated :: "nat list"
  bytes_reclaimed :: nat
  copy_bytes :: nat
  report_qos :: "gc_qos option"
  report_error :: "string option"

definition report_default :: gc_step_report where
  "report_default = \<lparr>planned = False, segments_relocated = [], bytes_reclaimed = 0, copy_bytes = 0,
     report_qos = None, report_error = None\<rparr>"

record gc_loop =
  loop_config :: gc_config
  total_reclaimed :: nat
  rounds :: nat
  evacuations :: nat

definition gc_loop_new :: "gc_config \<Rightarrow> gc_loop" where
  "gc_loop_new c = \<lparr>loop_config = c, total_reclaimed = 0, rounds = 0, evacuations = 0\<rparr>"

fun evacuate_all :: "'s relocation_sink \<Rightarrow> nat \<Rightarrow> nat list \<Rightarrow>
    gc_loop \<times> 's \<times> gc_step_report \<Rightarrow> gc_loop \<times> 's \<times> gc_step_report" where
  "evacuate_all snk now [] st = st"
| "evacuate_all snk now (sid # ids) (l, s, r) =
     (case evacuate snk s sid of
        (Inr n, s') \<Rightarrow> evacuate_all snk now ids
          (l\<lparr>evacuations := wrap_add (evacuations l) 1\<rparr>,
           record_reclaim snk s' \<lparr>ev_segment_id = sid, ev_freed_bytes = n, ev_at_ns = now\<rparr>,
           r\<lparr>bytes_reclaimed := wrap_add (bytes_reclaimed r) n,
             segments_relocated := segments_relocated r @ [sid]\<rparr>)
      | (Inl e, s') \<Rightarrow> (l, s', r\<lparr>report_error := Some e\<rparr>))"

definition gc_step :: "'s relocation_sink \<Rightarrow> nat \<Rightarrow> gc_loop \<times> 's \<Rightarrow> gc_loop \<times> 's \<times> gc_step_report" where
  "gc_step snk now = (\<lambda>(l, s).
     let (tot, free) = pool_bytes snk s
     in case plan (loop_config l) (census snk s) tot free of
          None \<Rightarrow> (l, s, report_default)
        | Some p \<Rightarrow>
            let (l', s', r) = evacuate_all snk now (segments p)
                  (l, s, report_default\<lparr>planned := True, report_qos := Some (gc_qos_from (urgency p)),
                     copy_bytes := estimated_copy_bytes p\<rparr>)
            in (l'\<lparr>total_reclaimed := wrap_add (total_reclaimed l') (bytes_reclaimed r),
                  rounds := wrap_add (rounds l') 1\<rparr>, s', r))"

definition aggregate :: "gc_step_report \<Rightarrow> gc_step_report \<Rightarrow> gc_step_report" where
  "aggregate a r =
     a\<lparr>planned := planned a \<or> planned r,
       bytes_reclaimed := wrap_add (bytes_reclaimed a) (bytes_reclaimed r),
       copy_bytes := wrap_add (copy_bytes a) (copy_bytes r),
       segments_relocated := segments_relocated a @ segments_relocated r,
       report_qos := (if report_qos r \<noteq> None \<and> report_qos a = None then report_qos r else report_qos a),
       report_error := (if report_error r \<noteq> None then report_error r else report_error a)\<rparr>"

definition above_kick :: "'s relocation_sink \<Rightarrow> gc_config \<Rightarrow> 's \<Rightarrow> bool" where
  "above_kick snk c s =
     (let (tot, free) = pool_bytes snk s in 0 < tot \<and> kick_pct c \<le> sat_mul free 100 div tot)"

fun run_rounds :: "'s relocation_sink \<Rightarrow> nat \<Rightarrow> nat \<Rightarrow> gc_loop \<times> 's \<times> gc_step_report \<Rightarrow>
    gc_loop \<times> 's \<times> gc_step_report" where
  "run_rounds snk now 0 st = st"
| "run_rounds snk now (Suc k) (l, s, a) =
     (let (l', s', r) = gc_step snk now (l, s); a' = aggregate a r
      in if report_error r \<noteq> None then (l', s', a')
         else if \<not> planned r then (l', s', a')
         else if above_kick snk (loop_config l) s' then (l', s', a')
         else run_rounds snk now k (l', s', a'))"

definition run_to_health :: "'s relocation_sink \<Rightarrow> nat \<Rightarrow> nat \<Rightarrow> gc_loop \<times> 's \<Rightarrow>
    gc_loop \<times> 's \<times> gc_step_report" where
  "run_to_health snk now max_rounds = (\<lambda>(l, s). run_rounds snk now max_rounds (l, s, report_default))"

section \<open>The ranking\<close>

lemma mset_rank: "mset (rank_segments c a stats) = mset (filter (\<lambda>s. 0 < freeable_bytes s) stats)"
  by (simp add: rank_segments_def image_mset.compositionality comp_def)

lemma set_rank: "set (rank_segments c a stats) = {s \<in> set stats. 0 < freeable_bytes s}"
  using mset_eq_setD [OF mset_rank] by auto

lemma sort_key_sorted_wrt:
  "sorted_wrt (\<lambda>x y. f x \<le> (f y :: 'b::linorder)) (sort_key f xs)"
  using sorted_sort_key [of f xs] by (simp add: sorted_wrt_map)

lemma rank_sorted:
  "sorted_wrt (\<lambda>x y. score c y a < score c x a \<or>
     score c y a = score c x a \<and> segment_id x \<le> segment_id y) (rank_segments c a stats)"
proof -
  let ?k = "\<lambda>(sc, s). (- int sc, segment_id s)"
  let ?xs = "map (\<lambda>s. (score c s a, s)) (filter (\<lambda>s. 0 < freeable_bytes s) stats)"
  have "sorted_wrt (\<lambda>x y. score c (snd y) a < score c (snd x) a \<or>
     score c (snd y) a = score c (snd x) a \<and> segment_id (snd x) \<le> segment_id (snd y)) (sort_key ?k ?xs)"
    by (rule sorted_wrt_mono_rel [OF _ sort_key_sorted_wrt [of ?k ?xs]]) auto
  then show ?thesis by (simp add: rank_segments_def sorted_wrt_map)
qed

lemma sat_sum:
  "a \<le> u64_max \<Longrightarrow> foldl (\<lambda>acc s. sat_add acc (g s)) a xs = min (a + (\<Sum>x\<leftarrow>xs. g x)) u64_max"
proof (induction xs arbitrary: a)
  case Nil
  then show ?case by simp
next
  case (Cons x xs)
  then show ?case by (auto simp: sat_add_def min_def)
qed

lemma plan_SomeD:
  assumes "plan c stats tot free = Some p"
  shows "urgency p = plan_urgency c tot free" "urgency p \<noteq> Idle" "0 < tot"
    "segments p = map segment_id (take (max_segments_per_plan c) (rank_segments c (urgency p = Aggressive) stats))"
    "rank_segments c (urgency p = Aggressive) stats \<noteq> []"
    "estimated_reclaimed_bytes p = min (\<Sum>s\<leftarrow>take (max_segments_per_plan c)
       (rank_segments c (urgency p = Aggressive) stats). freeable_bytes s) u64_max"
  using assms by (auto simp: plan_def Let_def sat_sum split: if_splits)


definition demo_census :: "segment_stat list" where
  "demo_census =
     [\<lparr>segment_id = 1, total_bytes = 100, live_bytes = 90, age_ns = 0, write_cycles = 0\<rparr>,
      \<lparr>segment_id = 2, total_bytes = 100, live_bytes = 100, age_ns = 0, write_cycles = 0\<rparr>,
      \<lparr>segment_id = 3, total_bytes = 100, live_bytes = 20, age_ns = 0, write_cycles = 0\<rparr>]"

lemma demo_plan:
  "plan gc_config_default demo_census 1000 50 =
     Some \<lparr>urgency = Aggressive, segments = [3, 1], estimated_copy_bytes = 220,
       estimated_reclaimed_bytes = 90\<rparr>"
  by (simp add: plan_def plan_urgency_def rank_segments_def demo_census_def gc_config_default_def
      freeable_bytes_def sat_sub_def sat_mul_def sat_add_def u64_max_def score_def Let_def
      default_kick_pct_def default_aggressive_pct_def)


section \<open>The cost model\<close>

lemma score_bound: "\<not> a \<Longrightarrow> score c s a \<le> u64_max div 2"
  by (simp add: score_def)

lemma benefit_exact:
  assumes "total_bytes s < 2 ^ 64" "age_ns s < 2 ^ 64" "2 ^ 33 \<le> age_half_life_ns c"
  shows "score_benefit c s = freeable_bytes s * (2 ^ 32 + age_ns s * 2 ^ 32 div age_half_life_ns c) div 2 ^ 32"
    and "score_benefit c s * 2 ^ 20 < 2 ^ 128"
proof -
  let ?q = "age_ns s * 2 ^ 32 div age_half_life_ns c"
  have "?q \<le> age_ns s * 2 ^ 32 div 2 ^ 33"
    by (rule div_le_mono2 [OF _ assms(3)]) simp
  also have "\<dots> \<le> 2 ^ 64 * 2 ^ 32 div 2 ^ 33"
    by (rule div_le_mono) (use assms(2) in simp)
  finally have q: "?q \<le> 2 ^ 63" by simp
  have fr: "freeable_bytes s < 2 ^ 64"
    using assms(1) by (simp add: freeable_bytes_def sat_sub_def)
  have n: "freeable_bytes s * (2 ^ 32 + ?q) \<le> 2 ^ 64 * (2 ^ 32 + 2 ^ 63)"
    using q fr by (intro mult_le_mono) auto
  then have lt: "freeable_bytes s * (2 ^ 32 + ?q) < 2 ^ 128" by simp
  have m: "max (age_half_life_ns c) 1 = age_half_life_ns c" using assms(3) by simp
  have c: "min (2 ^ 32 + ?q) (2 ^ 128 - 1) = 2 ^ 32 + ?q" using q by (simp add: min_def)
  show e: "score_benefit c s = freeable_bytes s * (2 ^ 32 + ?q) div 2 ^ 32"
    unfolding score_benefit_def Let_def m c mod_less [OF lt] by simp
  have "score_benefit c s \<le> 2 ^ 64 * (2 ^ 32 + 2 ^ 63) div 2 ^ 32"
    unfolding e by (rule div_le_mono [OF n])
  then show "score_benefit c s * 2 ^ 20 < 2 ^ 128" by simp
qed

lemma cost_exact:
  assumes "live_bytes s < 2 ^ 64" "write_cycles s < 2 ^ 32" "wear_bps_per_100_cycles c < 2 ^ 16"
  shows "score_cost c s = 2 * live_bytes s *
    (2 ^ 32 + write_cycles s * wear_bps_per_100_cycles c div 100 * 2 ^ 32 div 10000) div 2 ^ 32"
proof -
  let ?w = "write_cycles s * wear_bps_per_100_cycles c"
  have "?w \<le> 2 ^ 32 * 2 ^ 16" using assms by (intro mult_le_mono) auto
  then have w: "?w \<le> 2 ^ 48" by simp
  then have s: "sat_mul (write_cycles s) (wear_bps_per_100_cycles c) = ?w"
    by (simp add: sat_mul_def u64_max_def)
  have "?w div 100 * 2 ^ 32 div 10000 \<le> 2 ^ 48 div 100 * 2 ^ 32 div 10000"
    by (intro div_le_mono mult_le_mono1 w)
  then have "2 * live_bytes s * (2 ^ 32 + ?w div 100 * 2 ^ 32 div 10000) \<le> 2 * 2 ^ 64 * (2 ^ 32 + 2 ^ 61)"
    using assms(1) by (intro mult_le_mono add_left_mono) auto
  then have "2 * live_bytes s * (2 ^ 32 + ?w div 100 * 2 ^ 32 div 10000) < 2 ^ 128" by simp
  then show ?thesis
    unfolding score_cost_def Let_def s by simp
qed

text \<open>
  The background score orders segments as the policy says: of two segments within the stated
  ranges (sizes and ages in \<open>u64\<close>, fewer than \<open>2 ^ 32\<close> write cycles, a half-life of at least
  \<open>2 ^ 33\<close> ns), the one that frees at least as much, is at least as old, has at most as much live
  data to copy and at most as much wear scores at least as high; no intermediate product of the
  fixed-point computation overflows.
\<close>
theorem score_monotone:
  assumes r: "total_bytes s < 2 ^ 64" "age_ns s < 2 ^ 64" "live_bytes s < 2 ^ 64" "write_cycles s < 2 ^ 32"
    and r': "total_bytes t < 2 ^ 64" "age_ns t < 2 ^ 64" "live_bytes t < 2 ^ 64" "write_cycles t < 2 ^ 32"
    and cfg: "2 ^ 33 \<le> age_half_life_ns c" "wear_bps_per_100_cycles c < 2 ^ 16"
    and le: "freeable_bytes s \<le> freeable_bytes t" "age_ns s \<le> age_ns t"
      "live_bytes t \<le> live_bytes s" "write_cycles t \<le> write_cycles s"
  shows "score c s False \<le> score c t False"
proof -
  have b: "score_benefit c s \<le> score_benefit c t"
    unfolding benefit_exact(1) [OF r(1,2) cfg(1)] benefit_exact(1) [OF r'(1,2) cfg(1)]
    using le by (intro div_le_mono mult_le_mono add_left_mono) auto
  have k: "score_cost c t \<le> score_cost c s"
    unfolding cost_exact [OF r(3,4) cfg(2)] cost_exact [OF r'(3,4) cfg(2)]
    using le by (intro div_le_mono mult_le_mono add_left_mono) auto
  have e: "score_benefit c x * 2 ^ 20 mod 2 ^ 128 = score_benefit c x * 2 ^ 20"
    if "total_bytes x < 2 ^ 64" "age_ns x < 2 ^ 64" for x
    using benefit_exact(2) [OF that cfg(1)] by simp
  show ?thesis
  proof (cases "freeable_bytes s = 0 \<or> score_cost c t = 0")
    case True
    then show ?thesis using le score_bound [of False c s] by (auto simp: score_def)
  next
    case False
    then have "score_benefit c s * 2 ^ 20 div score_cost c s \<le> score_benefit c t * 2 ^ 20 div score_cost c t"
      using b k by (intro order.trans [OF div_le_mono2 div_le_mono]) auto
    with False k le show ?thesis
      unfolding score_def e [OF r(1,2)] e [OF r'(1,2)] by (auto simp: min_def)
  qed
qed

theorem score_monotone_witness:
  "score gc_config_default (demo_census ! 0) False \<le> score gc_config_default (demo_census ! 2) False"
  by (rule score_monotone)
    (simp_all add: demo_census_def gc_config_default_def freeable_bytes_def sat_sub_def)

section \<open>Watermarks\<close>

lemma plan_None_iff:
  "plan c stats tot free = None \<longleftrightarrow>
     tot = 0 \<or> plan_urgency c tot free = Idle \<or> (\<forall>s\<in>set stats. freeable_bytes s = 0)"
proof -
  have "rank_segments c a stats = [] \<longleftrightarrow> (\<forall>s\<in>set stats. freeable_bytes s = 0)" for a
    using set_rank [of c a stats] by (auto simp del: set_empty simp flip: set_empty)
  then show ?thesis by (auto simp: plan_def Let_def)
qed

lemma urgency_exact:
  assumes "free \<le> tot" "free * 10000 \<le> u64_max" "0 < tot"
  shows "plan_urgency c tot free =
    (if kick_pct c \<le> free * 100 div tot then Idle
     else if free * 100 div tot < aggressive_pct c then Aggressive else Background)"
proof -
  have e: "free * 10000 div tot div 100 = free * 100 div tot"
    using div_mult2_eq [of "free * 100 * 100" tot 100] by (simp add: mult.commute)
  have "free * 100 div tot \<le> 100"
    using div_le_mono [of "free * 100" "tot * 100" tot] assms by simp
  then have "free * 100 div tot mod 256 = free * 100 div tot" by simp
  then show ?thesis
    using assms(2) by (simp add: plan_urgency_def Let_def sat_mul_def min_absorb1 e)
qed

text \<open>
  The free percentage saturates on large pools: in a pool of \<open>2 ^ 55\<close> bytes (32 PiB) or more
  the product of the free bytes and 10000 is clamped to \<open>u64::MAX\<close>, so with the default
  watermarks any census with one reclaimable segment yields an aggressive plan, whatever the free
  space, a completely empty pool included.
\<close>
theorem large_pool_always_aggressive:
  assumes "2 ^ 55 \<le> tot" and "s \<in> set stats" and "0 < freeable_bytes s"
  shows "\<exists>p. plan gc_config_default stats tot free = Some p \<and> urgency p = Aggressive"
proof -
  have "sat_mul free 10000 div tot \<le> u64_max div 2 ^ 55"
    using assms(1) by (intro order.trans [OF div_le_mono2 div_le_mono]) auto
  then have "sat_mul free 10000 div tot \<le> 511" by (simp add: u64_max_def)
  then have u: "plan_urgency gc_config_default tot free = Aggressive"
    by (simp add: plan_urgency_def Let_def gc_config_default_def default_kick_pct_def
        default_aggressive_pct_def)
  have "plan gc_config_default stats tot free \<noteq> None"
    using assms by (auto simp: plan_None_iff u)
  then show ?thesis using plan_SomeD(1) u by fastforce
qed

theorem large_pool_always_aggressive_witness:
  "\<exists>p. plan gc_config_default demo_census (2 ^ 55) (2 ^ 55) = Some p \<and> urgency p = Aggressive"
  by (rule large_pool_always_aggressive [of _ "demo_census ! 0"])
    (simp_all add: demo_census_def freeable_bytes_def sat_sub_def)

section \<open>Rounds\<close>

definition reclaimable :: "'s relocation_sink \<Rightarrow> 's \<Rightarrow> nat" where
  "reclaimable snk s = length (filter (\<lambda>x. 0 < freeable_bytes x) (census snk s))"

definition sink_ok :: "'s relocation_sink \<Rightarrow> bool" where
  "sink_ok snk \<longleftrightarrow> (\<forall>s sid n s' ev. evacuate snk s sid = (Inr n, s') \<longrightarrow>
     reclaimable snk (record_reclaim snk s' ev) \<le> reclaimable snk s \<and>
     ((\<exists>x\<in>set (census snk s). 0 < freeable_bytes x \<and> segment_id x = sid) \<longrightarrow>
        reclaimable snk (record_reclaim snk s' ev) < reclaimable snk s))"

lemma sink_okD:
  assumes "sink_ok snk" "evacuate snk s sid = (Inr n, s')"
  shows "reclaimable snk (record_reclaim snk s' ev) \<le> reclaimable snk s"
    and "\<lbrakk>x \<in> set (census snk s); 0 < freeable_bytes x; segment_id x = sid\<rbrakk> \<Longrightarrow>
      reclaimable snk (record_reclaim snk s' ev) < reclaimable snk s"
  using assms unfolding sink_ok_def by blast+

lemma evacuate_all_config:
  "evacuate_all snk now ids (l, s, r) = (l', s', r') \<Longrightarrow>
     loop_config l' = loop_config l \<and> planned r' = planned r"
  by (induction ids arbitrary: l s r) (auto split: prod.splits sum.splits)

lemma evacuate_all_le:
  assumes "sink_ok snk"
  shows "evacuate_all snk now ids (l, s, r) = (l', s', r') \<Longrightarrow> report_error r' = None \<Longrightarrow>
    reclaimable snk s' \<le> reclaimable snk s"
proof (induction ids arbitrary: l s r)
  case Nil
  then show ?case by simp
next
  case (Cons sid ids)
  obtain res s1 where e: "evacuate snk s sid = (res, s1)" by fastforce
  show ?case
  proof (cases res)
    case (Inl er)
    with Cons.prems e show ?thesis by auto
  next
    case (Inr n)
    with Cons.prems(1) e have "reclaimable snk s' \<le>
        reclaimable snk (record_reclaim snk s1 \<lparr>ev_segment_id = sid, ev_freed_bytes = n, ev_at_ns = now\<rparr>)"
      by (intro Cons.IH [OF _ Cons.prems(2)]) simp
    also have "\<dots> \<le> reclaimable snk s" using sink_okD(1) [OF assms] e Inr by simp
    finally show ?thesis .
  qed
qed

lemma evacuate_all_less:
  assumes ok: "sink_ok snk" and run: "evacuate_all snk now (sid # ids) (l, s, r) = (l', s', r')"
    and "report_error r' = None" and x: "x \<in> set (census snk s)" "0 < freeable_bytes x" "segment_id x = sid"
  shows "reclaimable snk s' < reclaimable snk s"
proof -
  obtain res s1 where e: "evacuate snk s sid = (res, s1)" by fastforce
  with run assms(3) obtain n where n: "res = Inr n" by (cases res) auto
  let ?s2 = "record_reclaim snk s1 \<lparr>ev_segment_id = sid, ev_freed_bytes = n, ev_at_ns = now\<rparr>"
  have "reclaimable snk s' \<le> reclaimable snk ?s2"
    using run e n by (intro evacuate_all_le [OF ok _ assms(3)]) simp
  also have "\<dots> < reclaimable snk s" using sink_okD(2) [OF ok] e n x by simp
  finally show ?thesis .
qed

lemma gc_step_progress:
  assumes ok: "sink_ok snk" and pos: "0 < max_segments_per_plan (loop_config l)"
    and step: "gc_step snk now (l, s) = (l', s', r)" and "planned r" "report_error r = None"
  shows "reclaimable snk s' < reclaimable snk s"
proof -
  obtain tot free where pb: "pool_bytes snk s = (tot, free)" by fastforce
  obtain p where p: "plan (loop_config l) (census snk s) tot free = Some p"
    using step \<open>planned r\<close> pb
    by (cases "plan (loop_config l) (census snk s) tot free") (auto simp: gc_step_def report_default_def)
  let ?rk = "rank_segments (loop_config l) (urgency p = Aggressive) (census snk s)"
  obtain x xs where rk: "?rk = x # xs" using plan_SomeD(5) [OF p] by (cases ?rk) auto
  obtain k where k: "max_segments_per_plan (loop_config l) = Suc k" using pos by (cases "max_segments_per_plan (loop_config l)") auto
  have sg: "segments p = segment_id x # map segment_id (take k xs)"
    using plan_SomeD(4) [OF p] by (simp add: rk k)
  have x: "x \<in> set (census snk s)" "0 < freeable_bytes x"
    using set_rank [of "loop_config l" "urgency p = Aggressive" "census snk s"] by (auto simp: rk)
  show ?thesis
    using step assms(5) by (auto simp: gc_step_def pb p sg split: prod.splits
        intro: evacuate_all_less [OF ok _ _ x refl] simp del: evacuate_all.simps)
qed

lemma gc_step_config: "gc_step snk now (l, s) = (l', s', r) \<Longrightarrow> loop_config l' = loop_config l"
  by (auto simp: gc_step_def split: prod.splits option.splits dest: evacuate_all_config)

lemma gc_step_idle:
  "gc_step snk now (l, s) = (l', s', r) \<Longrightarrow> \<not> planned r \<Longrightarrow>
     s' = s \<and> plan (loop_config l) (census snk s) (fst (pool_bytes snk s)) (snd (pool_bytes snk s)) = None"
  by (auto simp: gc_step_def split: prod.splits option.splits dest: evacuate_all_config)

lemma run_rounds_settles:
  assumes ok: "sink_ok snk"
  shows "\<lbrakk>0 < max_segments_per_plan (loop_config l); reclaimable snk s < k; report_error a = None;
      run_rounds snk now k (l, s, a) = (l', s', r)\<rbrakk> \<Longrightarrow>
    report_error r \<noteq> None \<or> above_kick snk (loop_config l) s' \<or>
    plan (loop_config l) (census snk s') (fst (pool_bytes snk s')) (snd (pool_bytes snk s')) = None"
proof (induction k arbitrary: l s a)
  case 0
  then show ?case by simp
next
  case (Suc k)
  obtain l1 s1 r1 where st: "gc_step snk now (l, s) = (l1, s1, r1)" by (metis prod_cases3)
  note cfg = gc_step_config [OF st]
  consider (err) "report_error r1 \<noteq> None" | (idle) "report_error r1 = None" "\<not> planned r1"
    | (kick) "report_error r1 = None" "planned r1" "above_kick snk (loop_config l) s1"
    | (more) "report_error r1 = None" "planned r1" "\<not> above_kick snk (loop_config l) s1"
    by blast
  then show ?case
  proof cases
    case more
    have "reclaimable snk s1 < reclaimable snk s"
      by (rule gc_step_progress [OF ok Suc.prems(1) st more(2,1)])
    moreover have "run_rounds snk now k (l1, s1, aggregate a r1) = (l', s', r)"
      using Suc.prems(4) more by (simp add: st Let_def)
    moreover have "report_error (aggregate a r1) = None"
      using Suc.prems(3) more(1) by (simp add: aggregate_def)
    ultimately show ?thesis
      using Suc.IH [of l1 s1 "aggregate a r1"] Suc.prems(1,2) by (simp add: cfg)
  qed (use Suc.prems(3,4) st gc_step_idle [OF st] in \<open>auto simp: Let_def aggregate_def\<close>)
qed


definition list_sink :: "(segment_stat list \<times> nat) relocation_sink" where
  "list_sink =
     \<lparr>census = fst, pool_bytes = (\<lambda>(xs, free). (1000, free)),
      evacuate = (\<lambda>(xs, free) sid.
        (Inr (sum_list (map freeable_bytes (filter (\<lambda>x. segment_id x = sid) xs))),
         filter (\<lambda>x. segment_id x \<noteq> sid) xs,
         free + sum_list (map freeable_bytes (filter (\<lambda>x. segment_id x = sid) xs)))),
      record_reclaim = (\<lambda>s ev. s)\<rparr>"

lemma list_sink_ok: "sink_ok list_sink"
proof -
  have "length (filter (\<lambda>x. 0 < freeable_bytes x) (filter (\<lambda>x. segment_id x \<noteq> sid) xs)) <
        length (filter (\<lambda>x. 0 < freeable_bytes x) xs)"
    if "x \<in> set xs" "0 < freeable_bytes x" "segment_id x = sid" for x sid and xs :: "segment_stat list"
    using length_filter_less [of x "filter (\<lambda>x. 0 < freeable_bytes x) xs" "\<lambda>x. segment_id x \<noteq> sid"] that
    by (simp add: conj_commute)
  moreover have "length (filter (\<lambda>x. 0 < freeable_bytes x) (filter (\<lambda>x. segment_id x \<noteq> sid) xs)) \<le>
        length (filter (\<lambda>x. 0 < freeable_bytes x) xs)" for sid and xs :: "segment_stat list"
    by (induction xs) auto
  ultimately show ?thesis
    unfolding sink_ok_def by (auto simp: reclaimable_def list_sink_def simp del: filter_filter)
qed


end
