(* ===== verification/Tx_Context.thy ===== *)
theory Tx_Context
  imports Prelude
begin

text \<open>
  Transactions and the context through which every operation reads and writes blocks:
  \<^verbatim>\<open>src/crates/lionfs/src/transaction\<close> (\<^verbatim>\<open>transaction.rs\<close>, \<^verbatim>\<open>commit.rs\<close>, \<^verbatim>\<open>rollback.rs\<close>, \<^verbatim>\<open>checkpoint.rs\<close>)
  and the cells of \<^verbatim>\<open>disk/block_io.rs\<close> that the context consults.

  A transaction buffers whole blocks in a map; a context reads through the active transaction, then the
  frozen groups that are still being committed (newest first), then the device. What the device
  returns for a block is a field of the modelled disk; a block copied into a buffer of another
  length panics, as \<open>copy_from_slice\<close> does. The interface \<open>block_store\<close> states what a client of
  the context relies on.
\<close>

section \<open>Transactions\<close>

definition block_size :: nat where
  "block_size = 4096"

datatype io_error = InvalidInput | OutOfMemory | DeviceError

datatype fault = Panicked | Failed io_error

record transaction =
  tx_id :: nat
  dirty_blocks :: "nat \<rightharpoonup> byte list"
  timestamp :: nat
  root_cells :: "nat \<rightharpoonup> nat"
  alloc_delta :: int

definition transaction_new :: "nat \<Rightarrow> nat \<Rightarrow> transaction" where
  "transaction_new i ts = \<lparr>tx_id = i, dirty_blocks = Map.empty, timestamp = ts,
     root_cells = Map.empty, alloc_delta = 0\<rparr>"

definition add_block :: "nat \<Rightarrow> byte list \<Rightarrow> transaction \<Rightarrow> transaction" where
  "add_block b data tx = tx\<lparr>dirty_blocks := (dirty_blocks tx)(b \<mapsto> data)\<rparr>"

record disk =
  disk_block :: "nat \<Rightarrow> io_error + byte list"
  live_barrier :: nat
  frozen_roots :: "nat list"

fun frozen_root_slot :: "nat \<Rightarrow> nat option" where
  "frozen_root_slot t = (if t = 1 then Some 0 else if t = 2 then Some 1
     else if t = 5 then Some 2 else None)"

definition frozen_root :: "disk \<Rightarrow> nat \<Rightarrow> nat option" where
  "frozen_root d t = (case frozen_root_slot t of None \<Rightarrow> None
     | Some slot \<Rightarrow> if frozen_roots d ! slot \<noteq> 0 then Some (frozen_roots d ! slot) else None)"

definition set_frozen_root :: "nat \<Rightarrow> nat \<Rightarrow> disk \<Rightarrow> disk" where
  "set_frozen_root t r d = (case frozen_root_slot t of None \<Rightarrow> d
     | Some slot \<Rightarrow> d\<lparr>frozen_roots := (frozen_roots d)[slot := r]\<rparr>)"

section \<open>The context\<close>

record tx_context =
  ctx_disk :: disk
  ctx_tx :: transaction
  pending :: "transaction list"
  alloc_cursor :: "nat option"
  meta_high_water :: nat
  cow_barrier :: nat

definition ctx_new :: "disk \<Rightarrow> transaction \<Rightarrow> tx_context" where
  "ctx_new d tx = \<lparr>ctx_disk = d, ctx_tx = tx, pending = [], alloc_cursor = None,
     meta_high_water = 0, cow_barrier = 0\<rparr>"

definition with_pending :: "transaction list \<Rightarrow> tx_context \<Rightarrow> tx_context" where
  "with_pending p c = c\<lparr>pending := p\<rparr>"

definition with_cow_barrier :: "nat \<Rightarrow> tx_context \<Rightarrow> tx_context" where
  "with_cow_barrier b c = c\<lparr>cow_barrier := b\<rparr>"

definition effective_cow_barrier :: "tx_context \<Rightarrow> nat" where
  "effective_cow_barrier c = max (cow_barrier c) (live_barrier (ctx_disk c))"

definition effective_root :: "tx_context \<Rightarrow> nat \<Rightarrow> nat \<Rightarrow> nat" where
  "effective_root c t dflt =
     (case root_cells (ctx_tx c) t of Some r \<Rightarrow> r
      | None \<Rightarrow> (case frozen_root (ctx_disk c) t of Some r \<Rightarrow> r | None \<Rightarrow> dflt))"

definition set_root_cell :: "nat \<Rightarrow> nat \<Rightarrow> tx_context \<Rightarrow> tx_context" where
  "set_root_cell t r c =
     c\<lparr>ctx_tx := (ctx_tx c)\<lparr>root_cells := (root_cells (ctx_tx c))(t \<mapsto> r)\<rparr>,
       ctx_disk := set_frozen_root t r (ctx_disk c)\<rparr>"

definition copy_from_slice :: "byte list \<Rightarrow> fault + byte list" where
  "copy_from_slice data = (if length data = block_size then Inr data else Inl Panicked)"

fun search_pending :: "transaction list \<Rightarrow> nat \<Rightarrow> byte list option" where
  "search_pending [] b = None"
| "search_pending (p # ps) b = (case dirty_blocks p b of Some data \<Rightarrow> Some data | None \<Rightarrow> search_pending ps b)"

definition read_block :: "tx_context \<Rightarrow> nat \<Rightarrow> fault + byte list" where
  "read_block c b =
     (case dirty_blocks (ctx_tx c) b of Some data \<Rightarrow> copy_from_slice data
      | None \<Rightarrow> (case search_pending (rev (pending c)) b of Some data \<Rightarrow> copy_from_slice data
         | None \<Rightarrow> (case disk_block (ctx_disk c) b of Inr data \<Rightarrow> Inr data | Inl e \<Rightarrow> Inl (Failed e))))"

definition write_block :: "tx_context \<Rightarrow> nat \<Rightarrow> byte list \<Rightarrow> tx_context" where
  "write_block c b data = c\<lparr>ctx_tx := add_block b data (ctx_tx c)\<rparr>"

section \<open>Commit bookkeeping, rollback, checkpoints\<close>

record commit_summary =
  cs_tx_id :: nat
  cs_block_count :: nat
  cs_total_bytes :: nat

definition summarize :: "transaction \<Rightarrow> commit_summary" where
  "summarize tx = \<lparr>cs_tx_id = tx_id tx, cs_block_count = card (dom (dirty_blocks tx)),
     cs_total_bytes = (\<Sum>b\<in>dom (dirty_blocks tx). length (the (dirty_blocks tx b)))\<rparr>"

definition is_worth_committing :: "transaction \<Rightarrow> bool" where
  "is_worth_committing tx \<longleftrightarrow> dom (dirty_blocks tx) \<noteq> {}"

record rollback_report =
  rb_tx_id :: nat
  rb_discarded :: nat
  rb_reason :: string

definition rollback :: "transaction \<Rightarrow> string \<Rightarrow> rollback_report" where
  "rollback tx reason = \<lparr>rb_tx_id = tx_id tx, rb_discarded = card (dom (dirty_blocks tx)), rb_reason = reason\<rparr>"

record checkpoint =
  last_applied_generation :: nat
  journal_position :: nat

definition checkpoint_initial :: checkpoint where
  "checkpoint_initial = \<lparr>last_applied_generation = 0, journal_position = 0\<rparr>"

definition already_applied :: "checkpoint \<Rightarrow> nat \<Rightarrow> bool" where
  "already_applied c i \<longleftrightarrow> i \<le> last_applied_generation c"

definition advance :: "nat \<Rightarrow> nat \<Rightarrow> checkpoint \<Rightarrow> checkpoint" where
  "advance gen pos c =
     (if last_applied_generation c < gen
      then c\<lparr>last_applied_generation := gen, journal_position := pos\<rparr> else c)"

lemma write_block_fields [simp]:
  "ctx_disk (write_block c b data) = ctx_disk c" "pending (write_block c b data) = pending c"
  "alloc_cursor (write_block c b data) = alloc_cursor c"
  "meta_high_water (write_block c b data) = meta_high_water c"
  "cow_barrier (write_block c b data) = cow_barrier c"
  "alloc_delta (ctx_tx (write_block c b data)) = alloc_delta (ctx_tx c)"
  "root_cells (ctx_tx (write_block c b data)) = root_cells (ctx_tx c)"
  by (simp_all add: write_block_def add_block_def)

section \<open>Layered reads\<close>

lemma search_pending_append:
  "search_pending (ps @ qs) b = (case search_pending ps b of Some d \<Rightarrow> Some d | None \<Rightarrow> search_pending qs b)"
  by (induction ps) (auto split: option.splits)

lemma search_pending_rev:
  "search_pending (rev ps) b = foldl (++) Map.empty (map dirty_blocks ps) b"
proof (induction ps rule: rev_induct)
  case Nil
  then show ?case by simp
next
  case (snoc p ps)
  then show ?case by (simp add: map_add_def split: option.splits)
qed

text \<open>
  The blocks a context has buffered, as one map: the frozen groups in order of age, overridden by
  the active transaction.
\<close>
definition overlay :: "tx_context \<Rightarrow> nat \<rightharpoonup> byte list" where
  "overlay c = foldl (++) Map.empty (map dirty_blocks (pending c @ [ctx_tx c]))"

lemma read_block_overlay:
  "read_block c b = (case overlay c b of Some data \<Rightarrow> copy_from_slice data
     | None \<Rightarrow> (case disk_block (ctx_disk c) b of Inr data \<Rightarrow> Inr data | Inl e \<Rightarrow> Inl (Failed e)))"
  by (simp add: read_block_def overlay_def search_pending_rev map_add_def split: option.splits)

lemma overlay_write: "overlay (write_block c b data) = (overlay c)(b \<mapsto> data)"
  by (simp add: overlay_def write_block_def add_block_def)

section \<open>The contract of a block store\<close>

text \<open>
  What the clients of the context rely on: a block that was written reads back, a write changes no
  other block, and a second write to a block replaces the first.
\<close>

locale block_store =
  fixes get :: "'c \<Rightarrow> nat \<Rightarrow> fault + byte list"
    and put :: "'c \<Rightarrow> nat \<Rightarrow> byte list \<Rightarrow> 'c"
  assumes read_write: "length data = block_size \<Longrightarrow>
      get (put c b data) x = (if x = b then Inr data else get c x)"
    and write_write: "put (put c b data) b data' = put c b data'"
begin

lemma read_writes:
  "\<forall>(b, data)\<in>set ws. length data = block_size \<Longrightarrow>
     get (foldl (\<lambda>c (b, data). put c b data) c ws) x =
       (case map_of (rev ws) x of Some data \<Rightarrow> Inr data | None \<Rightarrow> get c x)"
proof (induction ws arbitrary: c)
  case Nil
  then show ?case by simp
next
  case (Cons w ws)
  obtain b data where w: "w = (b, data)" by (cases w)
  then show ?case using Cons by (simp add: read_write map_add_def split: option.splits)
qed

end

interpretation ctx_store: block_store read_block write_block
proof
  fix c b x and data data' :: "byte list"
  show "length data = block_size \<Longrightarrow>
      read_block (write_block c b data) x = (if x = b then Inr data else read_block c x)"
    by (simp add: read_block_overlay overlay_write copy_from_slice_def cong: option.case_cong)
  show "write_block (write_block c b data) b data' = write_block c b data'"
    by (simp add: write_block_def add_block_def)
qed

lemma effective_root_set: "effective_root (set_root_cell t r c) t dflt = r"
  by (simp add: effective_root_def set_root_cell_def)

lemma frozen_root_after_set:
  assumes "length (frozen_roots d) = 3" and "frozen_root_slot t = Some slot" and "r \<noteq> 0"
  shows "frozen_root (set_frozen_root t r d) u = (if u = t then Some r else frozen_root d u)"
proof -
  have "slot < 3" using assms(2) by (auto split: if_splits)
  then show ?thesis
    using assms by (auto simp: frozen_root_def set_frozen_root_def nth_list_update split: if_splits)
qed

text \<open>
  C23. Reads through a context see the newest version of a block: after freezing the active transaction
  into the pending groups and starting an empty one, every block reads as before; and a
  sequence of whole-block writes is seen as the map it denotes over what was there.
\<close>
theorem reads_see_newest:
  assumes "\<forall>(b, data)\<in>set ws. length data = block_size"
  shows "read_block (foldl (\<lambda>c (b, data). write_block c b data) c ws) x =
      (case map_of (rev ws) x of Some data \<Rightarrow> Inr data | None \<Rightarrow> read_block c x) \<and>
    read_block (c\<lparr>pending := pending c @ [ctx_tx c], ctx_tx := transaction_new i ts\<rparr>) x = read_block c x"
  using ctx_store.read_writes [OF assms, of c x]
  by (simp add: read_block_overlay overlay_def transaction_new_def cong: option.case_cong)

definition blank_disk :: disk where
  "blank_disk = \<lparr>disk_block = (\<lambda>b. Inr (replicate block_size 0)), live_barrier = 0, frozen_roots = [0, 0, 0]\<rparr>"

definition blank_ctx :: tx_context where
  "blank_ctx = ctx_new blank_disk (transaction_new 1 0)"

theorem reads_see_newest_witness:
  "read_block (foldl (\<lambda>c (b, data). write_block c b data) blank_ctx
     [(7, replicate block_size 1), (7, replicate block_size 2)]) 7 = Inr (replicate block_size 2)"
  using reads_see_newest [of "[(7, replicate block_size 1), (7, replicate block_size 2)]" blank_ctx 7 1 0]
  by simp

end
