(* ===== verification/Block_Bitmap.thy ===== *)
theory Block_Bitmap
  imports Tx_Context
begin

text \<open>
  The block allocator: \<^verbatim>\<open>src/crates/lionfs/src/allocator/bitmap.rs\<close> and the search hint of
  \<^verbatim>\<open>allocator/locality.rs\<close>.

  The allocation bitmap of a block group is a run of blocks read and written through the transaction
  context; bit \<open>b mod 8\<close> of byte \<open>b div 8\<close> says whether block \<open>b\<close> is in use. The nested loops over
  bitmap blocks, bytes and bits are one function each. Block numbers are \<open>nat\<close>: all sums are of
  block numbers of one device. The text of the error messages is left out.
\<close>

section \<open>Changing a run of bits\<close>

definition bits_per_block :: nat where
  "bits_per_block = block_size * 8"

definition change_bit :: "byte list \<Rightarrow> nat \<Rightarrow> bool \<Rightarrow> byte list" where
  "change_bit buf block on =
     (let byte_idx = block mod bits_per_block div 8; bit_idx = block mod 8
      in buf[byte_idx := if on then or (buf ! byte_idx) (push_bit bit_idx 1)
                         else and (buf ! byte_idx) (not (push_bit bit_idx 1))])"

fun modify_loop :: "nat \<Rightarrow> bool \<Rightarrow> nat \<Rightarrow> nat \<Rightarrow> nat \<Rightarrow> byte list \<Rightarrow> bool \<Rightarrow> tx_context \<Rightarrow>
    (fault + nat \<times> byte list \<times> bool) \<times> tx_context" where
  "modify_loop bs on block 0 cur buf modified c = (Inr (cur, buf, modified), c)"
| "modify_loop bs on block (Suc k) cur buf modified c =
     (let bm_idx = block div bits_per_block
      in if bm_idx \<noteq> cur then
           let c1 = (if modified then write_block c (bs + cur) buf else c)
           in (case read_block c1 (bs + bm_idx) of
                 Inl e \<Rightarrow> (Inl e, c1)
               | Inr buf1 \<Rightarrow> modify_loop bs on (Suc block) k bm_idx (change_bit buf1 block on) True c1)
         else modify_loop bs on (Suc block) k cur (change_bit buf block on) True c)"

definition modify_blocks :: "tx_context \<Rightarrow> nat \<Rightarrow> nat \<Rightarrow> nat \<Rightarrow> bool \<Rightarrow> (fault + unit) \<times> tx_context" where
  "modify_blocks c bs start cnt on =
     (case modify_loop bs on start cnt u64_max (replicate block_size 0) False c of
        (Inl e, c') \<Rightarrow> (Inl e, c')
      | (Inr (cur, buf, modified), c') \<Rightarrow> (Inr (), if modified then write_block c' (bs + cur) buf else c'))"

definition mark_blocks_used :: "tx_context \<Rightarrow> nat \<Rightarrow> nat \<Rightarrow> nat \<Rightarrow> (fault + unit) \<times> tx_context" where
  "mark_blocks_used c bs start cnt = modify_blocks c bs start cnt True"

definition mark_blocks_free :: "tx_context \<Rightarrow> nat \<Rightarrow> nat \<Rightarrow> nat \<Rightarrow> (fault + unit) \<times> tx_context" where
  "mark_blocks_free c bs start cnt = modify_blocks c bs start cnt False"

definition add_delta :: "int \<Rightarrow> tx_context \<Rightarrow> tx_context" where
  "add_delta n c = c\<lparr>ctx_tx := (ctx_tx c)\<lparr>alloc_delta := alloc_delta (ctx_tx c) + n\<rparr>\<rparr>"

definition free_extents :: "tx_context \<Rightarrow> nat \<Rightarrow> nat \<Rightarrow> nat \<Rightarrow> (fault + unit) \<times> tx_context" where
  "free_extents c bs start cnt = mark_blocks_free (add_delta (- int cnt) c) bs start cnt"

fun count_loop :: "tx_context \<Rightarrow> nat \<Rightarrow> nat \<Rightarrow> nat \<Rightarrow> nat \<Rightarrow> nat \<Rightarrow> fault + nat" where
  "count_loop c bs remaining bm_idx acc 0 = Inr acc"
| "count_loop c bs remaining bm_idx acc (Suc fuel) =
     (if remaining = 0 then Inr acc
      else case read_block c (bs + bm_idx) of Inl e \<Rightarrow> Inl e
        | Inr buf \<Rightarrow>
            let now = min remaining bits_per_block
            in count_loop c bs (remaining - now) (Suc bm_idx)
                 (acc + length (filter (\<lambda>i. and (buf ! (i div 8)) (push_bit (i mod 8) 1) = 0) [0..<now])) fuel)"

definition count_free_blocks :: "tx_context \<Rightarrow> nat \<Rightarrow> nat \<Rightarrow> fault + nat" where
  "count_free_blocks c bs total_blocks = count_loop c bs total_blocks 0 0 total_blocks"

section \<open>Searching for a free run\<close>

function scan_bits :: "byte \<Rightarrow> nat \<Rightarrow> nat \<Rightarrow> nat \<Rightarrow> nat \<Rightarrow> nat \<times> nat \<Rightarrow> nat + nat \<times> nat" where
  "scan_bits byt base bpg cnt bit_idx (run, run_start) =
     (if 8 \<le> bit_idx then Inr (run, run_start)
      else let absolute_block = base + bit_idx
        in if bpg \<le> absolute_block then Inr (run, run_start)
           else if and byt (push_bit bit_idx 1) = 0 then
             let run_start' = (if run = 0 then absolute_block else run_start)
             in if run + 1 = cnt then Inl run_start'
                else scan_bits byt base bpg cnt (Suc bit_idx) (run + 1, run_start')
           else scan_bits byt base bpg cnt (Suc bit_idx) (0, run_start))"
  by pat_completeness auto
termination by (relation "measure (\<lambda>(_, _, _, _, b, _). 8 - b)") auto

function scan_bytes :: "byte list \<Rightarrow> nat \<Rightarrow> nat \<Rightarrow> nat \<Rightarrow> nat \<Rightarrow> nat \<Rightarrow> nat \<times> nat \<Rightarrow> nat + nat \<times> nat" where
  "scan_bytes buf bm_idx bpg cnt byte_idx first_bit (run, run_start) =
     (if block_size \<le> byte_idx then Inr (run, run_start)
      else let byt = buf ! byte_idx
        in if byt = 0xFF then scan_bytes buf bm_idx bpg cnt (Suc byte_idx) 0 (0, run_start)
           else case scan_bits byt (bm_idx * bits_per_block + byte_idx * 8) bpg cnt first_bit (run, run_start) of
               Inl found \<Rightarrow> Inl found
             | Inr st \<Rightarrow> scan_bytes buf bm_idx bpg cnt (Suc byte_idx) 0 st)"
  by pat_completeness auto
termination by (relation "measure (\<lambda>(_, _, _, _, b, _, _). block_size - b)") auto

function scan_blocks :: "tx_context \<Rightarrow> nat \<Rightarrow> nat \<Rightarrow> nat \<Rightarrow> nat \<Rightarrow> nat \<Rightarrow> nat \<Rightarrow> nat \<Rightarrow> nat \<times> nat \<Rightarrow>
    fault + nat option" where
  "scan_blocks c bs bpg cnt tot bm_idx start_byte start_bit st =
     (if tot \<le> bm_idx then Inr None
      else case read_block c (bs + bm_idx) of Inl e \<Rightarrow> Inl e
        | Inr buf \<Rightarrow>
           (case scan_bytes buf bm_idx bpg cnt start_byte start_bit st of
              Inl found \<Rightarrow> Inr (Some found)
            | Inr st' \<Rightarrow> scan_blocks c bs bpg cnt tot (Suc bm_idx) 0 0 st'))"
  by pat_completeness auto
termination by (relation "measure (\<lambda>(_, _, _, _, t, b, _, _, _). t - b)") auto

definition bitmap_blocks :: "nat \<Rightarrow> nat" where
  "bitmap_blocks bpg = (bpg + bits_per_block - 1) div bits_per_block"

definition scan_free_run :: "tx_context \<Rightarrow> nat \<Rightarrow> nat \<Rightarrow> nat \<Rightarrow> nat \<Rightarrow> nat \<Rightarrow>
    (fault + nat option) \<times> tx_context" where
  "scan_free_run c bs bpg cnt from_bit mark_count =
     (let tot = bitmap_blocks bpg; start_bm_idx = min (from_bit div bits_per_block) (tot - 1);
          start_byte = from_bit mod bits_per_block div 8; start_bit = from_bit mod 8
      in case scan_blocks c bs bpg cnt tot start_bm_idx start_byte start_bit (0, 0) of
           Inl Panicked \<Rightarrow> (Inl Panicked, c)
         | Inl (Failed e) \<Rightarrow> (Inr None, c)
         | Inr None \<Rightarrow> (Inr None, c)
         | Inr (Some start) \<Rightarrow>
            (case mark_blocks_used c bs start mark_count of
               (Inl Panicked, c') \<Rightarrow> (Inl Panicked, c')
             | (Inl (Failed e), c') \<Rightarrow> (Inr None, c')
             | (Inr _, c') \<Rightarrow> (Inr (Some start), c')))"

section \<open>The allocation entry points\<close>

definition or_scan :: "(fault + nat option) \<times> tx_context \<Rightarrow>
    (tx_context \<Rightarrow> (fault + nat option) \<times> tx_context) \<Rightarrow> (fault + nat option) \<times> tx_context" where
  "or_scan r f = (case r of (Inr None, c) \<Rightarrow> f c | _ \<Rightarrow> r)"

definition finish_alloc :: "(nat \<Rightarrow> tx_context \<Rightarrow> tx_context) \<Rightarrow> nat \<Rightarrow>
    (fault + nat option) \<times> tx_context \<Rightarrow> (fault + nat) \<times> tx_context" where
  "finish_alloc upd n r =
     (case r of (Inl e, c) \<Rightarrow> (Inl e, c)
      | (Inr None, c) \<Rightarrow> (Inl (Failed OutOfMemory), c)
      | (Inr (Some start), c) \<Rightarrow> (Inr start, add_delta (int n) (upd start c)))"

definition allocate_extents :: "tx_context \<Rightarrow> nat \<Rightarrow> nat \<Rightarrow> nat \<Rightarrow> (fault + nat) \<times> tx_context" where
  "allocate_extents c bs bpg cnt =
     (if cnt = 0 then (Inl (Failed InvalidInput), c)
      else finish_alloc (\<lambda>start c. c\<lparr>alloc_cursor := Some (start + cnt)\<rparr>) cnt
        (case alloc_cursor c of
           Some cursor \<Rightarrow> or_scan (scan_free_run c bs bpg cnt cursor cnt)
             (\<lambda>c. scan_free_run c bs bpg cnt 0 cnt)
         | None \<Rightarrow> scan_free_run c bs bpg cnt 0 cnt))"

definition preferred_search_start :: "nat option \<Rightarrow> nat \<Rightarrow> nat" where
  "preferred_search_start prev bpg = min (case prev of Some l \<Rightarrow> l + 1 | None \<Rightarrow> 0) bpg"

definition is_local :: "nat \<Rightarrow> nat \<Rightarrow> nat \<Rightarrow> bool" where
  "is_local candidate reference max_distance \<longleftrightarrow>
     (if candidate \<le> reference then reference - candidate else candidate - reference) \<le> max_distance"

definition allocate_extents_hinted :: "tx_context \<Rightarrow> nat \<Rightarrow> nat \<Rightarrow> nat \<Rightarrow> nat \<Rightarrow> (fault + nat) \<times> tx_context" where
  "allocate_extents_hinted c bs bpg cnt hint =
     (if cnt = 0 then (Inl (Failed InvalidInput), c)
      else let clamped_hint = preferred_search_start (Some hint) bpg
        in finish_alloc (\<lambda>start c. c\<lparr>alloc_cursor := Some (start + cnt)\<rparr>) cnt
             (or_scan (or_scan (scan_free_run c bs bpg cnt clamped_hint cnt)
                (\<lambda>c. case alloc_cursor c of
                       Some cursor \<Rightarrow> scan_free_run c bs bpg cnt cursor cnt
                     | None \<Rightarrow> (Inr None, c)))
                (\<lambda>c. scan_free_run c bs bpg cnt 0 cnt)))"

definition allocate_extents_meta :: "tx_context \<Rightarrow> nat \<Rightarrow> nat \<Rightarrow> nat \<Rightarrow> (fault + nat) \<times> tx_context" where
  "allocate_extents_meta c bs bpg cnt =
     (if cnt = 0 then (Inl (Failed InvalidInput), c)
      else let end_zone_start = bpg - (1 + meta_high_water c); upper_half = bpg div 2
        in finish_alloc
             (\<lambda>run c. c\<lparr>meta_high_water := max (bpg - run) (meta_high_water c) + cnt - 1\<rparr>) cnt
             (or_scan (or_scan (scan_free_run c bs bpg cnt end_zone_start cnt)
                (\<lambda>c. scan_free_run c bs bpg cnt upper_half cnt))
                (\<lambda>c. scan_free_run c bs bpg cnt 0 cnt)))"

definition want_run :: "nat \<Rightarrow> nat \<Rightarrow> nat \<Rightarrow> nat \<Rightarrow> nat option \<Rightarrow> tx_context \<Rightarrow> (fault + nat option) \<times> tx_context" where
  "want_run bs bpg want mark hint c =
     (case (hint, alloc_cursor c) of
        (Some h, _) \<Rightarrow>
          or_scan (scan_free_run c bs bpg want (preferred_search_start (Some h) bpg) mark)
            (\<lambda>c. scan_free_run c bs bpg want 0 mark)
      | (None, Some cur) \<Rightarrow>
          or_scan (scan_free_run c bs bpg want cur mark) (\<lambda>c. scan_free_run c bs bpg want 0 mark)
      | (None, None) \<Rightarrow> scan_free_run c bs bpg want 0 mark)"

definition allocate_extents_reserved :: "tx_context \<Rightarrow> nat \<Rightarrow> nat \<Rightarrow> nat \<Rightarrow> nat \<Rightarrow> nat option \<Rightarrow>
    (fault + nat) \<times> tx_context" where
  "allocate_extents_reserved c bs bpg want mark hint =
     (if mark = 0 \<or> want < mark then (Inl (Failed InvalidInput), c)
      else finish_alloc (\<lambda>start c. c\<lparr>alloc_cursor := Some (start + mark)\<rparr>) mark
        (or_scan (want_run bs bpg want mark hint c) (\<lambda>c. scan_free_run c bs bpg mark 0 mark)))"

section \<open>The bitmap as a set of blocks\<close>

definition used :: "tx_context \<Rightarrow> nat \<Rightarrow> nat \<Rightarrow> bool" where
  "used c bs b = (case read_block c (bs + b div bits_per_block) of Inl e \<Rightarrow> False
     | Inr buf \<Rightarrow> bit (buf ! (b mod bits_per_block div 8)) (b mod 8))"

definition readable :: "tx_context \<Rightarrow> nat \<Rightarrow> nat \<Rightarrow> bool" where
  "readable c bs n \<longleftrightarrow> (\<forall>i<n. \<exists>buf. read_block c (bs + i) = Inr buf \<and> length buf = block_size)"

lemma bits_per_block_pos [simp]: "0 < bits_per_block"
  by (simp add: bits_per_block_def block_size_def)

lemma byte_idx_less [simp]: "b mod bits_per_block div 8 < block_size"
proof -
  have "b mod bits_per_block < block_size * 8"
    using mod_less_divisor [OF bits_per_block_pos, of b] by (simp add: bits_per_block_def)
  then show ?thesis by (simp add: less_mult_imp_div_less)
qed

lemma bit_coordinates:
  "x = b \<longleftrightarrow> x div bits_per_block = b div bits_per_block \<and>
     x mod bits_per_block div 8 = b mod bits_per_block div 8 \<and> x mod 8 = b mod 8"
proof -
  have m: "y mod bits_per_block = y mod bits_per_block div 8 * 8 + y mod 8" for y
    using div_mult_mod_eq [of "y mod bits_per_block" 8]
    by (simp add: bits_per_block_def mod_mod_cancel)
  show ?thesis
    using div_mult_mod_eq [of x bits_per_block] div_mult_mod_eq [of b bits_per_block] m [of x] m [of b]
    by metis
qed

lemma length_change_bit [simp]: "length (change_bit buf b on) = length buf"
  by (simp add: change_bit_def Let_def)

lemma used_write:
  assumes "read_block c (bs + b div bits_per_block) = Inr buf" and "length buf = block_size"
  shows "used (write_block c (bs + b div bits_per_block) (change_bit buf b on)) bs x =
    (if x = b then on else used c bs x)"
proof (cases "x div bits_per_block = b div bits_per_block")
  case True
  then show ?thesis
    using assms bit_coordinates [of x b]
    by (auto simp: used_def ctx_store.read_write change_bit_def Let_def nth_list_update
        bit_or_iff bit_and_iff bit_not_iff bit_two_power)
next
  case False
  then show ?thesis
    using assms by (auto simp: used_def ctx_store.read_write)
qed

lemma readable_write:
  "readable c bs n \<Longrightarrow> length buf = block_size \<Longrightarrow> readable (write_block c b buf) bs n"
  by (auto simp: readable_def ctx_store.read_write)

section \<open>The buffered update against one read and write per bit\<close>

fun naive_modify :: "nat \<Rightarrow> bool \<Rightarrow> nat \<Rightarrow> nat \<Rightarrow> tx_context \<Rightarrow> (fault + unit) \<times> tx_context" where
  "naive_modify bs on block 0 c = (Inr (), c)"
| "naive_modify bs on block (Suc k) c =
     (case read_block c (bs + block div bits_per_block) of Inl e \<Rightarrow> (Inl e, c)
      | Inr buf \<Rightarrow> naive_modify bs on (Suc block) k
          (write_block c (bs + block div bits_per_block) (change_bit buf block on)))"

definition flush :: "nat \<Rightarrow> nat \<Rightarrow> byte list \<Rightarrow> bool \<Rightarrow> tx_context \<Rightarrow> tx_context" where
  "flush bs cur buf modified c = (if modified then write_block c (bs + cur) buf else c)"

definition finish_modify :: "nat \<Rightarrow> (fault + nat \<times> byte list \<times> bool) \<times> tx_context \<Rightarrow> (fault + unit) \<times> tx_context" where
  "finish_modify bs r = (case r of (Inl e, c) \<Rightarrow> (Inl e, c)
     | (Inr (cur, buf, modified), c) \<Rightarrow> (Inr (), flush bs cur buf modified c))"

lemma modify_blocks_finish:
  "modify_blocks c bs start cnt on =
     finish_modify bs (modify_loop bs on start cnt u64_max (replicate block_size 0) False c)"
  by (simp add: modify_blocks_def finish_modify_def flush_def split: sum.splits prod.splits)

definition blocks_sized :: "tx_context \<Rightarrow> bool" where
  "blocks_sized c \<longleftrightarrow> (\<forall>b buf. read_block c b = Inr buf \<longrightarrow> length buf = block_size)"

lemma blocks_sized_write: "blocks_sized c \<Longrightarrow> length buf = block_size \<Longrightarrow> blocks_sized (write_block c b buf)"
  by (auto simp: blocks_sized_def ctx_store.read_write split: if_splits)

lemma modify_loop_naive:
  assumes "blocks_sized c" "length buf = block_size" "(block + k) div bits_per_block < u64_max"
    and "modified \<or> cur = u64_max"
  shows "finish_modify bs (modify_loop bs on block k cur buf modified c) =
    naive_modify bs on block k (flush bs cur buf modified c)"
  using assms
proof (induction k arbitrary: block cur buf modified c)
  case 0
  then show ?case by (simp add: finish_modify_def)
next
  case (Suc k)
  let ?bm = "block div bits_per_block"
  have bm: "?bm < u64_max"
    using Suc.prems(3) div_le_mono [of block "block + Suc k" bits_per_block] by simp
  have sized: "blocks_sized (flush bs cur buf modified c)"
    using Suc.prems by (simp add: flush_def blocks_sized_write)
  show ?case
  proof (cases "?bm = cur")
    case True
    with bm Suc.prems(4) have m: modified by auto
    have "read_block (flush bs cur buf True c) (bs + cur) = Inr buf"
      using Suc.prems(2) by (simp add: flush_def ctx_store.read_write)
    moreover have "flush bs cur (change_bit buf block on) True c =
        write_block (flush bs cur buf True c) (bs + cur) (change_bit buf block on)"
      by (simp add: flush_def ctx_store.write_write)
    ultimately show ?thesis
      using Suc.IH [of c "change_bit buf block on" "Suc block" True cur] Suc.prems True m by simp
  next
    case False
    then show ?thesis
    proof (cases "read_block (flush bs cur buf modified c) (bs + ?bm)")
      case (Inl e)
      with False show ?thesis by (simp add: flush_def finish_modify_def)
    next
      case (Inr buf1)
      with sized have "length buf1 = block_size" by (auto simp: blocks_sized_def)
      then have "finish_modify bs (modify_loop bs on (Suc block) k ?bm (change_bit buf1 block on) True
            (flush bs cur buf modified c)) =
          naive_modify bs on (Suc block) k
            (flush bs ?bm (change_bit buf1 block on) True (flush bs cur buf modified c))"
        using Suc.prems(3) by (intro Suc.IH sized) auto
      with False Inr show ?thesis by (simp add: flush_def Let_def)
    qed
  qed
qed

text \<open>
  C24. The buffered bitmap update is equivalent to the obvious one: on a context whose blocks have the
  block size, \<open>modify_blocks\<close>, which holds one bitmap block in memory and writes it back when the
  run crosses into the next one, has the result, the error and the resulting context of a loop that
  reads, changes and writes back one bit at a time.
\<close>
theorem modify_blocks_naive:
  assumes "blocks_sized c" and "(start + cnt) div bits_per_block < u64_max"
  shows "modify_blocks c bs start cnt on = naive_modify bs on start cnt c"
  using modify_loop_naive [OF assms(1) _ assms(2), of "replicate block_size 0" False u64_max]
  by (simp add: modify_blocks_finish flush_def)

lemma blank_sized: "blocks_sized blank_ctx"
  by (simp add: blocks_sized_def read_block_def blank_ctx_def ctx_new_def transaction_new_def blank_disk_def)

theorem modify_blocks_naive_witness:
  "modify_blocks blank_ctx 10 32760 20 True = naive_modify 10 True 32760 20 blank_ctx"
  by (rule modify_blocks_naive [OF blank_sized]) (simp add: bits_per_block_def block_size_def u64_max_def)

section \<open>What marking a run does\<close>

definition same_frame :: "tx_context \<Rightarrow> tx_context \<Rightarrow> bool" where
  "same_frame c c' \<longleftrightarrow> ctx_disk c' = ctx_disk c \<and> pending c' = pending c \<and>
     alloc_cursor c' = alloc_cursor c \<and> meta_high_water c' = meta_high_water c \<and>
     cow_barrier c' = cow_barrier c \<and> alloc_delta (ctx_tx c') = alloc_delta (ctx_tx c)"

text \<open>
  \<open>ready\<close>: the group has at most \<open>2 ^ 32\<close> blocks and its bitmap can be read; \<open>marked\<close>: the bits
  of one run are set or cleared and nothing else, inside or outside the bitmap, is different.
\<close>
definition ready :: "nat \<Rightarrow> nat \<Rightarrow> tx_context \<Rightarrow> bool" where
  "ready bs bpg c \<longleftrightarrow> bpg < 2 ^ 32 \<and> blocks_sized c \<and> readable c bs (bitmap_blocks bpg)"

definition marked :: "nat \<Rightarrow> nat \<Rightarrow> nat \<Rightarrow> nat \<Rightarrow> bool \<Rightarrow> tx_context \<Rightarrow> tx_context \<Rightarrow> bool" where
  "marked bs bpg lo k on c c' \<longleftrightarrow> ready bs bpg c' \<and>
     (\<forall>x. used c' bs x = (if lo \<le> x \<and> x < lo + k then on else used c bs x)) \<and>
     (\<forall>x. x \<notin> {bs..<bs + bitmap_blocks bpg} \<longrightarrow> read_block c' x = read_block c x)"

lemma bitmap_covers: "b < bpg \<Longrightarrow> b div bits_per_block < bitmap_blocks bpg"
proof -
  assume "b < bpg"
  then have "b + bits_per_block \<le> bpg + bits_per_block - 1" by simp
  then have "(b + bits_per_block) div bits_per_block \<le> bitmap_blocks bpg"
    unfolding bitmap_blocks_def by (rule div_le_mono)
  then show ?thesis by (simp add: div_add_self2 less_le_trans)
qed

lemma bitmap_end: "bpg \<le> bitmap_blocks bpg * bits_per_block"
proof (cases bpg)
  case (Suc b)
  then have "b div bits_per_block < bitmap_blocks bpg" by (intro bitmap_covers) simp
  then have "b < bitmap_blocks bpg * bits_per_block" by (simp add: div_less_iff_less_mult)
  with Suc show ?thesis by simp
qed simp

lemma naive_marked:
  assumes "ready bs bpg c" "block + k \<le> bpg"
  shows "\<exists>c'. naive_modify bs on block k c = (Inr (), c') \<and> marked bs bpg block k on c c' \<and> same_frame c c'"
  using assms
proof (induction k arbitrary: block c)
  case 0
  then show ?case by (auto simp: marked_def same_frame_def)
next
  case (Suc k)
  let ?b = "bs + block div bits_per_block"
  have bm: "block div bits_per_block < bitmap_blocks bpg"
    using Suc.prems(2) by (intro bitmap_covers) simp
  then obtain buf where rd: "read_block c ?b = Inr buf" and len: "length buf = block_size"
    using Suc.prems(1) by (auto simp: ready_def readable_def)
  let ?c1 = "write_block c ?b (change_bit buf block on)"
  have r1: "ready bs bpg ?c1"
    using Suc.prems(1) len by (auto simp: ready_def intro!: blocks_sized_write readable_write)
  obtain c' where run: "naive_modify bs on (Suc block) k ?c1 = (Inr (), c')"
    and m: "marked bs bpg (Suc block) k on ?c1 c'" and fr: "same_frame ?c1 c'"
    using Suc.IH [OF r1, of "Suc block"] Suc.prems(2) by auto
  have "used c' bs x = (if block \<le> x \<and> x < block + Suc k then on else used c bs x)" for x
    using m used_write [OF rd len, of on x] by (auto simp: marked_def)
  moreover have "read_block c' x = read_block c x" if "x \<notin> {bs..<bs + bitmap_blocks bpg}" for x
  proof -
    have "read_block ?c1 x = read_block c x"
      using that bm len by (auto simp: ctx_store.read_write)
    with that m show ?thesis by (simp add: marked_def)
  qed
  moreover have "same_frame c c'" using fr by (simp add: same_frame_def)
  ultimately show ?case using run m rd by (auto simp: marked_def)
qed

lemma modify_marked:
  assumes "ready bs bpg c" "start + k \<le> bpg"
  shows "\<exists>c'. modify_blocks c bs start k on = (Inr (), c') \<and> marked bs bpg start k on c c' \<and> same_frame c c'"
proof -
  have "(start + k) div bits_per_block \<le> bpg" using assms(2) div_le_dividend le_trans by blast
  then have lt: "(start + k) div bits_per_block < u64_max"
    using assms(1) by (simp add: ready_def u64_max_def)
  have "modify_blocks c bs start k on = naive_modify bs on start k c"
    using modify_loop_naive [OF _ _ lt, of c "replicate block_size 0" False u64_max] assms(1)
    by (simp add: ready_def modify_blocks_finish flush_def)
  with naive_marked [OF assms] show ?thesis by simp
qed

section \<open>The search against a linear scan\<close>

function lscan :: "(nat \<Rightarrow> bool) \<Rightarrow> nat \<Rightarrow> nat \<Rightarrow> nat \<Rightarrow> nat \<times> nat \<Rightarrow> nat option" where
  "lscan P n cnt b (run, st) =
     (if n \<le> b then None
      else if \<not> P b then
        (let st' = (if run = 0 then b else st)
         in if run + 1 = cnt then Some st' else lscan P n cnt (Suc b) (run + 1, st'))
      else lscan P n cnt (Suc b) (0, st))"
  by pat_completeness auto
termination by (relation "measure (\<lambda>(_, n, _, b, _). n - b)") auto

declare lscan.simps [simp del] scan_bits.simps [simp del] scan_bytes.simps [simp del] scan_blocks.simps [simp del]

lemma lscan_end: "n \<le> b \<Longrightarrow> lscan P n cnt b (run, st) = None"
  by (simp add: lscan.simps)

lemma lscan_fresh: "lscan P n cnt b (0, st) = lscan P n cnt b (0, st')"
proof (induction "n - b" arbitrary: b st st')
  case 0
  then show ?case by (simp add: lscan_end)
next
  case (Suc k)
  have "k = n - Suc b" using Suc.hyps(2) by simp
  note IH = Suc.hyps(1) [OF this, of st st']
  show ?case unfolding lscan.simps [of P n cnt b] by (simp add: Let_def IH)
qed

lemma lscan_skip: "(\<And>i. i < d \<Longrightarrow> b + i < n \<Longrightarrow> P (b + i)) \<Longrightarrow> 0 < d \<Longrightarrow> lscan P n cnt b (run, st) = lscan P n cnt (b + d) (0, st)"
proof (induction d arbitrary: b run)
  case 0
  then show ?case by simp
next
  case (Suc d)
  show ?case
  proof (cases "n \<le> b")
    case True
    then show ?thesis by (simp add: lscan_end)
  next
    case False
    with Suc.prems(1) [of 0] have step: "lscan P n cnt b (run, st) = lscan P n cnt (Suc b) (0, st)"
      by (simp add: lscan.simps [of P n cnt b])
    show ?thesis
    proof (cases "d = 0")
      case True
      with step show ?thesis by simp
    next
      case False
      have "lscan P n cnt (Suc b) (0, st) = lscan P n cnt (Suc b + d) (0, st)"
        using False Suc.prems(1) [of "Suc i" for i] by (intro Suc.IH) auto
      with step show ?thesis by simp
    qed
  qed
qed

lemma scan_bits_lscan:
  assumes "\<And>i. i < 8 \<Longrightarrow> P (base + i) = bit byt i" and "j \<le> 8"
  shows "lscan P n cnt (base + j) st =
    (case scan_bits byt base n cnt j st of Inl s \<Rightarrow> Some s | Inr st' \<Rightarrow> lscan P n cnt (base + 8) st')"
  using assms(2)
proof (induction "8 - j" arbitrary: j st)
  case 0
  then show ?case by (cases st) (simp add: scan_bits.simps)
next
  case (Suc k)
  obtain run rs where st: "st = (run, rs)" by (cases st)
  have j: "j < 8" "k = 8 - Suc j" "Suc j \<le> 8" using Suc.hyps(2) by auto
  note IH = Suc.hyps(1) [OF j(2,3)]
  show ?case
    using j(1) assms(1) [OF j(1)] IH
    by (simp add: st scan_bits.simps [of byt base n cnt j] lscan.simps [of P n cnt "base + j"] Let_def
        and_bit_zero_iff lscan_end)
qed

lemma all_ones: "(0xFF :: byte) = - 1"
  by simp

lemma scan_bytes_lscan:
  assumes P: "\<And>i j. i < block_size \<Longrightarrow> j < 8 \<Longrightarrow> P (bm * bits_per_block + i * 8 + j) = bit (buf ! i) j"
    and "i \<le> block_size" "fb < 8" "i < block_size \<or> fb = 0"
  shows "lscan P n cnt (bm * bits_per_block + i * 8 + fb) st =
    (case scan_bytes buf bm n cnt i fb st of Inl s \<Rightarrow> Some s
     | Inr st' \<Rightarrow> lscan P n cnt (Suc bm * bits_per_block) st')"
  using assms(2-4)
proof (induction "block_size - i" arbitrary: i fb st)
  case 0
  then show ?case by (cases st) (simp add: scan_bytes.simps bits_per_block_def add.commute)
next
  case (Suc k)
  obtain run rs where st: "st = (run, rs)" by (cases st)
  let ?base = "bm * bits_per_block + i * 8"
  have i: "i < block_size" "k = block_size - Suc i" using Suc.hyps(2) by auto
  note IH = Suc.hyps(1) [OF i(2) _ _ disjI2 [OF refl], simplified]
  have nxt: "?base + 8 = bm * bits_per_block + Suc i * 8" by simp
  show ?case
  proof (cases "buf ! i = 0xFF")
    case True
    have "P (?base + fb + d)" if "d < 8 - fb" for d
      using P [OF i(1), of "fb + d"] that Suc.prems True by (simp add: all_ones add.assoc)
    then have "lscan P n cnt (?base + fb) st = lscan P n cnt (?base + fb + (8 - fb)) (0, rs)"
      unfolding st using Suc.prems by (intro lscan_skip) auto
    also have "?base + fb + (8 - fb) = bm * bits_per_block + Suc i * 8" using Suc.prems by simp
    finally show ?thesis
      using i True IH [of "(0, rs)"] by (simp add: st scan_bytes.simps [of buf bm n cnt i] Let_def add.assoc)
  next
    case False
    have "lscan P n cnt (?base + fb) st =
      (case scan_bits (buf ! i) ?base n cnt fb st of Inl s \<Rightarrow> Some s
       | Inr st' \<Rightarrow> lscan P n cnt (?base + 8) st')"
      using P [OF i(1)] Suc.prems by (intro scan_bits_lscan) auto
    with False i(1) IH show ?thesis
      by (simp add: st scan_bytes.simps [of buf bm n cnt i] Let_def nxt split: sum.splits)
  qed
qed

lemma bit_address:
  assumes "i < block_size" "j < 8"
  shows "(bm * bits_per_block + i * 8 + j) div bits_per_block = bm"
    and "(bm * bits_per_block + i * 8 + j) mod bits_per_block div 8 = i"
    and "(bm * bits_per_block + i * 8 + j) mod 8 = j"
proof -
  have "i * 8 + j < bits_per_block" using assms by (simp add: bits_per_block_def)
  then show "(bm * bits_per_block + i * 8 + j) div bits_per_block = bm"
    and m: "(bm * bits_per_block + i * 8 + j) mod bits_per_block div 8 = i"
    using assms(2) by (simp_all add: add.assoc)
  have e: "(bm * bits_per_block + i * 8 + j) = 8 * (bm * block_size + i) + j"
    by (simp add: bits_per_block_def)
  show "(bm * bits_per_block + i * 8 + j) mod 8 = j"
    unfolding e by (simp only: mod_mult_self4 mod_less [OF assms(2)])
qed

lemma scan_blocks_lscan:
  assumes rd: "readable c bs tot" and "n \<le> tot * bits_per_block" and "i < block_size" "fb < 8"
  shows "scan_blocks c bs n cnt tot bm i fb st =
    Inr (if tot \<le> bm then None else lscan (used c bs) n cnt (bm * bits_per_block + i * 8 + fb) st)"
  using assms(3,4)
proof (induction "tot - bm" arbitrary: bm i fb st)
  case 0
  then show ?case by (simp add: scan_blocks.simps)
next
  case (Suc k)
  have bm: "bm < tot" "k = tot - Suc bm" using Suc.hyps(2) by auto
  obtain buf where buf: "read_block c (bs + bm) = Inr buf"
    using rd bm(1) by (auto simp: readable_def)
  have P: "used c bs (bm * bits_per_block + x * 8 + j) = bit (buf ! x) j" if "x < block_size" "j < 8" for x j
    using buf by (simp add: used_def bit_address [OF that])
  note L = scan_bytes_lscan [of "used c bs" bm buf i fb n cnt st, OF P less_imp_le [OF Suc.prems(1)] Suc.prems(2)
      disjI1 [OF Suc.prems(1)]]
  have "(0::nat) < block_size" by (simp add: block_size_def)
  then have IH: "scan_blocks c bs n cnt tot (Suc bm) 0 0 st' =
      Inr (if tot \<le> Suc bm then None else lscan (used c bs) n cnt (Suc bm * bits_per_block) st')" for st'
    using Suc.hyps(1) [OF bm(2), of 0 0 st'] by simp
  have "lscan (used c bs) n cnt (Suc bm * bits_per_block) st' = None" if "tot \<le> Suc bm" for st'
  proof -
    have "n \<le> Suc bm * bits_per_block" using assms(2) mult_le_mono1 [OF that] le_trans by blast
    then show ?thesis by (cases st') (simp add: lscan_end)
  qed
  then show ?case
    using bm(1) buf L by (simp add: scan_blocks.simps [of c bs n cnt tot bm] IH split: sum.splits)
qed

section \<open>First fit\<close>

definition free_run :: "(nat \<Rightarrow> bool) \<Rightarrow> nat \<Rightarrow> nat \<Rightarrow> nat \<Rightarrow> bool" where
  "free_run P n k s \<longleftrightarrow> s + k \<le> n \<and> (\<forall>i. s \<le> i \<and> i < s + k \<longrightarrow> \<not> P i)"

definition first_fit :: "(nat \<Rightarrow> bool) \<Rightarrow> nat \<Rightarrow> nat \<Rightarrow> nat \<Rightarrow> nat option \<Rightarrow> bool" where
  "first_fit P n k lo r = (case r of
      Some s \<Rightarrow> lo \<le> s \<and> free_run P n k s \<and> (\<forall>s'. lo \<le> s' \<and> s' < s \<longrightarrow> \<not> free_run P n k s')
    | None \<Rightarrow> \<forall>s'. lo \<le> s' \<longrightarrow> \<not> free_run P n k s')"

lemma first_fit_skip:
  assumes "first_fit P n k lo' r" "lo \<le> lo'" "\<And>s. lo \<le> s \<Longrightarrow> s < lo' \<Longrightarrow> \<not> free_run P n k s"
  shows "first_fit P n k lo r"
proof (cases r)
  case None
  have "\<not> free_run P n k s" if "lo \<le> s" for s
    using assms(1,3) None that by (cases "s < lo'") (simp_all add: first_fit_def)
  with None show ?thesis by (simp add: first_fit_def)
next
  case (Some s)
  with assms(1) have s: "lo' \<le> s" "free_run P n k s" and
    min: "\<And>s'. lo' \<le> s' \<Longrightarrow> s' < s \<Longrightarrow> \<not> free_run P n k s'"
    by (simp_all add: first_fit_def)
  have "\<not> free_run P n k s'" if "lo \<le> s'" "s' < s" for s'
    using assms(3) min that by (cases "s' < lo'") simp_all
  with Some s assms(2) show ?thesis by (simp add: first_fit_def)
qed

lemma lscan_first_fit:
  assumes "run < k" "run \<le> b" "0 < run \<Longrightarrow> st = b - run" "\<And>i. b - run \<le> i \<Longrightarrow> i < b \<Longrightarrow> \<not> P i"
  shows "first_fit P n k (b - run) (lscan P n k b (run, st))"
  using assms
proof (induction "n - b" arbitrary: b run st)
  case 0
  then show ?case by (auto simp: lscan_end first_fit_def free_run_def)
next
  case (Suc m)
  have b: "b < n" "m = n - Suc b" using Suc.hyps(2) by auto
  show ?case
  proof (cases "P b")
    case True
    have "first_fit P n k (Suc b) (lscan P n k (Suc b) (0, st))"
      using Suc.hyps(1) [OF b(2), of 0 st] Suc.prems(1) by simp
    then have "first_fit P n k (b - run) (lscan P n k (Suc b) (0, st))"
    proof (rule first_fit_skip)
      fix s
      assume "b - run \<le> s" "s < Suc b"
      with Suc.prems(1,2) have "s \<le> b" "b < s + k" by auto
      with True show "\<not> free_run P n k s" by (auto simp: free_run_def)
    qed simp
    with True b(1) show ?thesis by (simp add: lscan.simps [of P n k b])
  next
    case False
    let ?st = "if run = 0 then b else st"
    have st: "?st = b - run" using Suc.prems(3) by simp
    have nP: "\<not> P i" if "b - run \<le> i" "i \<le> b" for i
      using that False Suc.prems(4) by (cases "i = b") auto
    show ?thesis
    proof (cases "run + 1 = k")
      case True
      then have "free_run P n k (b - run)"
        using Suc.prems(2) b(1) nP by (auto simp: free_run_def)
      moreover have "lscan P n k b (run, st) = Some (b - run)"
        using \<open>\<not> P b\<close> b(1) True st by (simp add: lscan.simps [of P n k b] Let_def)
      ultimately show ?thesis by (auto simp: first_fit_def)
    next
      case False
      have "first_fit P n k (Suc b - (run + 1)) (lscan P n k (Suc b) (run + 1, ?st))"
        using Suc.prems(1,2) False st nP by (intro Suc.hyps(1) [OF b(2)]) auto
      with False \<open>\<not> P b\<close> b(1) show ?thesis by (simp add: lscan.simps [of P n k b] Let_def)
    qed
  qed
qed

definition scan_start :: "nat \<Rightarrow> nat \<Rightarrow> nat" where
  "scan_start bpg from_bit =
     min (from_bit div bits_per_block) (bitmap_blocks bpg - 1) * bits_per_block + from_bit mod bits_per_block"

lemma scan_start_zero [simp]: "scan_start bpg 0 = 0"
  by (simp add: scan_start_def)

lemma scan_start_in_group: "from_bit < bpg \<Longrightarrow> scan_start bpg from_bit = from_bit"
  using bitmap_covers [of from_bit bpg] by (simp add: scan_start_def)

lemma scan_blocks_run:
  assumes "ready bs bpg c" "0 < cnt"
  shows "\<exists>r. scan_blocks c bs bpg cnt (bitmap_blocks bpg) (min (from_bit div bits_per_block) (bitmap_blocks bpg - 1))
      (from_bit mod bits_per_block div 8) (from_bit mod 8) (0, 0) = Inr r \<and>
    first_fit (used c bs) bpg cnt (scan_start bpg from_bit) r"
proof -
  let ?bm = "min (from_bit div bits_per_block) (bitmap_blocks bpg - 1)"
  let ?i = "from_bit mod bits_per_block div 8" and ?fb = "from_bit mod 8"
  have m: "from_bit mod bits_per_block = ?i * 8 + ?fb"
    using div_mult_mod_eq [of "from_bit mod bits_per_block" 8]
    by (simp add: bits_per_block_def mod_mod_cancel)
  have start: "?bm * bits_per_block + ?i * 8 + ?fb = scan_start bpg from_bit"
    by (simp only: scan_start_def add.assoc m [symmetric])
  have eq: "scan_blocks c bs bpg cnt (bitmap_blocks bpg) ?bm ?i ?fb (0, 0) =
    Inr (if bitmap_blocks bpg \<le> ?bm then None else lscan (used c bs) bpg cnt (scan_start bpg from_bit) (0, 0))"
    unfolding start [symmetric] using assms(1)
    by (intro scan_blocks_lscan bitmap_end byte_idx_less) (simp_all add: ready_def)
  have "first_fit (used c bs) bpg cnt (scan_start bpg from_bit) (lscan (used c bs) bpg cnt (scan_start bpg from_bit) (0, 0))"
    using lscan_first_fit [of 0 cnt "scan_start bpg from_bit" 0] assms(2) by simp
  moreover have "first_fit (used c bs) bpg cnt (scan_start bpg from_bit) None" if "bitmap_blocks bpg \<le> ?bm"
  proof -
    have "bitmap_blocks bpg = 0" using that by arith
    then have "bpg = 0" using bitmap_end [of bpg] by simp
    then show ?thesis using assms(2) by (simp add: first_fit_def free_run_def)
  qed
  ultimately have "first_fit (used c bs) bpg cnt (scan_start bpg from_bit)
    (if bitmap_blocks bpg \<le> ?bm then None else lscan (used c bs) bpg cnt (scan_start bpg from_bit) (0, 0))"
    by presburger
  with eq show ?thesis by blast
qed

lemma scan_free_run_cases:
  assumes "ready bs bpg c" "0 < cnt" "mark \<le> cnt"
  obtains (none) "scan_free_run c bs bpg cnt from_bit mark = (Inr None, c)"
      "first_fit (used c bs) bpg cnt (scan_start bpg from_bit) None"
  | (some) s c' where "scan_free_run c bs bpg cnt from_bit mark = (Inr (Some s), c')"
      "first_fit (used c bs) bpg cnt (scan_start bpg from_bit) (Some s)"
      "marked bs bpg s mark True c c'" "same_frame c c'"
proof -
  obtain r where sc: "scan_blocks c bs bpg cnt (bitmap_blocks bpg)
      (min (from_bit div bits_per_block) (bitmap_blocks bpg - 1))
      (from_bit mod bits_per_block div 8) (from_bit mod 8) (0, 0) = Inr r"
    and ff: "first_fit (used c bs) bpg cnt (scan_start bpg from_bit) r"
    using scan_blocks_run [OF assms(1,2)] by blast
  show thesis
  proof (cases r)
    case None
    have "scan_free_run c bs bpg cnt from_bit mark = (Inr None, c)"
      unfolding scan_free_run_def Let_def sc None by simp
    with ff None show thesis by (intro none) simp_all
  next
    case (Some s)
    with ff assms(3) have "s + mark \<le> bpg" by (simp add: first_fit_def free_run_def)
    from modify_marked [OF assms(1) this, of True]
    obtain c' where c': "modify_blocks c bs s mark True = (Inr (), c')"
      and m: "marked bs bpg s mark True c c'" "same_frame c c'" by blast
    have "scan_free_run c bs bpg cnt from_bit mark = (Inr (Some s), c')"
      unfolding scan_free_run_def Let_def sc Some mark_blocks_used_def by (simp add: c')
    from some [OF this _ m] ff Some show thesis by simp
  qed
qed

text \<open>
  C14. The three nested loops are first fit: on a readable bitmap \<open>scan_free_run\<close> returns the lowest
  run of free blocks of the requested length that starts at or after the search start and ends
  inside the group, with exactly its first \<open>mark\<close> blocks now marked and everything else as before;
  it returns nothing, and changes nothing, exactly when there is no such run. The search starts at
  \<open>from_bit\<close> when that lies in the group.
\<close>
theorem scan_is_first_fit:
  assumes "ready bs bpg c" "0 < cnt" "mark \<le> cnt"
  shows "(\<exists>s c'. scan_free_run c bs bpg cnt from_bit mark = (Inr (Some s), c') \<and>
        scan_start bpg from_bit \<le> s \<and> free_run (used c bs) bpg cnt s \<and>
        (\<forall>s'. scan_start bpg from_bit \<le> s' \<and> s' < s \<longrightarrow> \<not> free_run (used c bs) bpg cnt s') \<and>
        marked bs bpg s mark True c c' \<and> same_frame c c') \<or>
    (scan_free_run c bs bpg cnt from_bit mark = (Inr None, c) \<and>
        (\<forall>s'. scan_start bpg from_bit \<le> s' \<longrightarrow> \<not> free_run (used c bs) bpg cnt s'))"
  by (rule scan_free_run_cases [OF assms, of from_bit]) (simp_all add: first_fit_def)

lemma blank_ready: "bpg < 2 ^ 32 \<Longrightarrow> ready bs bpg blank_ctx"
  using blank_sized
  by (simp add: ready_def readable_def read_block_def blank_ctx_def ctx_new_def transaction_new_def blank_disk_def)

lemma blank_unused: "\<not> used blank_ctx bs b"
proof -
  have "b mod bits_per_block div 8 < block_size" by simp
  then show ?thesis
    by (simp add: used_def read_block_def blank_ctx_def ctx_new_def transaction_new_def blank_disk_def)
qed

theorem scan_is_first_fit_witness:
  "\<exists>s c'. scan_free_run blank_ctx 10 1000 5 100 3 = (Inr (Some s), c') \<and> 100 \<le> s \<and>
     marked 10 1000 s 3 True blank_ctx c'"
proof -
  have "free_run (used blank_ctx 10) 1000 5 100" by (simp add: free_run_def blank_unused)
  then show ?thesis
    using scan_is_first_fit [OF blank_ready, of 1000 5 3 10 100]
    by (auto simp: scan_start_in_group)
qed

end
