(* ===== verification/Block_Alloc.thy ===== *)
theory Block_Alloc
  imports Block_Bitmap
begin

text \<open>
  The four allocation entry points of \<^verbatim>\<open>allocator/bitmap.rs\<close> as implementations of one contract, and what
  follows from it for a client: disjoint ownership of blocks and the accounting of free space.
\<close>

section \<open>Searches that fall back\<close>

text \<open>
  A search either marks a free run of \<open>n\<close> blocks and changes nothing else, or finds nothing and changes
  nothing at all. Falling back from one search to another is again such a search.
\<close>
definition search_ok :: "nat \<Rightarrow> nat \<Rightarrow> nat \<Rightarrow> tx_context \<Rightarrow> (fault + nat option) \<times> tx_context \<Rightarrow> bool" where
  "search_ok bs bpg n c r \<longleftrightarrow> r = (Inr None, c) \<or>
     (\<exists>s c'. r = (Inr (Some s), c') \<and> free_run (used c bs) bpg n s \<and>
        marked bs bpg s n True c c' \<and> same_frame c c')"

lemma free_run_prefix: "free_run P m k s \<Longrightarrow> n \<le> k \<Longrightarrow> free_run P m n s"
  by (auto simp: free_run_def)

lemma scan_search_ok:
  assumes "ready bs bpg c" "0 < n" "n \<le> cnt"
  shows "search_ok bs bpg n c (scan_free_run c bs bpg cnt from_bit n)"
  by (rule scan_free_run_cases [OF assms(1) _ assms(3), of from_bit])
    (use assms in \<open>auto simp: search_ok_def first_fit_def intro: free_run_prefix\<close>)

lemma or_scan_ok:
  "search_ok bs bpg n c r \<Longrightarrow> search_ok bs bpg n c (f c) \<Longrightarrow> search_ok bs bpg n c (or_scan r f)"
  by (auto simp: search_ok_def or_scan_def)

lemma or_scan_none:
  "search_ok bs bpg n c r \<Longrightarrow> or_scan r f = (Inr None, c) \<Longrightarrow> f c = (Inr None, c)"
  by (auto simp: search_ok_def or_scan_def)

lemma scan_from_zero_none:
  assumes "ready bs bpg c" "0 < n" "scan_free_run c bs bpg n 0 n = (Inr None, c)"
  shows "\<forall>s. \<not> free_run (used c bs) bpg n s"
  using assms(3) by (rule_tac scan_free_run_cases [OF assms(1,2) order_refl, of 0]) (auto simp: first_fit_def)

section \<open>The contract of an allocator\<close>

definition granted :: "nat \<Rightarrow> nat \<Rightarrow> nat \<Rightarrow> nat \<Rightarrow> tx_context \<Rightarrow> tx_context \<Rightarrow> bool" where
  "granted bs bpg s n c c' \<longleftrightarrow> free_run (used c bs) bpg n s \<and> marked bs bpg s n True c c' \<and>
     alloc_delta (ctx_tx c') = alloc_delta (ctx_tx c) + int n"

definition free_blocks :: "nat \<Rightarrow> nat \<Rightarrow> tx_context \<Rightarrow> nat" where
  "free_blocks bs bpg c = card {b. b < bpg \<and> \<not> used c bs b}"

lemma marked_free_blocks:
  assumes "marked bs bpg s n True c c'" "free_run (used c bs) bpg n s"
  shows "free_blocks bs bpg c' + n = free_blocks bs bpg c"
proof -
  have "{b. b < bpg \<and> \<not> used c bs b} = {b. b < bpg \<and> \<not> used c' bs b} \<union> {s..<s + n}"
    using assms by (auto simp: marked_def free_run_def split: if_splits)
  moreover have "{b. b < bpg \<and> \<not> used c' bs b} \<inter> {s..<s + n} = {}"
    using assms(1) by (auto simp: marked_def)
  ultimately show ?thesis by (simp add: free_blocks_def card_Un_disjoint)
qed

locale block_allocator =
  fixes bs :: nat and bpg :: nat
    and alloc :: "nat \<Rightarrow> tx_context \<Rightarrow> (fault + nat) \<times> tx_context"
  assumes alloc_law: "ready bs bpg c \<Longrightarrow> 0 < n \<Longrightarrow>
      (\<exists>s c'. alloc n c = (Inr s, c') \<and> granted bs bpg s n c c') \<or>
      alloc n c = (Inl (Failed OutOfMemory), c) \<and> (\<forall>s. \<not> free_run (used c bs) bpg n s)"
    and alloc_zero: "alloc 0 c = (Inl (Failed InvalidInput), c)"
begin

lemma alloc_total:
  assumes "ready bs bpg c" "alloc n c = (Inl e, c')"
  shows "c' = c \<and> (n = 0 \<and> e = Failed InvalidInput \<or>
    n > 0 \<and> e = Failed OutOfMemory \<and> (\<forall>s. \<not> free_run (used c bs) bpg n s))"
proof (cases "n = 0")
  case True
  then show ?thesis using assms(2) by (simp add: alloc_zero)
next
  case False
  then show ?thesis using alloc_law [OF assms(1), of n] assms(2) by auto
qed

lemma alloc_granted:
  assumes "ready bs bpg c" "alloc n c = (Inr s, c')"
  shows "0 < n" "granted bs bpg s n c c'"
proof -
  show n: "0 < n" using assms(2) by (cases "n = 0") (simp_all add: alloc_zero)
  show "granted bs bpg s n c c'" using alloc_law [OF assms(1) n] assms(2) by auto
qed

lemma alloc_iff:
  assumes "ready bs bpg c" "0 < n"
  shows "(\<exists>s c'. alloc n c = (Inr s, c')) \<longleftrightarrow> (\<exists>s. free_run (used c bs) bpg n s)"
  using alloc_law [OF assms] by (auto simp: granted_def)

end

section \<open>The entry points fulfil it\<close>

lemma read_block_hints [simp]:
  "read_block (c\<lparr>alloc_cursor := v\<rparr>) = read_block c"
  "read_block (c\<lparr>meta_high_water := w\<rparr>) = read_block c"
  "read_block (add_delta d c) = read_block c"
  by (simp_all add: fun_eq_iff read_block_def add_delta_def cong: option.case_cong)

lemma used_same_reads: "read_block c' = read_block c \<Longrightarrow> used c' = used c"
  by (simp add: fun_eq_iff used_def)

lemma marked_same_reads:
  "read_block c'' = read_block c' \<Longrightarrow> marked bs bpg s n on c c'' = marked bs bpg s n on c c'"
  using used_same_reads [of c'' c'] by (simp add: marked_def ready_def readable_def blocks_sized_def)

lemmas marked_hints [simp] =
  marked_same_reads [OF read_block_hints(1)] marked_same_reads [OF read_block_hints(2)]
  marked_same_reads [OF read_block_hints(3)]

lemma finish_alloc_law:
  assumes ok: "search_ok bs bpg n c r"
    and none: "r = (Inr None, c) \<Longrightarrow> \<forall>s. \<not> free_run (used c bs) bpg n s"
    and upd: "\<And>s c'. same_frame c c' \<Longrightarrow> marked bs bpg s n True c c' \<Longrightarrow>
       marked bs bpg s n True c (upd s c') \<and> alloc_delta (ctx_tx (upd s c')) = alloc_delta (ctx_tx c')"
  shows "(\<exists>s c'. finish_alloc upd n r = (Inr s, c') \<and> granted bs bpg s n c c') \<or>
    finish_alloc upd n r = (Inl (Failed OutOfMemory), c) \<and> (\<forall>s. \<not> free_run (used c bs) bpg n s)"
proof (cases "r = (Inr None, c)")
  case True
  with none show ?thesis by (simp add: finish_alloc_def)
next
  case False
  with ok obtain s c' where r: "r = (Inr (Some s), c')" and fr: "free_run (used c bs) bpg n s"
    and m: "marked bs bpg s n True c c'" "same_frame c c'" by (auto simp: search_ok_def)
  have "granted bs bpg s n c (add_delta (int n) (upd s c'))"
    using upd [OF m(2,1)] fr m by (simp add: granted_def same_frame_def) (simp add: add_delta_def)
  then show ?thesis by (simp add: r finish_alloc_def)
qed

lemma fallback_law:
  assumes "ready bs bpg c" "0 < n" and ok: "search_ok bs bpg n c r"
    and upd: "\<And>s c'. same_frame c c' \<Longrightarrow> marked bs bpg s n True c c' \<Longrightarrow>
       marked bs bpg s n True c (upd s c') \<and> alloc_delta (ctx_tx (upd s c')) = alloc_delta (ctx_tx c')"
  defines "t \<equiv> finish_alloc upd n (or_scan r (\<lambda>c. scan_free_run c bs bpg n 0 n))"
  shows "(\<exists>s c'. t = (Inr s, c') \<and> granted bs bpg s n c c') \<or>
    t = (Inl (Failed OutOfMemory), c) \<and> (\<forall>s. \<not> free_run (used c bs) bpg n s)"
  unfolding t_def
proof (rule finish_alloc_law [OF _ _ upd])
  note scan = scan_search_ok [OF assms(1,2) order_refl]
  show "search_ok bs bpg n c (or_scan r (\<lambda>c. scan_free_run c bs bpg n 0 n))"
    by (rule or_scan_ok [OF ok]) (rule scan)
  show "or_scan r (\<lambda>c. scan_free_run c bs bpg n 0 n) = (Inr None, c) \<Longrightarrow> \<forall>s. \<not> free_run (used c bs) bpg n s"
    using or_scan_none [OF ok] scan_from_zero_none [OF assms(1,2)] by blast
qed

lemma search_ok_none: "search_ok bs bpg n c (Inr None, c)"
  by (simp add: search_ok_def)

interpretation plain: block_allocator bs bpg "\<lambda>n c. allocate_extents c bs bpg n" for bs bpg
proof
  fix c and n :: nat
  assume r: "ready bs bpg c" and n: "0 < n"
  let ?t = "case alloc_cursor c of None \<Rightarrow> (Inr None, c) | Some cursor \<Rightarrow> scan_free_run c bs bpg n cursor n"
  have "search_ok bs bpg n c ?t"
    by (simp add: search_ok_none scan_search_ok [OF r n] split: option.split)
  moreover have "allocate_extents c bs bpg n =
      finish_alloc (\<lambda>start c. c\<lparr>alloc_cursor := Some (start + n)\<rparr>) n
        (or_scan ?t (\<lambda>c. scan_free_run c bs bpg n 0 n))"
    using n by (cases "alloc_cursor c") (simp_all add: allocate_extents_def or_scan_def)
  ultimately show "(\<exists>s c'. allocate_extents c bs bpg n = (Inr s, c') \<and> granted bs bpg s n c c') \<or>
      allocate_extents c bs bpg n = (Inl (Failed OutOfMemory), c) \<and> (\<forall>s. \<not> free_run (used c bs) bpg n s)"
    by (simp only:) (rule fallback_law [OF r n], simp_all)
next
  fix c
  show "allocate_extents c bs bpg 0 = (Inl (Failed InvalidInput), c)" by (simp add: allocate_extents_def)
qed

interpretation hinted: block_allocator bs bpg "\<lambda>n c. allocate_extents_hinted c bs bpg n hint" for bs bpg hint
proof
  fix c and n :: nat
  assume r: "ready bs bpg c" and n: "0 < n"
  let ?f = "\<lambda>c. case alloc_cursor c of Some cursor \<Rightarrow> scan_free_run c bs bpg n cursor n | None \<Rightarrow> (Inr None, c)"
  have f: "search_ok bs bpg n c (?f c)"
    by (simp add: search_ok_none scan_search_ok [OF r n] split: option.split)
  show "(\<exists>s c'. allocate_extents_hinted c bs bpg n hint = (Inr s, c') \<and> granted bs bpg s n c c') \<or>
      allocate_extents_hinted c bs bpg n hint = (Inl (Failed OutOfMemory), c) \<and> (\<forall>s. \<not> free_run (used c bs) bpg n s)"
    unfolding allocate_extents_hinted_def Let_def if_not_P [OF n [THEN gr_implies_not0]]
    by (rule fallback_law [OF r n]) (simp_all add: or_scan_ok f scan_search_ok [OF r n])
next
  fix c
  show "allocate_extents_hinted c bs bpg 0 hint = (Inl (Failed InvalidInput), c)"
    by (simp add: allocate_extents_hinted_def)
qed

interpretation meta: block_allocator bs bpg "\<lambda>n c. allocate_extents_meta c bs bpg n" for bs bpg
proof
  fix c and n :: nat
  assume r: "ready bs bpg c" and n: "0 < n"
  show "(\<exists>s c'. allocate_extents_meta c bs bpg n = (Inr s, c') \<and> granted bs bpg s n c c') \<or>
      allocate_extents_meta c bs bpg n = (Inl (Failed OutOfMemory), c) \<and> (\<forall>s. \<not> free_run (used c bs) bpg n s)"
    unfolding allocate_extents_meta_def Let_def if_not_P [OF n [THEN gr_implies_not0]]
    by (rule fallback_law [OF r n]) (simp_all add: or_scan_ok scan_search_ok [OF r n])
next
  fix c
  show "allocate_extents_meta c bs bpg 0 = (Inl (Failed InvalidInput), c)" by (simp add: allocate_extents_meta_def)
qed

interpretation reserved: block_allocator bs bpg "\<lambda>n c. allocate_extents_reserved c bs bpg (n + extra) n hint"
  for bs bpg extra hint
proof
  fix c and n :: nat
  assume r: "ready bs bpg c" and n: "0 < n"
  have w: "search_ok bs bpg n c (want_run bs bpg (n + extra) n hint c)"
    by (simp add: want_run_def or_scan_ok scan_search_ok [OF r n] split: option.split)
  have g: "\<not> (n = 0 \<or> n + extra < n)" using n by simp
  show "(\<exists>s c'. allocate_extents_reserved c bs bpg (n + extra) n hint = (Inr s, c') \<and> granted bs bpg s n c c') \<or>
      allocate_extents_reserved c bs bpg (n + extra) n hint = (Inl (Failed OutOfMemory), c) \<and>
      (\<forall>s. \<not> free_run (used c bs) bpg n s)"
    unfolding allocate_extents_reserved_def if_not_P [OF g]
    by (rule fallback_law [OF r n w]) simp_all
next
  fix c
  show "allocate_extents_reserved c bs bpg (0 + extra) 0 hint = (Inl (Failed InvalidInput), c)"
    by (simp add: allocate_extents_reserved_def)
qed

text \<open>
  The hint names the first block after the file, and the search starts one block later: when that
  later run is free it is taken, and the block at the hint, free or not, is passed over.
\<close>
lemma hinted_skips_hint:
  assumes "ready bs bpg c" "0 < n" "free_run (used c bs) bpg n (hint + 1)"
  shows "fst (allocate_extents_hinted c bs bpg n hint) = Inr (hint + 1)"
proof -
  have lt: "hint + 1 < bpg" using assms(2,3) by (simp add: free_run_def)
  then have st: "scan_start bpg (preferred_search_start (Some hint) bpg) = hint + 1"
    by (simp add: preferred_search_start_def scan_start_in_group)
  obtain c' where "scan_free_run c bs bpg n (preferred_search_start (Some hint) bpg) n = (Inr (Some (hint + 1)), c')"
  proof (rule scan_free_run_cases [OF assms(1,2) order_refl, of "preferred_search_start (Some hint) bpg"])
    assume "first_fit (used c bs) bpg n (scan_start bpg (preferred_search_start (Some hint) bpg)) None"
    with assms(3) show thesis unfolding st by (auto simp: first_fit_def)
  next
    fix s c'
    assume e: "scan_free_run c bs bpg n (preferred_search_start (Some hint) bpg) n = (Inr (Some s), c')"
      and ff: "first_fit (used c bs) bpg n (scan_start bpg (preferred_search_start (Some hint) bpg)) (Some s)"
    from ff assms(3) have "s = hint + 1"
      unfolding st by (simp add: first_fit_def) (metis Suc_eq_plus1 le_neq_implies_less order_refl)
    with e show thesis by (intro that) simp
  qed
  with assms(2) show ?thesis by (simp add: allocate_extents_hinted_def or_scan_def finish_alloc_def)
qed

section \<open>Counting\<close>

lemma used_in_block:
  assumes "read_block c (bs + bm) = Inr buf" "i < bits_per_block"
  shows "(and (buf ! (i div 8)) (push_bit (i mod 8) 1) = 0) = (\<not> used c bs (bm * bits_per_block + i))"
  using assms by (simp add: used_def and_bit_zero_iff) (simp add: bits_per_block_def mod_mult_right_eq [symmetric] mod_add_eq [symmetric])

lemma count_block:
  assumes "read_block c (bs + bm) = Inr buf" "now \<le> bits_per_block"
  shows "length (filter (\<lambda>i. and (buf ! (i div 8)) (push_bit (i mod 8) 1) = 0) [0..<now]) =
    card {b. bm * bits_per_block \<le> b \<and> b < bm * bits_per_block + now \<and> \<not> used c bs b}"
proof -
  have "length (filter (\<lambda>i. and (buf ! (i div 8)) (push_bit (i mod 8) 1) = 0) [0..<now]) =
      card {i. i < now \<and> \<not> used c bs (bm * bits_per_block + i)}"
    unfolding length_filter_conv_card using assms used_in_block [OF assms(1)]
    by (intro arg_cong [where f = card]) auto
  also have "\<dots> = card ((+) (bm * bits_per_block) ` {i. i < now \<and> \<not> used c bs (bm * bits_per_block + i)})"
    by (rule card_image [symmetric]) simp
  also have "(+) (bm * bits_per_block) ` {i. i < now \<and> \<not> used c bs (bm * bits_per_block + i)} =
      {b. bm * bits_per_block \<le> b \<and> b < bm * bits_per_block + now \<and> \<not> used c bs b}"
    by (auto simp: image_iff intro: exI [of _ "b - bm * bits_per_block" for b] elim!: le_Suc_ex [THEN exE])
  finally show ?thesis .
qed

lemma count_loop_exact:
  assumes "readable c bs (bitmap_blocks bpg)" "remaining \<le> fuel" "0 < remaining \<Longrightarrow> bm * bits_per_block + remaining = bpg"
  shows "count_loop c bs remaining bm acc fuel =
    Inr (acc + card {b. bm * bits_per_block \<le> b \<and> b < bm * bits_per_block + remaining \<and> \<not> used c bs b})"
  using assms(2,3)
proof (induction fuel arbitrary: remaining bm acc)
  case 0
  then show ?case by simp
next
  case (Suc fuel)
  show ?case
  proof (cases "remaining = 0")
    case True
    then show ?thesis by simp
  next
    case False
    let ?now = "min remaining bits_per_block" and ?lo = "bm * bits_per_block"
    let ?F = "\<lambda>lo hi. {b. lo \<le> b \<and> b < hi \<and> \<not> used c bs b}"
    have end_: "?lo + remaining = bpg" using False Suc.prems(2) by simp
    have "?lo < bpg" using end_ False by simp
    then have "bm < bitmap_blocks bpg" using bitmap_covers [of ?lo bpg] by simp
    then obtain buf where rd: "read_block c (bs + bm) = Inr buf"
      using assms(1) by (auto simp: readable_def)
    have nxt: "0 < remaining - ?now \<Longrightarrow> Suc bm * bits_per_block + (remaining - ?now) = bpg"
      using end_ by (simp add: min_def split: if_splits)
    have "remaining - ?now \<le> fuel" using Suc.prems(1) False bits_per_block_pos by linarith
    note IH = Suc.IH [OF this nxt]
    have "?F ?lo (?lo + remaining) = ?F ?lo (?lo + ?now) \<union> ?F (Suc bm * bits_per_block) (Suc bm * bits_per_block + (remaining - ?now))"
      by (auto simp: min_def split: if_splits)
    moreover have "?F ?lo (?lo + ?now) \<inter> ?F (Suc bm * bits_per_block) (Suc bm * bits_per_block + (remaining - ?now)) = {}"
      by (auto simp: min_def split: if_splits)
    ultimately have split: "card (?F ?lo (?lo + remaining)) = card (?F ?lo (?lo + ?now)) +
        card (?F (Suc bm * bits_per_block) (Suc bm * bits_per_block + (remaining - ?now)))"
      by (simp add: card_Un_disjoint)
    show ?thesis
      using False rd unfolding split count_block [OF rd min.cobounded2, symmetric]
      by (simp add: Let_def IH)
  qed
qed

lemma count_free_exact:
  assumes "ready bs bpg c"
  shows "count_free_blocks c bs bpg = Inr (free_blocks bs bpg c)"
  using count_loop_exact [of c bs bpg bpg bpg 0 0] assms
  by (simp add: count_free_blocks_def free_blocks_def ready_def)

section \<open>Ownership\<close>

datatype alloc_call = Plain | Hinted nat | Meta | Reserved nat "nat option"

fun allocation :: "nat \<Rightarrow> nat \<Rightarrow> alloc_call \<Rightarrow> nat \<Rightarrow> tx_context \<Rightarrow> (fault + nat) \<times> tx_context" where
  "allocation bs bpg Plain n c = allocate_extents c bs bpg n"
| "allocation bs bpg (Hinted h) n c = allocate_extents_hinted c bs bpg n h"
| "allocation bs bpg Meta n c = allocate_extents_meta c bs bpg n"
| "allocation bs bpg (Reserved extra h) n c = allocate_extents_reserved c bs bpg (n + extra) n h"

lemma allocation_granted:
  assumes "ready bs bpg c" "allocation bs bpg call n c = (Inr s, c')"
  shows "0 < n \<and> granted bs bpg s n c c'"
  using assms
  by (cases call) (auto dest: plain.alloc_granted hinted.alloc_granted meta.alloc_granted reserved.alloc_granted)

lemma allocation_failed:
  assumes "ready bs bpg c" "allocation bs bpg call n c = (Inl e, c')"
  shows "c' = c \<and> (n = 0 \<and> e = Failed InvalidInput \<or>
    n > 0 \<and> e = Failed OutOfMemory \<and> (\<forall>s. \<not> free_run (used c bs) bpg n s))"
  using assms
  by (cases call) (simp_all add: plain.alloc_total hinted.alloc_total meta.alloc_total reserved.alloc_total)

text \<open>
  The steps of the clients of one block group: an allocation through any entry point (the granted
  run is then owned), the release of an owned run, and a write to a block outside the bitmap.
\<close>
inductive space_step :: "nat \<Rightarrow> nat \<Rightarrow> tx_context \<times> (nat \<times> nat) list \<Rightarrow> tx_context \<times> (nat \<times> nat) list \<Rightarrow> bool"
  for bs bpg where
  grant: "allocation bs bpg call n c = (Inr s, c') \<Longrightarrow> space_step bs bpg (c, rs) (c', (s, n) # rs)"
| refuse: "allocation bs bpg call n c = (Inl e, c') \<Longrightarrow> space_step bs bpg (c, rs) (c', rs)"
| give_back: "(s, n) \<in> set rs \<Longrightarrow> free_extents c bs s n = (r, c') \<Longrightarrow>
    space_step bs bpg (c, rs) (c', remove1 (s, n) rs)"
| data: "b \<notin> {bs..<bs + bitmap_blocks bpg} \<Longrightarrow> length buf = block_size \<Longrightarrow>
    space_step bs bpg (c, rs) (write_block c b buf, rs)"

definition run_blocks :: "(nat \<times> nat) list \<Rightarrow> nat list" where
  "run_blocks rs = concat (map (\<lambda>(s, n). [s..<s + n]) rs)"

definition space_inv :: "nat \<Rightarrow> nat \<Rightarrow> int \<Rightarrow> tx_context \<times> (nat \<times> nat) list \<Rightarrow> bool" where
  "space_inv bs bpg total_space = (\<lambda>(c, rs). ready bs bpg c \<and> distinct (run_blocks rs) \<and>
     (\<forall>b\<in>set (run_blocks rs). b < bpg \<and> used c bs b) \<and>
     int (free_blocks bs bpg c) + alloc_delta (ctx_tx c) = total_space)"

lemma run_blocks_Cons [simp]: "run_blocks ((s, n) # rs) = [s..<s + n] @ run_blocks rs"
  by (simp add: run_blocks_def)

lemma run_blocks_remove1:
  "distinct (run_blocks rs) \<Longrightarrow> (s, n) \<in> set rs \<Longrightarrow>
     distinct (run_blocks (remove1 (s, n) rs)) \<and>
     set (run_blocks (remove1 (s, n) rs)) = set (run_blocks rs) - {s..<s + n}"
proof (induction rs)
  case Nil
  then show ?case by simp
next
  case (Cons r rs)
  obtain s' n' where r: "r = (s', n')" by (cases r)
  show ?case
  proof (cases "r = (s, n)")
    case True
    with Cons.prems show ?thesis by auto
  next
    case False
    with Cons.prems r have "(s, n) \<in> set rs" by auto
    then have "{s..<s + n} \<subseteq> set (run_blocks rs)" by (force simp: run_blocks_def)
    with False Cons r show ?thesis by auto
  qed
qed

lemma free_extents_marked:
  assumes "ready bs bpg c" "s + n \<le> bpg" "free_extents c bs s n = (r, c')"
  shows "r = Inr ()" "marked bs bpg s n False c c'"
    "alloc_delta (ctx_tx c') = alloc_delta (ctx_tx c) - int n"
proof -
  let ?c = "add_delta (- int n) c"
  have "ready bs bpg ?c"
    using assms(1) by (simp add: ready_def readable_def blocks_sized_def)
  from modify_marked [OF this assms(2), of False]
  have m: "r = Inr ()" "marked bs bpg s n False ?c c'" "same_frame ?c c'"
    using assms(3) by (auto simp: free_extents_def mark_blocks_free_def)
  then show "r = Inr ()" "marked bs bpg s n False c c'"
    "alloc_delta (ctx_tx c') = alloc_delta (ctx_tx c) - int n"
    using used_same_reads [OF read_block_hints(3), of "- int n" c]
    by (simp_all add: marked_def same_frame_def) (simp add: add_delta_def)
qed

lemma unmarked_free_blocks:
  assumes "marked bs bpg s n False c c'" "s + n \<le> bpg" "\<And>b. s \<le> b \<Longrightarrow> b < s + n \<Longrightarrow> used c bs b"
  shows "free_blocks bs bpg c' = free_blocks bs bpg c + n"
proof -
  have "{b. b < bpg \<and> \<not> used c' bs b} = {b. b < bpg \<and> \<not> used c bs b} \<union> {s..<s + n}"
    using assms by (auto simp: marked_def split: if_splits)
  moreover have "{b. b < bpg \<and> \<not> used c bs b} \<inter> {s..<s + n} = {}"
    using assms(3) by auto
  ultimately show ?thesis by (simp add: free_blocks_def card_Un_disjoint)
qed

lemma used_outside_write:
  assumes "b \<notin> {bs..<bs + bitmap_blocks bpg}" "length buf = block_size" "x < bpg"
  shows "used (write_block c b buf) bs x = used c bs x"
  using assms bitmap_covers [OF assms(3)] by (auto simp: used_def ctx_store.read_write)

lemma space_step_inv:
  "space_step bs bpg st st' \<Longrightarrow> space_inv bs bpg k st \<Longrightarrow> space_inv bs bpg k st'"
proof (induction rule: space_step.induct)
  case (grant call n c s c' rs)
  then have i: "ready bs bpg c" "distinct (run_blocks rs)" "\<And>b. b \<in> set (run_blocks rs) \<Longrightarrow> b < bpg \<and> used c bs b"
    "int (free_blocks bs bpg c) + alloc_delta (ctx_tx c) = k" by (auto simp: space_inv_def)
  have g: "free_run (used c bs) bpg n s" "marked bs bpg s n True c c'"
    "alloc_delta (ctx_tx c') = alloc_delta (ctx_tx c) + int n"
    using allocation_granted [OF i(1) grant(1)] by (auto simp: granted_def)
  have "set (run_blocks rs) \<inter> {s..<s + n} = {}" using i(3) g(1) by (fastforce simp: free_run_def)
  moreover have "\<forall>b\<in>{s..<s + n} \<union> set (run_blocks rs). b < bpg \<and> used c' bs b"
    using i(3) g(1,2) by (auto simp: marked_def free_run_def)
  moreover have "int (free_blocks bs bpg c') + alloc_delta (ctx_tx c') = k"
    using marked_free_blocks [OF g(2,1)] g(3) i(4) by linarith
  ultimately show ?case using i(2) g(2) by (auto simp: space_inv_def marked_def)
next
  case (refuse call n c e c' rs)
  then show ?case using allocation_failed [of bs bpg c call n e c'] by (simp add: space_inv_def)
next
  case (give_back s n rs c r c')
  then have i: "ready bs bpg c" "distinct (run_blocks rs)" "\<And>b. b \<in> set (run_blocks rs) \<Longrightarrow> b < bpg \<and> used c bs b"
    "int (free_blocks bs bpg c) + alloc_delta (ctx_tx c) = k" by (auto simp: space_inv_def)
  have sub: "{s..<s + n} \<subseteq> set (run_blocks rs)" using give_back(1) by (force simp: run_blocks_def)
  then have own: "\<And>b. s \<le> b \<Longrightarrow> b < s + n \<Longrightarrow> b < bpg \<and> used c bs b" using i(3) by auto
  show ?case
  proof (cases "n = 0")
    case True
    then have "c' = add_delta 0 c"
      using give_back(2) by (simp add: free_extents_def mark_blocks_free_def modify_blocks_def)
    then have "c' = c" by (simp add: add_delta_def)
    with True give_back i run_blocks_remove1 [OF i(2) give_back(1)] show ?thesis
      by (simp add: space_inv_def)
  next
    case False
    then have le: "s + n \<le> bpg" using own [of "s + n - 1"] by linarith
    note m = free_extents_marked [OF i(1) le give_back(2)]
    have "int (free_blocks bs bpg c') + alloc_delta (ctx_tx c') = k"
      using unmarked_free_blocks [OF m(2) le] own m(3) i(4) by simp
    with m(2) run_blocks_remove1 [OF i(2) give_back(1)] i(3) show ?thesis
      by (auto simp: space_inv_def marked_def)
  qed
next
  case (data b buf c rs)
  note u = used_outside_write [OF data(1,2), of _ c]
  have "free_blocks bs bpg (write_block c b buf) = free_blocks bs bpg c"
    unfolding free_blocks_def using u by (intro arg_cong [where f = card]) auto
  with data u show ?case
    by (auto simp: space_inv_def ready_def blocks_sized_write readable_write)
qed

definition space_initial :: "nat \<Rightarrow> nat \<Rightarrow> int \<Rightarrow> tx_context \<times> (nat \<times> nat) list \<Rightarrow> bool" where
  "space_initial bs bpg k = (\<lambda>(c, rs). rs = [] \<and> ready bs bpg c \<and>
     int (free_blocks bs bpg c) + alloc_delta (ctx_tx c) = k)"

interpretation space: guarded_machine "space_initial bs bpg k" "space_step bs bpg" "space_inv bs bpg k" for bs bpg k
proof
  show "space_initial bs bpg k st \<Longrightarrow> space_inv bs bpg k st" for st
    by (cases st) (simp add: space_initial_def space_inv_def run_blocks_def)
qed (rule space_step_inv)

text \<open>
  C9. No block is handed out twice and no space is lost: after any sequence of allocations through the four
  entry points, releases of owned runs and writes to blocks outside the bitmap, the owned runs
  are pairwise disjoint and inside the group, all their blocks are marked used, \<open>count_free_blocks\<close>
  counts what the bitmap leaves free, and the free count plus the transaction's \<open>alloc_delta\<close> is what it
  was at the start.
\<close>
theorem ownership_and_accounting:
  assumes "ready bs bpg c0" and "(space_step bs bpg)\<^sup>*\<^sup>* (c0, []) (c, rs)"
  shows "distinct (run_blocks rs) \<and> (\<forall>b\<in>set (run_blocks rs). b < bpg \<and> used c bs b) \<and>
    (\<exists>n0 n. count_free_blocks c0 bs bpg = Inr n0 \<and> count_free_blocks c bs bpg = Inr n \<and>
       int n + alloc_delta (ctx_tx c) = int n0 + alloc_delta (ctx_tx c0))"
proof -
  have "space_initial bs bpg (int (free_blocks bs bpg c0) + alloc_delta (ctx_tx c0)) (c0, [])"
    using assms(1) by (simp add: space_initial_def)
  from space.reachable_inv [OF this assms(2)] show ?thesis
    using count_free_exact [OF assms(1)] count_free_exact [of bs bpg c]
    by (simp add: space_inv_def)
qed

text \<open>
  C15. An allocation fails only for want of space: on a readable bitmap each of the four entry points
  returns without a panic, a request for no blocks is an invalid argument, and a request for
  some blocks succeeds exactly when the group has a free run of that length; a refusal changes
  nothing.
\<close>
theorem allocation_complete:
  assumes "ready bs bpg c"
  shows "(case allocation bs bpg call n c of
      (Inr s, c') \<Rightarrow> 0 < n \<and> granted bs bpg s n c c'
    | (Inl e, c') \<Rightarrow> c' = c \<and> (if n = 0 then e = Failed InvalidInput
        else e = Failed OutOfMemory \<and> (\<forall>s. \<not> free_run (used c bs) bpg n s)))"
  using allocation_granted [OF assms, of call n] allocation_failed [OF assms, of call n]
  by (auto split: prod.split sum.split)

theorem allocation_complete_witness:
  "case allocation 10 1000 (Reserved 12 (Some 40)) 4 blank_ctx of
      (Inr s, c') \<Rightarrow> granted 10 1000 s 4 blank_ctx c' | (Inl e, c') \<Rightarrow> False"
proof -
  have r: "ready 10 1000 blank_ctx" by (rule blank_ready) simp
  have "free_run (used blank_ctx 10) 1000 4 0" by (simp add: free_run_def blank_unused)
  then show ?thesis
    using allocation_complete [OF r, where call = "Reserved 12 (Some 40)" and n = 4]
    by (auto split: prod.splits sum.splits)
qed

theorem ownership_and_accounting_witness:
  "\<exists>s c. distinct (run_blocks [(s, 4)]) \<and> (\<forall>b\<in>set (run_blocks [(s, 4)]). b < 1000 \<and> used c 10 b)"
proof -
  have r: "ready 10 1000 blank_ctx" by (rule blank_ready) simp
  have "free_run (used blank_ctx 10) 1000 4 0" by (simp add: free_run_def blank_unused)
  then obtain s c where "allocation 10 1000 Plain 4 blank_ctx = (Inr s, c)"
    using plain.alloc_iff [OF r, of 4] by auto
  then have "(space_step 10 1000)\<^sup>*\<^sup>* (blank_ctx, []) (c, [(s, 4)])"
    by (intro r_into_rtranclp space_step.grant)
  from ownership_and_accounting [OF r this] show ?thesis by blast
qed

end
