(* ===== verification/Gf256.thy ===== *)
theory Gf256
  imports Prelude
begin

text \<open>
  Arithmetic of the field with 256 elements behind the second parity of RAID 6:
  \<^verbatim>\<open>src/crates/lionfs/src/pool/gf256.rs\<close>.

  The log and exp tables are built by the loop of the source over a 16-bit accumulator. The table-driven
  multiplication is shown to be iterated multiplication by the generator, a function that is
  linear over exclusive or; that gives the ring laws and the inverse. The lookup table of a
  coefficient and the unrolled multiply-accumulate are the source's; the process-wide caches (\<open>OnceLock\<close>)
  hold the value of the function they are initialised with and are not modelled apart from it.
\<close>

section \<open>Tables\<close>

definition poly :: "16 word" where
  "poly = 0x11D"

definition next_power :: "16 word \<Rightarrow> 16 word" where
  "next_power x = (let y = push_bit 1 x in if and y 0x100 \<noteq> 0 then xor y poly else y)"

fun table_loop :: "nat \<Rightarrow> nat \<Rightarrow> 16 word \<Rightarrow> byte list \<times> byte list \<Rightarrow> byte list \<times> byte list" where
  "table_loop i 0 x t = t"
| "table_loop i (Suc k) x (e, l) =
     table_loop (Suc i) k (next_power x) (e[i := ucast x], l[unat x := of_nat i])"

definition build_tables :: "byte list \<times> byte list" where
  "build_tables =
     (let (e, l) = table_loop 0 255 1 (replicate 256 0, replicate 256 0) in (e[255 := e ! 0], l))"

definition exp_table :: "byte list" where
  "exp_table = fst build_tables"

definition log_table :: "byte list" where
  "log_table = snd build_tables"

section \<open>Field operations\<close>

definition mul :: "byte \<Rightarrow> byte \<Rightarrow> byte" where
  "mul a b = (if a = 0 \<or> b = 0 then 0
     else exp_table ! ((unat (log_table ! unat a) + unat (log_table ! unat b)) mod 255))"

definition gpow :: "nat \<Rightarrow> byte" where
  "gpow k = exp_table ! (k mod 255)"

definition inv :: "byte \<Rightarrow> byte option" where
  "inv a = (if a = 0 then None else Some (exp_table ! ((255 - unat (log_table ! unat a)) mod 255)))"

definition gdiv :: "byte \<Rightarrow> byte \<Rightarrow> byte option" where
  "gdiv a b = (if a = 0 then Some 0 else map_option (mul a) (inv b))"

fun xor_into :: "byte list \<Rightarrow> byte list \<Rightarrow> byte list" where
  "xor_into [] src = []"
| "xor_into dst [] = dst"
| "xor_into (d # dst) (s # src) = xor d s # xor_into dst src"

definition mul_table_uncached :: "byte \<Rightarrow> byte list" where
  "mul_table_uncached coeff =
     (if coeff = 0 then replicate 256 0
      else map (\<lambda>b. if b = 0 then 0
             else exp_table ! ((unat (log_table ! unat coeff) + unat (log_table ! b)) mod 255)) [0..<256])"

definition mul_tables :: "byte list list" where
  "mul_tables = map (\<lambda>coeff. if coeff = 0 then replicate 256 0 else mul_table_uncached (of_nat coeff)) [0..<256]"

definition mul_table :: "byte \<Rightarrow> byte list" where
  "mul_table coeff = mul_tables ! unat coeff"

fun mul_xor_chunks :: "byte list \<Rightarrow> byte list \<Rightarrow> byte list \<Rightarrow> byte list" where
  "mul_xor_chunks table (d0 # d1 # d2 # d3 # d4 # d5 # d6 # d7 # dst) (s0 # s1 # s2 # s3 # s4 # s5 # s6 # s7 # src) =
     xor d0 (table ! unat s0) # xor d1 (table ! unat s1) # xor d2 (table ! unat s2) # xor d3 (table ! unat s3) #
     xor d4 (table ! unat s4) # xor d5 (table ! unat s5) # xor d6 (table ! unat s6) # xor d7 (table ! unat s7) #
     mul_xor_chunks table dst src"
| "mul_xor_chunks table dst src = map2 (\<lambda>d s. xor d (table ! unat s)) dst src"

definition mul_xor_into :: "byte list \<Rightarrow> byte list \<Rightarrow> byte \<Rightarrow> byte list" where
  "mul_xor_into dst src coeff =
     (let table = mul_tables ! unat coeff; n = min (length dst) (length src)
      in mul_xor_chunks table (take n dst) (take n src) @ drop n dst)"

section \<open>Multiplication by the generator\<close>

definition gtime :: "byte \<Rightarrow> byte" where
  "gtime b = xor (push_bit 1 b) (if bit b 7 then 0x1D else 0)"

lemma gtime_xor: "gtime (xor a b) = xor (gtime a) (gtime b)"
  by (auto simp: gtime_def bit_xor_iff push_bit_xor xor.assoc xor.left_commute xor.commute)

lemma gtime_zero [simp]: "gtime 0 = 0"
  by (simp add: gtime_def)

lemma all_bytes: "(\<forall>b \<in> set (map of_nat [0..<256]). P b) \<Longrightarrow> P (b :: byte)"
proof -
  assume h: "\<forall>b \<in> set (map of_nat [0..<256]). P b"
  have "unat b < 256" using unsigned_less [of b] by simp
  then have "b \<in> set (map of_nat [0..<256])"
    by (auto intro!: image_eqI [of _ _ "unat b"])
  with h show "P b" by blast
qed

lemma next_power_gtime: "next_power (ucast b) = ucast (gtime b)"
  by (rule all_bytes [of "\<lambda>b. next_power (ucast b) = ucast (gtime b)"]) code_simp

lemma gtime_eq_zero: "gtime b = 0 \<longleftrightarrow> b = 0"
proof -
  have "gtime b = 0 \<longrightarrow> b = 0"
    by (rule all_bytes [of "\<lambda>b. gtime b = 0 \<longrightarrow> b = 0"]) code_simp
  then show ?thesis by auto
qed

lemma inj_gtime: "gtime a = gtime b \<Longrightarrow> a = b"
proof -
  assume "gtime a = gtime b"
  then have "gtime (xor a b) = 0" by (simp add: gtime_xor)
  then have "xor a b = 0" by (simp add: gtime_eq_zero)
  then show "a = b" by (metis xor.right_neutral xor_self_eq xor.assoc xor.commute)
qed

definition g :: "nat \<Rightarrow> byte" where
  "g i = (gtime ^^ i) 1"

lemma g_Suc: "g (Suc i) = gtime (g i)"
  by (simp add: g_def)

lemma g_zero: "g 0 = 1"
  by (simp add: g_def)

lemma gtime_pow_g: "(gtime ^^ i) (g j) = g (i + j)"
  by (simp add: g_def funpow_add)

lemma inj_gtime_pow: "(gtime ^^ i) a = (gtime ^^ i) b \<Longrightarrow> a = b"
  by (induction i) (auto dest: inj_gtime)

lemma gtime_pow_xor: "(gtime ^^ i) (xor a b) = xor ((gtime ^^ i) a) ((gtime ^^ i) b)"
  by (induction i) (simp_all add: gtime_xor)

lemma gtime_pow_zero [simp]: "(gtime ^^ i) 0 = 0"
  by (induction i) simp_all

lemma g_nonzero: "g i \<noteq> 0"
proof (induction i)
  case 0
  then show ?case by (simp add: g_zero)
next
  case (Suc i)
  then show ?case by (simp add: g_Suc gtime_eq_zero)
qed

section \<open>The generator has order 255\<close>

lemma g_period_sub: "g b = 1 \<Longrightarrow> g a = 1 \<Longrightarrow> a \<le> b \<Longrightarrow> g (b - a) = 1"
  using gtime_pow_g [of a "b - a"] gtime_pow_g [of a 0] inj_gtime_pow [of a "g (b - a)" "g 0"]
  by (simp add: g_zero)

lemma g_period_add: "g a = 1 \<Longrightarrow> g (a + b) = g b"
  using gtime_pow_g [of b a] by (simp add: add.commute) (simp add: g_def)

lemma g_period_mult: "g a = 1 \<Longrightarrow> g (k * a) = 1"
  by (induction k) (simp_all add: g_period_add g_zero)

lemma g_period_gcd: "g a = 1 \<Longrightarrow> g b = 1 \<Longrightarrow> g (gcd a b) = 1"
proof (induction a b rule: gcd_nat_induct)
  case (base m)
  then show ?case by simp
next
  case (step m n)
  have "g (m - m div n * n) = 1"
    using g_period_sub [OF step.prems(1) g_period_mult [OF step.prems(2), of "m div n"]] by simp
  then have "g (m mod n) = 1" by (simp add: minus_div_mult_eq_mod)
  with step.IH step.prems(2) have "g (gcd n (m mod n)) = 1" by blast
  then show ?case by (subst gcd_red_nat)
qed

definition powers :: "byte list" where
  "powers =
     [1, 2, 4, 8, 16, 32, 64, 128, 29, 58, 116, 232, 205, 135, 19, 38, 76, 152, 45, 90, 180,
      117, 234, 201, 143, 3, 6, 12, 24, 48, 96, 192, 157, 39, 78, 156, 37, 74, 148, 53, 106,
      212, 181, 119, 238, 193, 159, 35, 70, 140, 5, 10, 20, 40, 80, 160, 93, 186, 105, 210, 185,
      111, 222, 161, 95, 190, 97, 194, 153, 47, 94, 188, 101, 202, 137, 15, 30, 60, 120, 240,
      253, 231, 211, 187, 107, 214, 177, 127, 254, 225, 223, 163, 91, 182, 113, 226, 217, 175,
      67, 134, 17, 34, 68, 136, 13, 26, 52, 104, 208, 189, 103, 206, 129, 31, 62, 124, 248, 237,
      199, 147, 59, 118, 236, 197, 151, 51, 102, 204, 133, 23, 46, 92, 184, 109, 218, 169, 79,
      158, 33, 66, 132, 21, 42, 84, 168, 77, 154, 41, 82, 164, 85, 170, 73, 146, 57, 114, 228,
      213, 183, 115, 230, 209, 191, 99, 198, 145, 63, 126, 252, 229, 215, 179, 123, 246, 241,
      255, 227, 219, 171, 75, 150, 49, 98, 196, 149, 55, 110, 220, 165, 87, 174, 65, 130, 25,
      50, 100, 200, 141, 7, 14, 28, 56, 112, 224, 221, 167, 83, 166, 81, 162, 89, 178, 121, 242,
      249, 239, 195, 155, 43, 86, 172, 69, 138, 9, 18, 36, 72, 144, 61, 122, 244, 245, 247, 243,
      251, 235, 203, 139, 11, 22, 44, 88, 176, 125, 250, 233, 207, 131, 27, 54, 108, 216, 173,
      71, 142, 1]"

lemma powers_step: "map gtime (butlast powers) = tl powers" "length powers = 256" "powers ! 0 = 1"
  by code_simp (simp_all add: powers_def)

lemma g_powers: "i < 256 \<Longrightarrow> g i = powers ! i"
proof (induction i)
  case 0
  then show ?case by (simp add: g_zero powers_step)
next
  case (Suc i)
  have "powers ! Suc i = tl powers ! i"
    using Suc.prems powers_step(2) by (simp add: nth_tl)
  also have "\<dots> = gtime (powers ! i)"
    using Suc.prems powers_step(2) by (simp flip: powers_step(1) add: nth_butlast)
  finally show ?case using Suc by (simp add: g_Suc)
qed

lemma g_values: "g 255 = 1" "g 85 \<noteq> 1" "g 51 \<noteq> 1" "g 15 \<noteq> 1"
  by (simp_all add: g_powers powers_def)

lemma proper_divisor_255:
  assumes "d dvd 255" "d < 255"
  shows "d dvd 85 \<or> d dvd 51 \<or> d dvd (15 :: nat)"
proof -
  have "\<forall>d\<in>set [0..<255]. d dvd (255 :: nat) \<longrightarrow> d dvd 85 \<or> d dvd 51 \<or> d dvd 15" by code_simp
  with assms show ?thesis by simp
qed

lemma g_period_min: "0 < m \<Longrightarrow> m < 255 \<Longrightarrow> g m \<noteq> 1"
proof
  assume m: "0 < m" "m < 255" "g m = 1"
  let ?d = "gcd m 255"
  have d: "g ?d = 1" using g_period_gcd m(3) g_values(1) by blast
  have "?d \<le> m" using m(1) by (simp add: gcd_le1_nat)
  then have "?d dvd 85 \<or> ?d dvd 51 \<or> ?d dvd 15"
    using m(2) by (intro proper_divisor_255) auto
  then show False
    using g_period_mult [OF d] g_values(2-4) by (metis dvd_def mult.commute)
qed

lemma g_mod: "g (i mod 255) = g i"
  using g_period_add [OF g_period_mult [OF g_values(1)], of "i div 255" "i mod 255"] by simp

lemma g_inj: "i < 255 \<Longrightarrow> j < 255 \<Longrightarrow> g i = g j \<Longrightarrow> i = j"
proof (induction i j rule: linorder_wlog)
  case (le i j)
  have "g (j - i) = 1"
    using le gtime_pow_g [of i "j - i"] gtime_pow_g [of i 0] inj_gtime_pow [of i "g (j - i)" "g 0"]
    by (simp add: g_zero)
  with le g_period_min [of "j - i"] show ?case by force
next
  case (sym i j)
  then show ?case by metis
qed

lemma g_onto: "b \<noteq> 0 \<Longrightarrow> \<exists>i<255. b = g i"
proof -
  assume "b \<noteq> 0"
  have "card (g ` {..<255}) = 255"
    using g_inj by (subst card_image) (auto simp: inj_on_def)
  moreover have "card (UNIV - {0 :: byte}) = 255"
    by (subst card_Diff_singleton) (simp_all add: card_word)
  moreover have "g ` {..<255} \<subseteq> UNIV - {0}" using g_nonzero by auto
  ultimately have "g ` {..<255} = UNIV - {0}" by (intro card_subset_eq) auto
  with \<open>b \<noteq> 0\<close> show ?thesis by blast
qed

section \<open>The tables hold logarithms and powers\<close>

lemma table_loop_spec:
  assumes "i + k \<le> 255" "255 \<le> length e" "length l = 256"
    "\<And>j. j < i \<Longrightarrow> e ! j = g j \<and> l ! unat (g j) = of_nat j"
  shows "\<exists>e' l'. table_loop i k (ucast (g i)) (e, l) = (e', l') \<and> length e' = length e \<and> length l' = 256 \<and>
    (\<forall>j<i + k. e' ! j = g j \<and> l' ! unat (g j) = of_nat j)"
  using assms
proof (induction k arbitrary: i e l)
  case 0
  then show ?case by simp
next
  case (Suc k)
  have lt: "unat (g i) < 256" using unsigned_less [of "g i"] by simp
  then have u: "unat (ucast (g i) :: 16 word) = unat (g i)"
    by (simp add: unsigned_ucast_eq take_bit_nat_eq_self)
  with lt have c: "ucast (ucast (g i) :: 16 word) = g i"
    by (simp add: word_unat_eq_iff unsigned_ucast_eq take_bit_nat_eq_self take_bit_word_eq_self)
  have ne: "unat (g j) \<noteq> unat (g i)" if "j < i" for j
    using g_inj [of j i] that Suc.prems(1) by (auto simp: word_unat_eq_iff)
  have upd: "e[i := g i] ! j = g j \<and> l[unat (g i) := of_nat i] ! unat (g j) = of_nat j" if "j < Suc i" for j
  proof (cases "j = i")
    case True
    then show ?thesis using Suc.prems lt by simp
  next
    case False
    then have "j < i" using that by simp
    then show ?thesis using Suc.prems(4) [of j] ne [of j] False by simp
  qed
  have "\<exists>e' l'. table_loop (Suc i) k (ucast (g (Suc i))) (e[i := g i], l[unat (g i) := of_nat i]) = (e', l') \<and>
      length e' = length (e[i := g i]) \<and> length l' = 256 \<and> (\<forall>j<Suc i + k. e' ! j = g j \<and> l' ! unat (g j) = of_nat j)"
    using Suc.prems(1-3) by (intro Suc.IH upd) simp_all
  then show ?case by (simp add: next_power_gtime g_Suc u c)
qed

lemma tables_spec:
  shows exp_g: "j < 255 \<Longrightarrow> exp_table ! j = g j"
    and log_g: "j < 255 \<Longrightarrow> log_table ! unat (g j) = of_nat j"
proof -
  obtain e l where run: "table_loop 0 255 1 (replicate 256 0, replicate 256 0) = (e, l)"
    and "length e = 256" and t: "\<forall>j<255. e ! j = g j \<and> l ! unat (g j) = of_nat j"
    using table_loop_spec [of 0 255 "replicate 256 0" "replicate 256 0"] by (auto simp: g_zero)
  then show "j < 255 \<Longrightarrow> exp_table ! j = g j" "j < 255 \<Longrightarrow> log_table ! unat (g j) = of_nat j"
    by (simp_all add: exp_table_def log_table_def build_tables_def)
qed

lemma log_nat: "j < 255 \<Longrightarrow> unat (log_table ! unat (g j)) = j"
  by (simp add: log_g unat_of_nat)

lemma gpow_g: "gpow k = g k"
  by (simp add: gpow_def exp_g g_mod)

section \<open>Field laws\<close>

lemma mul_g: "i < 255 \<Longrightarrow> mul (g i) b = (gtime ^^ i) b"
proof (cases "b = 0")
  case True
  then show ?thesis by (simp add: mul_def)
next
  case False
  assume i: "i < 255"
  obtain j where j: "j < 255" "b = g j" using g_onto [OF False] by blast
  with i show ?thesis
    by (simp add: mul_def g_nonzero log_nat exp_g g_mod gtime_pow_g)
qed

lemma mul_commute: "mul a b = mul b a"
  by (simp add: mul_def add.commute disj_commute)

lemma mul_zero [simp]: "mul a 0 = 0" "mul 0 a = 0"
  by (simp_all add: mul_def)

lemma mul_xor: "mul a (xor b c) = xor (mul a b) (mul a c)"
proof (cases "a = 0")
  case False
  then obtain i where "i < 255" "a = g i" using g_onto by blast
  then show ?thesis by (simp add: mul_g gtime_pow_xor)
qed simp

lemma mul_xor2: "mul (xor a b) c = xor (mul a c) (mul b c)"
  using mul_xor [of c a b] by (simp add: mul_commute)

lemma mul_assoc: "mul (mul a b) c = mul a (mul b c)"
proof (cases "a = 0 \<or> b = 0")
  case False
  then obtain i j where i: "i < 255" "a = g i" and j: "j < 255" "b = g j" using g_onto by metis
  have "mul (g i) (g j) = g ((i + j) mod 255)" using i(1) by (simp add: mul_g gtime_pow_g g_mod)
  moreover have "(gtime ^^ ((i + j) mod 255)) c = (gtime ^^ i) ((gtime ^^ j) c)" (is "?l = ?r")
  proof (cases "c = 0")
    case False
    then obtain k where "c = g k" using g_onto by blast
    then have "?l = g ((i + j) mod 255 + k)" "?r = g (i + j + k)" by (simp_all add: gtime_pow_g add.assoc)
    moreover have "((i + j) mod 255 + k) mod 255 = (i + j + k) mod 255" by (rule mod_add_left_eq)
    ultimately show ?thesis by (metis g_mod)
  qed simp
  ultimately show ?thesis using i j by (simp add: mul_g)
qed auto

lemma mul_one [simp]: "mul 1 a = a" "mul a 1 = a"
  using mul_g [of 0 a] by (simp_all add: g_zero mul_commute [of a])

lemma inv_mul: "a \<noteq> 0 \<Longrightarrow> \<exists>x. inv a = Some x \<and> mul a x = 1"
proof -
  assume "a \<noteq> 0"
  then obtain i where i: "i < 255" "a = g i" using g_onto by blast
  have "inv a = Some (g (255 - i))" using i g_nonzero by (simp add: inv_def log_nat exp_g g_mod)
  moreover have "mul a (g (255 - i)) = 1" using i by (simp add: mul_g gtime_pow_g g_values)
  ultimately show ?thesis by blast
qed

lemma gdiv_mul: "d \<noteq> 0 \<Longrightarrow> gdiv (mul d x) d = Some x"
proof -
  assume d: "d \<noteq> 0"
  then obtain y where y: "inv d = Some y" "mul d y = 1" using inv_mul by blast
  have "mul (mul d x) y = x"
    by (metis mul_assoc mul_commute mul_one(1) y(2))
  then show ?thesis
    by (auto simp: gdiv_def y(1))
qed

lemma g_sum_nonzero: "x < 255 \<Longrightarrow> y < 255 \<Longrightarrow> x \<noteq> y \<Longrightarrow> xor (g x) (g y) \<noteq> 0"
  using g_inj [of x y] by (metis xor.assoc xor.right_neutral xor_self_eq xor.commute)

section \<open>Table-driven multiply-accumulate\<close>

lemma mul_table_nth: "mul_table c ! unat b = mul c b"
proof -
  have lt: "unat c < 256" "unat b < 256" using unsigned_less [of c] unsigned_less [of b] by simp_all
  have "mul_table c = (if c = 0 then replicate 256 0 else mul_table_uncached c)"
    using lt(1) by (simp add: mul_table_def mul_tables_def unat_eq_0)
  then show ?thesis
    using lt(2) by (simp add: mul_table_uncached_def mul_def unat_eq_0)
qed

lemma mul_xor_chunks_map:
  "length dst = length src \<Longrightarrow> mul_xor_chunks t dst src = map2 (\<lambda>d s. xor d (t ! unat s)) dst src"
  by (induction t dst src rule: mul_xor_chunks.induct) auto

lemma mul_xor_into_map:
  "length dst = length src \<Longrightarrow> mul_xor_into dst src c = map2 (\<lambda>d s. xor d (mul c s)) dst src"
  using mul_table_nth [of c] by (simp add: mul_xor_into_def mul_xor_chunks_map mul_table_def)

lemma xor_into_map: "length dst = length src \<Longrightarrow> xor_into dst src = map2 xor dst src"
  by (induction dst src rule: xor_into.induct) auto


end
