(* ===== verification/Raid.thy ===== *)
theory Raid
  imports Gf256 Tx_Context
begin

text \<open>
  Address mapping and parity of the RAID profiles: \<^verbatim>\<open>src/crates/lionfs/src/pool/raid.rs\<close>.

  The layout of a logical block is a function of the profile, the chunk size and the number of devices;
  device numbers and block numbers are \<open>nat\<close>, and the subtractions of the source stay in range because a
  pool has at least \<open>min_devices\<close> devices. Parity works on blocks as lists of bytes; an inverse of zero,
  which the source refuses by an assertion, makes the dual reconstruction \<open>None\<close>.
\<close>

section \<open>Profiles and layouts\<close>

datatype raid_profile = Single | Raid0 | Raid1 | Raid5 | Raid6 | Raid10

definition from_u8 :: "nat \<Rightarrow> raid_profile" where
  "from_u8 v = (if v = 1 then Raid0 else if v = 2 then Raid1 else if v = 5 then Raid5
     else if v = 6 then Raid6 else if v = 10 then Raid10 else Single)"

fun min_devices :: "raid_profile \<Rightarrow> nat" where
  "min_devices Single = 1"
| "min_devices Raid0 = 2"
| "min_devices Raid1 = 2"
| "min_devices Raid5 = 3"
| "min_devices Raid6 = 4"
| "min_devices Raid10 = 4"

record stripe_layout =
  phys_block :: nat
  data_devs :: "nat list"
  col_index :: nat
  parity_devs :: "nat list"
  other_data :: "(nat \<times> nat) list"

record raid_engine =
  profile :: raid_profile
  chunk_size_blocks :: nat
  num_devices :: nat

definition recommended_chunk_size_blocks :: "nat \<Rightarrow> nat" where
  "recommended_chunk_size_blocks sector_size =
     (let chunk = 32;
          chunk' = (if 0 < sector_size then
             let chunk_bytes = chunk * block_size; rem = chunk_bytes mod sector_size
             in if rem \<noteq> 0 then chunk - max ((rem + block_size - 1) div block_size) 1 else chunk
           else chunk)
      in max chunk' 1)"

definition engine_new :: "raid_profile \<Rightarrow> nat \<Rightarrow> nat \<Rightarrow> raid_engine" where
  "engine_new pr chunk n =
     \<lparr>profile = pr, chunk_size_blocks = (if chunk = 0 then 1 else chunk), num_devices = n\<rparr>"

definition simple_stripe :: "raid_engine \<Rightarrow> nat \<Rightarrow> nat \<Rightarrow> nat \<times> nat" where
  "simple_stripe e logical devices =
     (let stripe_idx = logical div chunk_size_blocks e; off = logical mod chunk_size_blocks e
      in (stripe_idx mod devices, stripe_idx div devices * chunk_size_blocks e + off))"

definition data_layout :: "nat \<Rightarrow> nat list \<Rightarrow> stripe_layout" where
  "data_layout phys devs =
     \<lparr>phys_block = phys, data_devs = devs, col_index = 0, parity_devs = [], other_data = []\<rparr>"

definition row_layout :: "raid_engine \<Rightarrow> nat \<Rightarrow> (nat \<Rightarrow> nat list) \<Rightarrow> nat \<Rightarrow> stripe_layout" where
  "row_layout e data_width parity logical =
     (let chunk_idx = logical div chunk_size_blocks e; off = logical mod chunk_size_blocks e;
          row = chunk_idx div data_width; col = chunk_idx mod data_width;
          devs_in_row = filter (\<lambda>d. d \<notin> set (parity row)) [0..<num_devices e]
      in \<lparr>phys_block = row * chunk_size_blocks e + off, data_devs = [devs_in_row ! col], col_index = col,
          parity_devs = parity row,
          other_data = map (\<lambda>(c, d). (d, c)) (filter (\<lambda>(c, d). c \<noteq> col) (enumerate 0 devs_in_row))\<rparr>)"

definition layout :: "raid_engine \<Rightarrow> nat \<Rightarrow> stripe_layout" where
  "layout e logical =
     (case profile e of
        Single \<Rightarrow> data_layout logical [0]
      | Raid0 \<Rightarrow> (let (dev, phys) = simple_stripe e logical (num_devices e) in data_layout phys [dev])
      | Raid1 \<Rightarrow> data_layout logical [0..<num_devices e]
      | Raid10 \<Rightarrow>
          (let pairs = num_devices e div 2; (pair_idx, phys) = simple_stripe e logical (max pairs 1);
               base = pair_idx * 2
           in data_layout phys [base, base + 1])
      | Raid5 \<Rightarrow> row_layout e (num_devices e - 1) (\<lambda>row. [row mod num_devices e]) logical
      | Raid6 \<Rightarrow> row_layout e (num_devices e - 2)
          (\<lambda>row. [row mod num_devices e, (row + 1) mod num_devices e]) logical)"

definition map_read :: "raid_engine \<Rightarrow> nat \<Rightarrow> (nat \<times> nat) list" where
  "map_read e logical = (let l = layout e logical in map (\<lambda>d. (d, phys_block l)) (data_devs l))"

definition map_write :: "raid_engine \<Rightarrow> nat \<Rightarrow> (nat \<times> nat) list" where
  "map_write e logical = (let l = layout e logical in map (\<lambda>d. (d, phys_block l)) (data_devs l))"

definition is_parity_profile :: "raid_engine \<Rightarrow> bool" where
  "is_parity_profile e \<longleftrightarrow> profile e = Raid5 \<or> profile e = Raid6"

section \<open>Parity\<close>

definition resize :: "nat \<Rightarrow> byte list \<Rightarrow> byte list" where
  "resize n xs = take n xs @ replicate (n - length xs) 0"

definition compute_raid5_parity :: "byte list list \<Rightarrow> nat \<Rightarrow> byte list" where
  "compute_raid5_parity blocks block_len = foldl xor_into (replicate block_len 0) blocks"

definition compute_raid6_parity :: "(nat \<times> byte list) list \<Rightarrow> nat \<Rightarrow> byte list \<times> byte list" where
  "compute_raid6_parity blocks block_len =
     foldl (\<lambda>(p, q) (col, b). (xor_into p b, mul_xor_into q b (gpow col)))
       (replicate block_len 0, replicate block_len 0) blocks"

definition update_raid5_parity_incremental :: "byte list \<Rightarrow> byte list \<Rightarrow> byte list \<Rightarrow> byte list" where
  "update_raid5_parity_incremental old_data new_data old_p =
     (let p = resize (length old_data) old_p
      in map (\<lambda>(pv, ov, nv). xor pv (xor ov nv)) (zip p (zip old_data new_data)) @
         drop (min (length old_data) (length new_data)) p)"

definition update_raid6_parity_incremental :: "nat \<Rightarrow> byte list \<Rightarrow> byte list \<Rightarrow> byte list \<Rightarrow> byte list \<Rightarrow>
    byte list \<times> byte list" where
  "update_raid6_parity_incremental col old_data new_data old_p old_q =
     (let p = resize (length old_data) old_p; q = resize (length old_data) old_q;
          table = mul_table (gpow col); n = min (length old_data) (length new_data)
      in (map (\<lambda>(pv, ov, nv). xor pv (xor ov nv)) (zip p (zip old_data new_data)) @ drop n p,
          map (\<lambda>(qv, ov, nv). xor qv (table ! unat (xor ov nv))) (zip q (zip old_data new_data)) @ drop n q))"

definition rebuild_single_from_parity :: "byte list \<Rightarrow> byte list list \<Rightarrow> nat \<Rightarrow> byte list" where
  "rebuild_single_from_parity p surviving block_len = foldl xor_into (resize block_len p) surviving"

definition rebuild_double_from_parity :: "byte list \<Rightarrow> byte list \<Rightarrow> (nat \<times> byte list) list \<Rightarrow> nat \<Rightarrow> nat \<Rightarrow> nat \<Rightarrow>
    (byte list \<times> byte list) option" where
  "rebuild_double_from_parity p q surviving x y block_len =
     (let (p', q') = foldl (\<lambda>(p, q) (col, b). (xor_into p b, mul_xor_into q b (gpow col)))
            (replicate block_len 0, replicate block_len 0) surviving;
          a = xor_into (resize block_len p) p'; b = xor_into (resize block_len q) q';
          gx = gpow x; gy = gpow y; denom = xor gx gy
      in case those (map (\<lambda>byt. gdiv byt denom) (mul_xor_into b a gy)) of
           None \<Rightarrow> None
         | Some dx \<Rightarrow> Some (dx, xor_into a dx))"

section \<open>Sums over a row\<close>

definition xorsum :: "('a \<Rightarrow> byte) \<Rightarrow> 'a list \<Rightarrow> byte" where
  "xorsum f xs = foldr (\<lambda>x. xor (f x)) xs 0"

lemma xorsum_simps [simp]: "xorsum f [] = 0" "xorsum f (x # xs) = xor (f x) (xorsum f xs)"
  by (simp_all add: xorsum_def)

lemma xorsum_remove1: "x \<in> set xs \<Longrightarrow> xorsum f xs = xor (f x) (xorsum f (remove1 x xs))"
  by (induction xs) (auto simp: xor.left_commute)

lemma xorsum_mset: "mset xs = mset ys \<Longrightarrow> xorsum f xs = xorsum f ys"
proof (induction xs arbitrary: ys)
  case Nil
  then show ?case by simp
next
  case (Cons x xs)
  then have "x \<in> set ys" "mset xs = mset (remove1 x ys)"
    using mset_eq_setD [OF Cons.prems] by (auto simp flip: Cons.prems)
  then show ?case using Cons.IH [of "remove1 x ys"] xorsum_remove1 [of x ys f] by simp
qed

lemma byte_xor_cancel [simp]: "xor a (xor a b) = (b :: byte)"
  by (simp flip: xor.assoc)

lemma length_xor_into [simp]: "length (xor_into dst src) = length dst"
  by (induction dst src rule: xor_into.induct) auto

lemma xor_into_nth: "length src = length dst \<Longrightarrow> i < length dst \<Longrightarrow> xor_into dst src ! i = xor (dst ! i) (src ! i)"
  by (simp add: xor_into_map)

lemma length_mul_xor_into: "length src = length dst \<Longrightarrow> length (mul_xor_into dst src c) = length dst"
  by (simp add: mul_xor_into_map)

lemma mul_xor_into_nth:
  "length src = length dst \<Longrightarrow> i < length dst \<Longrightarrow> mul_xor_into dst src c ! i = xor (dst ! i) (mul c (src ! i))"
  by (simp add: mul_xor_into_map)

lemma resize_id [simp]: "length xs = n \<Longrightarrow> resize n xs = xs"
  by (simp add: resize_def)

lemma fold_xor_into:
  assumes "\<forall>b\<in>set blocks. length b = length acc"
  shows "length (foldl xor_into acc blocks) = length acc \<and>
    (\<forall>i<length acc. foldl xor_into acc blocks ! i = xor (acc ! i) (xorsum (\<lambda>b. b ! i) blocks))"
  using assms by (induction blocks arbitrary: acc) (auto simp: xor_into_nth xor.assoc)

lemma parity5_nth:
  assumes "\<forall>b\<in>set blocks. length b = n"
  shows "length (compute_raid5_parity blocks n) = n"
    and "i < n \<Longrightarrow> compute_raid5_parity blocks n ! i = xorsum (\<lambda>b. b ! i) blocks"
  using fold_xor_into [of blocks "replicate n 0"] assms by (simp_all add: compute_raid5_parity_def)

lemma fold_pq:
  assumes "\<forall>(c, b)\<in>set blocks. length b = n" "length p = n" "length q = n"
  shows "\<exists>p' q'. foldl (\<lambda>(p, q) (col, b). (xor_into p b, mul_xor_into q b (gpow col))) (p, q) blocks = (p', q') \<and>
    length p' = n \<and> length q' = n \<and>
    (\<forall>i<n. p' ! i = xor (p ! i) (xorsum (\<lambda>(c, b). b ! i) blocks) \<and>
       q' ! i = xor (q ! i) (xorsum (\<lambda>(c, b). mul (g c) (b ! i)) blocks))"
  using assms
proof (induction blocks arbitrary: p q)
  case Nil
  then show ?case by simp
next
  case (Cons cb blocks)
  obtain c b where cb: "cb = (c, b)" by (cases cb)
  have "\<exists>p' q'. foldl (\<lambda>(p, q) (col, b). (xor_into p b, mul_xor_into q b (gpow col)))
      (xor_into p b, mul_xor_into q b (gpow c)) blocks = (p', q') \<and> length p' = n \<and> length q' = n \<and>
    (\<forall>i<n. p' ! i = xor (xor_into p b ! i) (xorsum (\<lambda>(c, b). b ! i) blocks) \<and>
       q' ! i = xor (mul_xor_into q b (gpow c) ! i) (xorsum (\<lambda>(c, b). mul (g c) (b ! i)) blocks))"
    using Cons.prems by (intro Cons.IH) (auto simp: cb length_mul_xor_into)
  then show ?case
    using Cons.prems by (auto simp: cb xor_into_nth mul_xor_into_nth gpow_g xor.assoc)
qed

lemma parity6_nth:
  assumes "\<forall>(c, b)\<in>set blocks. length b = n"
  obtains p q where "compute_raid6_parity blocks n = (p, q)" "length p = n" "length q = n"
    "\<And>i. i < n \<Longrightarrow> p ! i = xorsum (\<lambda>(c, b). b ! i) blocks"
    "\<And>i. i < n \<Longrightarrow> q ! i = xorsum (\<lambda>(c, b). mul (g c) (b ! i)) blocks"
  using fold_pq [OF assms, of "replicate n 0" "replicate n 0"]
  by (auto simp: compute_raid6_parity_def)

section \<open>Reconstruction and incremental update\<close>

lemma zip3_map:
  assumes "length p = n" "length a = n" "length b = n"
  shows "map (\<lambda>(pv, ov, nv). h pv ov nv) (zip p (zip a b)) @ drop n p = map (\<lambda>i. h (p ! i) (a ! i) (b ! i)) [0..<n]"
  using assms by (intro nth_equalityI) auto

lemma rebuild_single:
  assumes "\<forall>b\<in>set blocks. length b = n" "mset blocks = add_mset lost (mset surviving)"
  shows "rebuild_single_from_parity (compute_raid5_parity blocks n) surviving n = lost"
proof -
  let ?p = "compute_raid5_parity blocks n"
  have "set blocks = insert lost (set surviving)" using assms(2) by (metis set_mset_mset set_mset_add_mset_insert)
  then have len: "\<forall>b\<in>set surviving. length b = n" "length lost = n" using assms(1) by auto
  have "foldl xor_into ?p surviving ! i = lost ! i" if "i < n" for i
    using fold_xor_into [of surviving ?p] parity5_nth [OF assms(1)] len that
      xorsum_mset [of blocks "lost # surviving" "\<lambda>b. b ! i"] assms(2)
    by (simp add: xor.assoc)
  then show ?thesis
    using fold_xor_into [of surviving ?p] parity5_nth(1) [OF assms(1)] len
    by (intro nth_equalityI) (simp_all add: rebuild_single_from_parity_def)
qed

lemma parity6_perm:
  assumes "\<forall>(c, b)\<in>set blocks. length b = n" "mset blocks = mset ys" "compute_raid6_parity blocks n = (p, q)"
  shows "length p = n" "length q = n"
    "i < n \<Longrightarrow> p ! i = xorsum (\<lambda>(c, b). b ! i) ys"
    "i < n \<Longrightarrow> q ! i = xorsum (\<lambda>(c, b). mul (g c) (b ! i)) ys"
  using assms(3) xorsum_mset [OF assms(2)] by (rule_tac parity6_nth [OF assms(1)]; simp)+

lemma fold_pq_fst:
  "fst (foldl (\<lambda>(p, q) (col, b). (xor_into p b, mul_xor_into q b (gpow col))) (p, q) blocks) =
     foldl xor_into p (map snd blocks)"
proof (induction blocks arbitrary: p q)
  case (Cons cb blocks)
  then show ?case by (cases cb) simp
qed simp

lemma raid6_p_is_raid5: "fst (compute_raid6_parity blocks n) = compute_raid5_parity (map snd blocks) n"
  by (simp add: compute_raid6_parity_def compute_raid5_parity_def fold_pq_fst)

lemma those_map_Some: "(\<And>x. x \<in> set xs \<Longrightarrow> f x = Some (h x)) \<Longrightarrow> those (map f xs) = Some (map h xs)"
  by (induction xs) auto

lemma double_algebra:
  assumes "xor gx gy \<noteq> 0"
  shows "gdiv (xor (xor (mul gx dx) (mul gy dy)) (mul gy (xor dx dy))) (xor gx gy) = Some dx"
proof -
  have "xor (xor (mul gx dx) (mul gy dy)) (mul gy (xor dx dy)) = mul (xor gx gy) dx"
    by (simp add: mul_xor mul_xor2 xor.assoc xor.left_commute xor.commute)
  with gdiv_mul [OF assms] show ?thesis by simp
qed

text \<open>
  C19. Two lost columns come back: for a row of blocks of one length at distinct columns below 255, with P and
  Q computed over the whole row, \<open>rebuild_double_from_parity\<close> applied to the surviving columns in
  any order returns exactly the two lost blocks, without hitting the refused inverse of zero; and one
  lost block comes back from P alone.
\<close>
theorem rebuild_returns_lost_blocks:
  assumes "\<forall>(c, b)\<in>set blocks. length b = n" and "x < 255" "y < 255" "x \<noteq> y"
    and "mset blocks = add_mset (x, dx) (add_mset (y, dy) (mset surviving))"
    and "compute_raid6_parity blocks n = (p, q)"
  shows "rebuild_double_from_parity p q surviving x y n = Some (dx, dy) \<and>
    rebuild_single_from_parity p (dy # map snd surviving) n = dx"
proof -
  have sb: "set blocks = insert (x, dx) (insert (y, dy) (set surviving))"
    using assms(5) by (metis set_mset_mset set_mset_add_mset_insert)
  then have len: "\<forall>(c, b)\<in>set surviving. length b = n" "length dx = n" "length dy = n" using assms(1) by auto
  have "mset blocks = mset ((x, dx) # (y, dy) # surviving)" using assms(5) by simp
  note pq = parity6_perm [OF assms(1) this assms(6), simplified]
  obtain p' q' where sv: "foldl (\<lambda>(p, q) (col, b). (xor_into p b, mul_xor_into q b (gpow col)))
        (replicate n 0, replicate n 0) surviving = (p', q')" and l': "length p' = n" "length q' = n"
    and pq': "\<And>i. i < n \<Longrightarrow> p' ! i = xorsum (\<lambda>(c, b). b ! i) surviving"
      "\<And>i. i < n \<Longrightarrow> q' ! i = xorsum (\<lambda>(c, b). mul (g c) (b ! i)) surviving"
    using fold_pq [OF len(1), of "replicate n 0" "replicate n 0"] by auto
  let ?a = "xor_into p p'" and ?b = "xor_into q q'"
  let ?c = "mul_xor_into ?b ?a (gpow y)"
  have a: "?a ! i = xor (dx ! i) (dy ! i)" and b: "?b ! i = xor (mul (g x) (dx ! i)) (mul (g y) (dy ! i))"
    if "i < n" for i
    using that pq l' pq' by (simp_all add: xor_into_nth xor.assoc)
  have lc: "length ?c = n" using pq l' by (simp add: length_mul_xor_into)
  have "gdiv (?c ! i) (xor (gpow x) (gpow y)) = Some (dx ! i)" if "i < n" for i
    using that pq(1,2) a b double_algebra [OF g_sum_nonzero [OF assms(2-4)], of "dx ! i" "dy ! i"]
    by (simp add: mul_xor_into_nth gpow_g)
  then have "map (\<lambda>byt. gdiv byt (xor (gpow x) (gpow y))) ?c = map Some dx"
    using lc len(2) by (intro nth_equalityI) simp_all
  then have "those (map (\<lambda>byt. gdiv byt (xor (gpow x) (gpow y))) ?c) = Some dx"
    using those_map_Some [of dx Some "\<lambda>z. z"] by simp
  moreover have "xor_into ?a dx = dy"
    using pq(1) len a by (intro nth_equalityI) (simp_all add: xor_into_nth xor.commute xor.left_commute)
  ultimately have "rebuild_double_from_parity p q surviving x y n = Some (dx, dy)"
    using pq(1,2) by (simp add: rebuild_double_from_parity_def sv Let_def)
  moreover have "rebuild_single_from_parity p (dy # map snd surviving) n = dx"
  proof -
    have "p = compute_raid5_parity (map snd blocks) n" using raid6_p_is_raid5 [of blocks n] assms(6) by simp
    moreover have "mset (map snd blocks) = add_mset dx (mset (dy # map snd surviving))"
      using arg_cong [OF assms(5), of "image_mset snd"] by simp
    moreover have "\<forall>b\<in>set (map snd blocks). length b = n" using assms(1) by fastforce
    ultimately show ?thesis using rebuild_single [of "map snd blocks" n dx "dy # map snd surviving"] by blast
  qed
  ultimately show ?thesis by blast
qed

theorem rebuild_returns_lost_blocks_witness:
  "rebuild_double_from_parity (fst (compute_raid6_parity [(0, [1, 2]), (1, [3, 4]), (2, [5, 6])] 2))
     (snd (compute_raid6_parity [(0, [1, 2]), (1, [3, 4]), (2, [5, 6])] 2)) [(1, [3, 4])] 0 2 2 =
   Some ([1, 2], [5, 6])"
  by (rule conjunct1 [OF rebuild_returns_lost_blocks [where blocks = "[(0, [1, 2]), (1, [3, 4]), (2, [5, 6])]"]]) simp_all

lemma incremental_parity:
  assumes "\<forall>(c, b)\<in>set blocks. length b = n" and "length new = n"
    and "mset blocks = add_mset (col, old) others" and "mset blocks' = add_mset (col, new) others"
  shows "update_raid6_parity_incremental col old new (fst (compute_raid6_parity blocks n))
      (snd (compute_raid6_parity blocks n)) = compute_raid6_parity blocks' n \<and>
    update_raid5_parity_incremental old new (compute_raid5_parity (map snd blocks) n) =
      compute_raid5_parity (map snd blocks') n"
proof -
  obtain ys where ys: "mset ys = others" using ex_mset by blast
  have sets: "set blocks = insert (col, old) (set ys)" "set blocks' = insert (col, new) (set ys)"
    using assms(3,4) ys by (metis set_mset_mset set_mset_add_mset_insert)+
  then have len: "length old = n" "\<forall>(c, b)\<in>set blocks'. length b = n" using assms(1,2) by auto
  obtain p q where pq: "compute_raid6_parity blocks n = (p, q)" by fastforce
  obtain p' q' where pq': "compute_raid6_parity blocks' n = (p', q')" by fastforce
  have "mset blocks = mset ((col, old) # ys)" "mset blocks' = mset ((col, new) # ys)" using assms(3,4) ys by auto
  note o = parity6_perm [OF assms(1) this(1) pq, simplified] and n = parity6_perm [OF len(2) this(2) pq', simplified]
  have p: "map (\<lambda>(pv, ov, nv). xor pv (xor ov nv)) (zip p (zip old new)) @ drop n p = p'"
    using o n len assms(2) by (simp add: zip3_map) (rule nth_equalityI; simp add: xor.assoc xor.left_commute xor.commute)
  have q: "map (\<lambda>(qv, ov, nv). xor qv (mul_table (gpow col) ! unat (xor ov nv))) (zip q (zip old new)) @ drop n q = q'"
    using o n len assms(2)
    by (simp add: zip3_map mul_table_nth gpow_g mul_xor)
      (rule nth_equalityI; simp add: xor.assoc xor.left_commute xor.commute)
  have "p = compute_raid5_parity (map snd blocks) n" "p' = compute_raid5_parity (map snd blocks') n"
    using raid6_p_is_raid5 [of blocks n] raid6_p_is_raid5 [of blocks' n] pq pq' by simp_all
  with p q pq pq' o(1,2) len(1) assms(2) show ?thesis
    by (simp add: update_raid6_parity_incremental_def update_raid5_parity_incremental_def Let_def)
qed

lemma compute6_perm:
  assumes "\<forall>(c, b)\<in>set xs. length b = n" "mset xs = mset ys"
  shows "compute_raid6_parity xs n = compute_raid6_parity ys n"
proof -
  obtain p q p' q' where c: "compute_raid6_parity xs n = (p, q)" "compute_raid6_parity ys n = (p', q')"
    by fastforce
  have "\<forall>(c, b)\<in>set ys. length b = n" using assms mset_eq_setD by metis
  from parity6_perm [OF this refl c(2)] parity6_perm [OF assms c(1)] have "p = p'" "q = q'"
    by (auto intro: nth_equalityI)
  with c show ?thesis by simp
qed

lemma compute5_perm:
  assumes "\<forall>b\<in>set xs. length b = n" "mset xs = mset ys"
  shows "compute_raid5_parity xs n = compute_raid5_parity ys n"
proof -
  have "\<forall>b\<in>set ys. length b = n" using assms mset_eq_setD by metis
  then show ?thesis
    using parity5_nth [of xs n] parity5_nth [of ys n] assms xorsum_mset [OF assms(2)]
    by (intro nth_equalityI) simp_all
qed

text \<open>
  C25. The read-modify-write update agrees with a full recompute: rewriting one column of a row and applying the
  incremental update to the old parity gives the parity of the new row, for P of RAID 5 and for P
  and Q of RAID 6, whatever the other columns hold and in whatever order they are listed.
\<close>
theorem incremental_equals_recompute:
  assumes "\<forall>(c, b)\<in>set blocks. length b = n" and "length new = n"
    and "mset blocks = add_mset (col, old) others" and "mset blocks' = add_mset (col, new) others"
  shows "update_raid6_parity_incremental col old new (fst (compute_raid6_parity blocks n))
      (snd (compute_raid6_parity blocks n)) = compute_raid6_parity blocks' n \<and>
    update_raid5_parity_incremental old new (compute_raid5_parity (map snd blocks) n) =
      compute_raid5_parity (map snd blocks') n"
  by (rule incremental_parity [OF assms])

theorem incremental_equals_recompute_witness:
  "update_raid6_parity_incremental 1 [3, 4] [7, 9] (fst (compute_raid6_parity [(0, [1, 2]), (1, [3, 4])] 2))
      (snd (compute_raid6_parity [(0, [1, 2]), (1, [3, 4])] 2)) = compute_raid6_parity [(1, [7, 9]), (0, [1, 2])] 2"
  by (rule conjunct1 [OF incremental_equals_recompute [where others = "{#(0, [1, 2])#}"]]) simp_all

end
