(* ===== verification/Disk_Pool.thy ===== *)
theory Disk_Pool
  imports Raid
begin

text \<open>
  The block device over a pool of devices: reads, writes, parity maintenance and degraded reads of
  \<^verbatim>\<open>src/crates/lionfs/src/disk/block_io.rs\<close>.

  A device is a map from block numbers to blocks together with a flag for a device that has failed; a block
  that is not in the map cannot be read (a short read is an error). Operations return the pool as
  it is after the writes made before an error. The statistics counters are left out, and the
  environment variable that forces the full parity path is an argument.
\<close>

section \<open>Devices\<close>

record device =
  dev_blocks :: "nat \<rightharpoonup> byte list"
  dev_dead :: bool

record pool =
  engine :: raid_engine
  devices :: "device list"

definition read_full :: "pool \<Rightarrow> nat \<Rightarrow> nat \<Rightarrow> io_error + byte list" where
  "read_full p d b =
     (if dev_dead (devices p ! d) then Inl DeviceError
      else case dev_blocks (devices p ! d) b of None \<Rightarrow> Inl DeviceError | Some data \<Rightarrow> Inr data)"

definition put_block :: "pool \<Rightarrow> nat \<times> nat \<times> byte list \<Rightarrow> pool" where
  "put_block p = (\<lambda>(d, b, buf). p\<lparr>devices := (devices p)[d :=
     (devices p ! d)\<lparr>dev_blocks := (dev_blocks (devices p ! d))(b \<mapsto> buf)\<rparr>]\<rparr>)"

definition pwrite_full :: "pool \<Rightarrow> nat \<times> nat \<times> byte list \<Rightarrow> (io_error + unit) \<times> pool" where
  "pwrite_full p w = (if dev_dead (devices p ! fst w) then (Inl DeviceError, p) else (Inr (), put_block p w))"

fun pwrite_all :: "pool \<Rightarrow> (nat \<times> nat \<times> byte list) list \<Rightarrow> (io_error + unit) \<times> pool" where
  "pwrite_all p [] = (Inr (), p)"
| "pwrite_all p (w # ws) = (case pwrite_full p w of (Inl e, p') \<Rightarrow> (Inl e, p') | (Inr _, p') \<Rightarrow> pwrite_all p' ws)"

fun read_all :: "pool \<Rightarrow> nat \<Rightarrow> (nat \<times> nat) list \<Rightarrow> io_error + byte list list" where
  "read_all p b [] = Inr []"
| "read_all p b ((d, c) # ds) =
     (case read_full p d b of Inl e \<Rightarrow> Inl e
      | Inr data \<Rightarrow> (case read_all p b ds of Inl e \<Rightarrow> Inl e | Inr rest \<Rightarrow> Inr (data # rest)))"

section \<open>Reading\<close>

definition pool_read :: "pool \<Rightarrow> nat \<Rightarrow> io_error + byte list" where
  "pool_read p block_num =
     (if block_num = 0 then read_full p 0 0
      else let (d, phys) = map_read (engine p) block_num ! 0 in read_full p d phys)"

fun first_mirror :: "pool \<Rightarrow> nat \<Rightarrow> nat list \<Rightarrow> io_error + byte list" where
  "first_mirror p b [] = Inl DeviceError"
| "first_mirror p b (d # ds) = (case read_full p d b of Inr data \<Rightarrow> Inr data | Inl e \<Rightarrow> first_mirror p b ds)"

definition reconstruct_block :: "pool \<Rightarrow> nat \<Rightarrow> io_error + byte list" where
  "reconstruct_block p block_num =
     (let l = layout (engine p) block_num
      in if profile (engine p) = Raid1 \<or> profile (engine p) = Raid10 then first_mirror p (phys_block l) (data_devs l)
         else if is_parity_profile (engine p) then
           (case read_all p (phys_block l) (other_data l) of Inl e \<Rightarrow> Inl e
            | Inr surviving \<Rightarrow>
               (case read_full p (parity_devs l ! 0) (phys_block l) of Inl e \<Rightarrow> Inl e
                | Inr par \<Rightarrow> Inr (rebuild_single_from_parity par surviving block_size)))
         else Inl DeviceError)"

definition read_block_resilient :: "pool \<Rightarrow> nat \<Rightarrow> io_error + byte list" where
  "read_block_resilient p block_num =
     (case pool_read p block_num of Inr data \<Rightarrow> Inr data
      | Inl e \<Rightarrow> (case reconstruct_block p block_num of Inr data \<Rightarrow> Inr data | Inl _ \<Rightarrow> Inl e))"

section \<open>Writing\<close>

definition parity_writes :: "raid_engine \<Rightarrow> stripe_layout \<Rightarrow> byte list \<Rightarrow> byte list \<times> byte list \<Rightarrow>
    (nat \<times> nat \<times> byte list) list" where
  "parity_writes e l buf = (\<lambda>(new_p, new_q).
     (data_devs l ! 0, phys_block l, buf) # (parity_devs l ! 0, phys_block l, new_p) #
     (if profile e = Raid6 then [(parity_devs l ! 1, phys_block l, new_q)] else []))"

definition write_parity_full :: "pool \<Rightarrow> nat \<Rightarrow> byte list \<Rightarrow> (io_error + unit) \<times> pool" where
  "write_parity_full p block_num buf =
     (let l = layout (engine p) block_num
      in case read_all p (phys_block l) (other_data l) of Inl e \<Rightarrow> (Inl e, p)
         | Inr other_bufs \<Rightarrow>
             if profile (engine p) = Raid6
             then pwrite_all p (parity_writes (engine p) l buf
                 (compute_raid6_parity ((col_index l, buf) # zip (map snd (other_data l)) other_bufs) (length buf)))
             else pwrite_all p (parity_writes (engine p) l buf
                 (compute_raid5_parity (buf # other_bufs) (length buf), [])))"

definition write_block_parity :: "bool \<Rightarrow> pool \<Rightarrow> nat \<Rightarrow> byte list \<Rightarrow> bool \<Rightarrow> (io_error + unit) \<times> pool" where
  "write_block_parity forced p block_num buf force_full =
     (let l = layout (engine p) block_num; phys = phys_block l
      in if force_full \<or> forced then write_parity_full p block_num buf
         else case read_full p (data_devs l ! 0) phys of Inl e \<Rightarrow> write_parity_full p block_num buf
           | Inr old_data \<Rightarrow>
              (case read_full p (parity_devs l ! 0) phys of Inl e \<Rightarrow> write_parity_full p block_num buf
               | Inr old_p \<Rightarrow>
                  if profile (engine p) = Raid6 then
                    (case read_full p (parity_devs l ! 1) phys of Inl e \<Rightarrow> write_parity_full p block_num buf
                     | Inr old_q \<Rightarrow> pwrite_all p (parity_writes (engine p) l buf
                         (update_raid6_parity_incremental (col_index l) old_data buf old_p old_q)))
                  else pwrite_all p (parity_writes (engine p) l buf
                         (update_raid5_parity_incremental old_data buf old_p, []))))"

definition pool_write :: "bool \<Rightarrow> pool \<Rightarrow> nat \<Rightarrow> byte list \<Rightarrow> (io_error + unit) \<times> pool" where
  "pool_write forced p block_num buf =
     (if block_num = 0 then pwrite_all p (map (\<lambda>d. (d, 0, buf)) [0..<length (devices p)])
      else if is_parity_profile (engine p) then write_block_parity forced p block_num buf False
      else pwrite_all p (map (\<lambda>(d, phys). (d, phys, buf)) (map_write (engine p) block_num)))"

definition write_block_recovery :: "bool \<Rightarrow> pool \<Rightarrow> nat \<Rightarrow> byte list \<Rightarrow> (io_error + unit) \<times> pool" where
  "write_block_recovery forced p block_num buf =
     (if block_num = 0 then pool_write forced p block_num buf
      else if is_parity_profile (engine p) then write_block_parity forced p block_num buf True
      else pool_write forced p block_num buf)"

section \<open>Layout of a parity row\<close>

definition valid_engine :: "raid_engine \<Rightarrow> bool" where
  "valid_engine e \<longleftrightarrow> min_devices (profile e) \<le> num_devices e \<and> 0 < chunk_size_blocks e"

definition parity_row :: "raid_engine \<Rightarrow> nat \<Rightarrow> nat list" where
  "parity_row e row = (if profile e = Raid6 then [row mod num_devices e, (row + 1) mod num_devices e]
     else [row mod num_devices e])"

definition data_width :: "raid_engine \<Rightarrow> nat" where
  "data_width e = (if profile e = Raid6 then num_devices e - 2 else num_devices e - 1)"

definition row_devs :: "raid_engine \<Rightarrow> nat \<Rightarrow> nat list" where
  "row_devs e row = filter (\<lambda>d. d \<notin> set (parity_row e row)) [0..<num_devices e]"

lemma layout_parity: "is_parity_profile e \<Longrightarrow> layout e l = row_layout e (data_width e) (parity_row e) l"
  by (auto simp: is_parity_profile_def layout_def data_width_def parity_row_def row_layout_def Let_def)

lemma distinct_parity_row:
  assumes "valid_engine e" "is_parity_profile e"
  shows "distinct (parity_row e row)" "set (parity_row e row) \<subseteq> {..<num_devices e}"
proof -
  have n: "3 \<le> num_devices e" using assms by (auto simp: valid_engine_def is_parity_profile_def)
  have "row mod num_devices e \<noteq> Suc row mod num_devices e"
    using n by (auto simp: mod_Suc)
  then show "distinct (parity_row e row)" by (simp add: parity_row_def)
  show "set (parity_row e row) \<subseteq> {..<num_devices e}" using n by (auto simp: parity_row_def)
qed

lemma row_devs_facts:
  assumes "valid_engine e" "is_parity_profile e"
  shows "length (row_devs e row) = data_width e" "distinct (row_devs e row)" "1 < data_width e"
    "set (row_devs e row) = {..<num_devices e} - set (parity_row e row)"
proof -
  show s: "set (row_devs e row) = {..<num_devices e} - set (parity_row e row)"
    by (auto simp: row_devs_def)
  show d: "distinct (row_devs e row)" by (simp add: row_devs_def)
  have "length (row_devs e row) = card ({..<num_devices e} - set (parity_row e row))"
    using distinct_card [OF d] s by simp
  also have "\<dots> = num_devices e - card (set (parity_row e row))"
    using distinct_parity_row [OF assms] by (simp add: card_Diff_subset)
  also have "\<dots> = data_width e"
    using distinct_card [OF distinct_parity_row(1) [OF assms]] by (simp add: parity_row_def data_width_def numeral_2_eq_2)
  finally show "length (row_devs e row) = data_width e" .
  show "1 < data_width e" using assms by (auto simp: valid_engine_def is_parity_profile_def data_width_def)
qed

lemma chunk_split:
  "0 < c \<Longrightarrow> (r * c + l mod c) div c = r" "0 < c \<Longrightarrow> (r * c + l mod c) mod c = l mod (c :: nat)"
  by simp_all

lemma parity_layout_facts:
  fixes l :: nat
  assumes "valid_engine e" "is_parity_profile e"
  defines "row \<equiv> phys_block (layout e l) div chunk_size_blocks e"
  shows "data_devs (layout e l) = [row_devs e row ! col_index (layout e l)]"
    "col_index (layout e l) < data_width e"
    "parity_devs (layout e l) = parity_row e row"
    "other_data (layout e l) =
       map (\<lambda>(c, d). (d, c)) (filter (\<lambda>(c, d). c \<noteq> col_index (layout e l)) (enumerate 0 (row_devs e row)))"
    "l = (row * data_width e + col_index (layout e l)) * chunk_size_blocks e +
       phys_block (layout e l) mod chunk_size_blocks e"
proof -
  let ?c = "chunk_size_blocks e" and ?w = "data_width e"
  have c: "0 < ?c" using assms(1) by (simp add: valid_engine_def)
  have w: "0 < ?w" using row_devs_facts(3) [OF assms(1,2)] by simp
  have r: "row = l div ?c div ?w"
    using c by (simp add: row_def layout_parity [OF assms(2)] row_layout_def Let_def)
  show "data_devs (layout e l) = [row_devs e row ! col_index (layout e l)]"
    "col_index (layout e l) < ?w" "parity_devs (layout e l) = parity_row e row"
    "other_data (layout e l) =
       map (\<lambda>(c, d). (d, c)) (filter (\<lambda>(c, d). c \<noteq> col_index (layout e l)) (enumerate 0 (row_devs e row)))"
    using w by (simp_all add: r layout_parity [OF assms(2)] row_layout_def row_devs_def Let_def)
  show "l = (row * ?w + col_index (layout e l)) * ?c + phys_block (layout e l) mod ?c"
    using c by (simp add: r layout_parity [OF assms(2)] row_layout_def Let_def)
qed

section \<open>Healthy pools\<close>

definition loc :: "pool \<Rightarrow> nat \<Rightarrow> nat \<Rightarrow> byte list" where
  "loc p d b = the (dev_blocks (devices p ! d) b)"

definition healthy :: "nat \<Rightarrow> pool \<Rightarrow> bool" where
  "healthy cap p \<longleftrightarrow> valid_engine (engine p) \<and> length (devices p) = num_devices (engine p) \<and>
     (\<forall>d<num_devices (engine p). \<not> dev_dead (devices p ! d) \<and>
        (\<forall>b<cap. \<exists>x. dev_blocks (devices p ! d) b = Some x \<and> length x = block_size))"

lemma read_healthy:
  assumes "healthy cap p" "d < num_devices (engine p)" "b < cap"
  shows "read_full p d b = Inr (loc p d b)" "length (loc p d b) = block_size"
proof -
  obtain x where "\<not> dev_dead (devices p ! d)" "dev_blocks (devices p ! d) b = Some x" "length x = block_size"
    using assms unfolding healthy_def by blast
  then show "read_full p d b = Inr (loc p d b)" "length (loc p d b) = block_size"
    by (simp_all add: read_full_def loc_def)
qed

lemma engine_put [simp]: "engine (put_block p w) = engine p" "length (devices (put_block p w)) = length (devices p)"
  by (auto simp: put_block_def split: prod.split)

lemma engine_puts [simp]: "engine (foldl put_block p ws) = engine p"
  by (induction ws arbitrary: p) simp_all

lemma loc_put:
  "d < length (devices p) \<Longrightarrow> loc (put_block p (d, b, buf)) d' b' = (if d' = d \<and> b' = b then buf else loc p d' b')"
  by (auto simp: loc_def put_block_def nth_list_update)

lemma healthy_put:
  assumes "healthy cap p" "d < num_devices (engine p)" "length buf = block_size"
  shows "healthy cap (put_block p (d, b, buf))"
  using assms by (auto simp: healthy_def put_block_def nth_list_update)

lemma pwrite_all_healthy:
  assumes "healthy cap p" "\<forall>(d, b, buf)\<in>set ws. d < num_devices (engine p) \<and> length buf = block_size"
  shows "pwrite_all p ws = (Inr (), foldl put_block p ws) \<and> healthy cap (foldl put_block p ws)"
  using assms
proof (induction ws arbitrary: p)
  case Nil
  then show ?case by simp
next
  case (Cons w ws)
  obtain d b buf where w: "w = (d, b, buf)" by (cases w)
  have "pwrite_full p w = (Inr (), put_block p w)"
    using Cons.prems by (simp add: w pwrite_full_def healthy_def)
  moreover have "healthy cap (put_block p w)" using Cons.prems by (simp add: w healthy_put)
  ultimately show ?case using Cons by simp
qed

lemma read_all_healthy:
  assumes "healthy cap p" "b < cap" "\<forall>(d, c)\<in>set ds. d < num_devices (engine p)"
  shows "read_all p b ds = Inr (map (\<lambda>(d, c). loc p d b) ds)"
  using assms(3) by (induction ds) (auto simp: read_healthy(1) [OF assms(1) _ assms(2)])

section \<open>Consistent rows\<close>

definition row_data :: "pool \<Rightarrow> nat \<Rightarrow> (nat \<times> byte list) list" where
  "row_data p b = map (\<lambda>(c, d). (c, loc p d b)) (enumerate 0 (row_devs (engine p) (b div chunk_size_blocks (engine p))))"

definition row_ok :: "pool \<Rightarrow> nat \<Rightarrow> bool" where
  "row_ok p b =
     (let e = engine p; par = parity_row e (b div chunk_size_blocks e)
      in case profile e of
           Raid1 \<Rightarrow> \<forall>d<num_devices e. loc p d b = loc p 0 b
         | Raid10 \<Rightarrow> \<forall>k<num_devices e div 2. loc p (2 * k + 1) b = loc p (2 * k) b
         | Raid5 \<Rightarrow> compute_raid5_parity (map snd (row_data p b)) block_size = loc p (par ! 0) b
         | Raid6 \<Rightarrow> compute_raid6_parity (row_data p b) block_size = (loc p (par ! 0) b, loc p (par ! 1) b)
         | _ \<Rightarrow> True)"

definition others :: "pool \<Rightarrow> nat \<Rightarrow> (nat \<times> byte list) list" where
  "others p l = map (\<lambda>(d, c). (c, loc p d (phys_block (layout (engine p) l)))) (other_data (layout (engine p) l))"

lemma filter_enumerate_eq: "k < length xs \<Longrightarrow> filter (\<lambda>(c, d). c = n + k) (enumerate n xs) = [(n + k, xs ! k)]"
proof (induction xs arbitrary: n k)
  case Nil
  then show ?case by simp
next
  case (Cons x xs)
  show ?case
  proof (cases k)
    case 0
    have "filter (\<lambda>(c, d). c = n) (enumerate (Suc n) xs) = []"
      by (auto simp: filter_empty_conv in_set_enumerate_eq)
    with 0 show ?thesis by simp
  next
    case (Suc j)
    with Cons show ?thesis by (simp add: Cons.IH [of j "Suc n", simplified])
  qed
qed

lemma mset_partition_list: "mset xs = mset (filter P xs) + mset (filter (\<lambda>x. \<not> P x) xs)"
  by (induction xs) auto

lemma enumerate_split:
  assumes "k < length xs"
  shows "mset (enumerate 0 xs) = add_mset (k, xs ! k) (mset (filter (\<lambda>(c, d). c \<noteq> k) (enumerate 0 xs)))"
proof -
  have "filter (\<lambda>x. \<not> (case x of (c, d) \<Rightarrow> c = k)) (enumerate 0 xs) = filter (\<lambda>(c, d). c \<noteq> k) (enumerate 0 xs)"
    by (rule filter_cong) auto
  moreover have "filter (\<lambda>(c, d). c = k) (enumerate 0 xs) = [(k, xs ! k)]"
    using filter_enumerate_eq [OF assms, of 0] by simp
  ultimately show ?thesis
    using mset_partition_list [of "enumerate 0 xs" "\<lambda>(c, d). c = k"] by (simp only:) simp
qed

lemma row_split:
  fixes l :: nat
  assumes "valid_engine (engine p)" "is_parity_profile (engine p)"
  defines "ly \<equiv> layout (engine p) l"
  shows "mset (row_data p (phys_block ly)) =
    add_mset (col_index ly, loc p (data_devs ly ! 0) (phys_block ly)) (mset (others p l))"
proof -
  note f = parity_layout_facts [OF assms(1,2), of l]
  let ?r = "row_devs (engine p) (phys_block ly div chunk_size_blocks (engine p))"
  have "col_index ly < length ?r" using f(2) row_devs_facts(1) [OF assms(1,2)] by (simp add: ly_def)
  note split = arg_cong [OF enumerate_split [OF this], of "image_mset (\<lambda>(c, d). (c, loc p d (phys_block ly)))"]
  have o: "others p l = map (\<lambda>(c, d). (c, loc p d (phys_block ly))) (filter (\<lambda>(c, d). c \<noteq> col_index ly) (enumerate 0 ?r))"
    using f(4) by (simp add: others_def ly_def o_def split_def)
  show ?thesis
    using split f(1) unfolding o row_data_def by (simp add: ly_def del: mset_filter)
qed

section \<open>Parity writes\<close>

definition new_row :: "pool \<Rightarrow> nat \<Rightarrow> byte list \<Rightarrow> (nat \<times> byte list) list" where
  "new_row p l buf = (col_index (layout (engine p) l), buf) # others p l"

definition new_parity :: "pool \<Rightarrow> nat \<Rightarrow> byte list \<Rightarrow> byte list \<times> byte list" where
  "new_parity p l buf = (if profile (engine p) = Raid6 then compute_raid6_parity (new_row p l buf) block_size
     else (compute_raid5_parity (map snd (new_row p l buf)) block_size, []))"

lemma parity_devices:
  fixes l :: nat
  assumes "valid_engine e" "is_parity_profile e"
  defines "ly \<equiv> layout e l"
  shows "data_devs ly ! 0 < num_devices e" "parity_devs ly ! 0 < num_devices e"
    "profile e = Raid6 \<Longrightarrow> parity_devs ly ! 1 < num_devices e"
    "\<forall>(d, c)\<in>set (other_data ly). d < num_devices e \<and> d \<noteq> data_devs ly ! 0 \<and> d \<notin> set (parity_devs ly)"
    "data_devs ly ! 0 \<notin> set (parity_devs ly)" "distinct (parity_devs ly)"
    "length (parity_devs ly) = (if profile e = Raid6 then 2 else 1)"
proof -
  let ?r = "phys_block ly div chunk_size_blocks e"
  note f = parity_layout_facts [OF assms(1,2), of l] and r = row_devs_facts(1,2,4) [OF assms(1,2), of ?r]
  note pr = distinct_parity_row [OF assms(1,2), of ?r]
  have col: "col_index ly < length (row_devs e ?r)" using f(2) r(1) by (simp add: ly_def)
  then have "row_devs e ?r ! col_index ly \<in> set (row_devs e ?r)" by simp
  then show "data_devs ly ! 0 < num_devices e" "data_devs ly ! 0 \<notin> set (parity_devs ly)"
    using f(1,3) r(3) by (simp_all add: ly_def)
  show len: "length (parity_devs ly) = (if profile e = Raid6 then 2 else 1)" and "distinct (parity_devs ly)"
    using f(3) pr(1) by (simp_all add: ly_def parity_row_def)
  show "parity_devs ly ! 0 < num_devices e" "profile e = Raid6 \<Longrightarrow> parity_devs ly ! 1 < num_devices e"
    using f(3) pr(2) by (auto simp: ly_def parity_row_def split: if_splits)
  show "\<forall>(d, c)\<in>set (other_data ly). d < num_devices e \<and> d \<noteq> data_devs ly ! 0 \<and> d \<notin> set (parity_devs ly)"
  proof (clarify)
    fix d c
    assume "(d, c) \<in> set (other_data ly)"
    then have c: "c < length (row_devs e ?r)" "d = row_devs e ?r ! c" "c \<noteq> col_index ly"
      using f(4) by (auto simp: ly_def in_set_enumerate_eq)
    then have "d \<in> set (row_devs e ?r)" by simp
    moreover have "d \<noteq> row_devs e ?r ! col_index ly"
      using c col r(2) by (simp add: nth_eq_iff_index_eq)
    ultimately show "d < num_devices e \<and> d \<noteq> data_devs ly ! 0 \<and> d \<notin> set (parity_devs ly)"
      using f(1,3) r(3) by (simp add: ly_def)
  qed
qed

lemma others_length:
  assumes "healthy cap p" "is_parity_profile (engine p)" "phys_block (layout (engine p) l) < cap"
  shows "\<forall>(c, b)\<in>set (others p l). length b = block_size"
proof -
  have v: "valid_engine (engine p)" using assms(1) by (simp add: healthy_def)
  show ?thesis
    using parity_devices(4) [OF v assms(2), of l] read_healthy(2) [OF assms(1) _ assms(3)]
    by (force simp: others_def)
qed

lemma write_parity_full_healthy:
  assumes h: "healthy cap p" and par: "is_parity_profile (engine p)"
    and cap: "phys_block (layout (engine p) l) < cap" and len: "length buf = block_size"
  shows "write_parity_full p l buf = pwrite_all p (parity_writes (engine p) (layout (engine p) l) buf (new_parity p l buf))"
proof -
  let ?ly = "layout (engine p) l" and ?e = "engine p"
  have v: "valid_engine ?e" using h by (simp add: healthy_def)
  have rd: "read_all p (phys_block ?ly) (other_data ?ly) = Inr (map snd (others p l))"
    using read_all_healthy [OF h cap, of "other_data ?ly"] parity_devices(4) [OF v par, of l]
    by (auto simp: others_def case_prod_beta comp_def)
  have zip: "zip (map snd (other_data ?ly)) (map snd (others p l)) = others p l"
    by (simp add: others_def comp_def case_prod_beta zip_map_map zip_same_conv_map map_zip_map2 o_def)
  show ?thesis by (simp add: write_parity_full_def Let_def rd zip new_parity_def new_row_def len)
qed

lemma write_parity_healthy:
  assumes h: "healthy cap p" and par: "is_parity_profile (engine p)"
    and cap: "phys_block (layout (engine p) l) < cap" and len: "length buf = block_size"
    and ok: "row_ok p (phys_block (layout (engine p) l))"
  shows "write_block_parity forced p l buf ff =
    pwrite_all p (parity_writes (engine p) (layout (engine p) l) buf (new_parity p l buf))"
proof -
  let ?ly = "layout (engine p) l" and ?e = "engine p"
  let ?b = "phys_block ?ly"
  have v: "valid_engine ?e" using h by (simp add: healthy_def)
  note d = parity_devices [OF v par, of l]
  note full = write_parity_full_healthy [OF h par cap len]
  have mold: "mset (row_data p ?b) = add_mset (col_index ?ly, loc p (data_devs ?ly ! 0) ?b) (mset (others p l))"
    by (rule row_split [OF v par])
  have lold: "\<forall>(c, b)\<in>set (row_data p ?b). length b = block_size"
    using others_length [OF h par cap] read_healthy(2) [OF h d(1) cap] mset_eq_setD [of "row_data p ?b" "(col_index ?ly, loc p (data_devs ?ly ! 0) ?b) # others p l"] mold
    by auto
  note inc = incremental_parity [OF lold len mold, of "new_row p l buf", unfolded new_row_def, simplified, folded new_row_def]
  have pr: "parity_devs ?ly = parity_row ?e (?b div chunk_size_blocks ?e)"
    by (rule parity_layout_facts(3) [OF v par])
  show ?thesis
  proof (cases "ff \<or> forced")
    case True
    then show ?thesis by (simp add: write_block_parity_def Let_def full)
  next
    case False
    note rds = read_healthy(1) [OF h d(1) cap] read_healthy(1) [OF h d(2) cap]
    show ?thesis
    proof (cases "profile ?e = Raid6")
      case True
      then show ?thesis
        using False rds read_healthy(1) [OF h d(3) cap] ok inc
        by (simp add: write_block_parity_def Let_def new_parity_def row_ok_def pr new_row_def)
    next
      case r5: False
      then have "profile ?e = Raid5" using par by (simp add: is_parity_profile_def)
      then show ?thesis
        using False rds ok inc
        by (simp add: write_block_parity_def Let_def new_parity_def row_ok_def pr new_row_def)
    qed
  qed
qed

text \<open>On an inconsistent row the incremental path still writes blocks of the right length to the same places.\<close>

lemma update_lengths:
  assumes "length old = n" "length buf = n" "length p = n" "length q = n"
  shows "length (update_raid5_parity_incremental old buf p) = n"
    "length (fst (update_raid6_parity_incremental c old buf p q)) = n" "length (snd (update_raid6_parity_incremental c old buf p q)) = n"
  using assms by (simp_all add: update_raid5_parity_incremental_def update_raid6_parity_incremental_def Let_def)

lemma new_parity_lengths:
  assumes "healthy cap p" "is_parity_profile (engine p)" "phys_block (layout (engine p) l) < cap" "length buf = block_size"
  shows "length (fst (new_parity p l buf)) = block_size" "profile (engine p) = Raid6 \<Longrightarrow> length (snd (new_parity p l buf)) = block_size"
proof -
  have lrow: "\<forall>(c, b)\<in>set (new_row p l buf). length b = block_size"
    using others_length [OF assms(1-3)] assms(4) by (auto simp: new_row_def)
  obtain np nq where q: "new_parity p l buf = (np, nq)" by fastforce
  show "length (fst (new_parity p l buf)) = block_size" "profile (engine p) = Raid6 \<Longrightarrow> length (snd (new_parity p l buf)) = block_size"
    using q parity6_perm(1,2) [OF lrow refl] parity5_nth(1) [of "map snd (new_row p l buf)" block_size] lrow
    by (auto simp: new_parity_def case_prod_beta split: if_splits)
qed

lemma write_parity_shape:
  assumes h: "healthy cap p" and par: "is_parity_profile (engine p)"
    and cap: "phys_block (layout (engine p) l) < cap" and len: "length buf = block_size"
  shows "\<exists>np nq. write_block_parity forced p l buf ff = pwrite_all p (parity_writes (engine p) (layout (engine p) l) buf (np, nq)) \<and>
    length np = block_size \<and> (profile (engine p) = Raid6 \<longrightarrow> length nq = block_size) \<and>
    (row_ok p (phys_block (layout (engine p) l)) \<longrightarrow> new_parity p l buf = (np, nq))"
proof (cases "row_ok p (phys_block (layout (engine p) l)) \<or> ff \<or> forced")
  case True
  then have "write_block_parity forced p l buf ff = pwrite_all p (parity_writes (engine p) (layout (engine p) l) buf (new_parity p l buf))"
  proof (cases "row_ok p (phys_block (layout (engine p) l))")
    case False
    then show ?thesis using True write_parity_full_healthy [OF h par cap len] by (simp add: write_block_parity_def Let_def)
  qed (rule write_parity_healthy [OF h par cap len])
  then show ?thesis using new_parity_lengths [OF h par cap len] by (metis prod.collapse)
next
  case False
  let ?ly = "layout (engine p) l" and ?e = "engine p"
  have v: "valid_engine ?e" using h by (simp add: healthy_def)
  note d = parity_devices [OF v par, of l]
  note rd = read_healthy [OF h d(1) cap] read_healthy [OF h d(2) cap] read_healthy [OF h d(3) cap]
  note u = update_lengths [OF rd(2) len rd(4)]
  show ?thesis
  proof (cases "profile ?e = Raid6")
    case True
    let ?new = "update_raid6_parity_incremental (col_index ?ly) (loc p (data_devs ?ly ! 0) (phys_block ?ly)) buf
      (loc p (parity_devs ?ly ! 0) (phys_block ?ly)) (loc p (parity_devs ?ly ! 1) (phys_block ?ly))"
    have "write_block_parity forced p l buf ff = pwrite_all p (parity_writes ?e ?ly buf (fst ?new, snd ?new))"
      using False True rd by (simp add: write_block_parity_def Let_def)
    then show ?thesis using False u(2,3) [OF rd(6) [OF True]] by blast
  next
    case r5: False
    have "write_block_parity forced p l buf ff =
        pwrite_all p (parity_writes ?e ?ly buf (update_raid5_parity_incremental (loc p (data_devs ?ly ! 0) (phys_block ?ly)) buf
          (loc p (parity_devs ?ly ! 0) (phys_block ?ly)), []))"
      using False r5 rd by (simp add: write_block_parity_def Let_def)
    then show ?thesis using False r5 u(1) [OF rd(4)] by blast
  qed
qed

section \<open>No two logical blocks share a place\<close>

lemma simple_stripe_inv:
  assumes "0 < n" "0 < chunk_size_blocks e" "simple_stripe e l n = (d, b)"
  shows "l = (b div chunk_size_blocks e * n + d) * chunk_size_blocks e + b mod chunk_size_blocks e" "d < n"
proof -
  let ?c = "chunk_size_blocks e"
  have d: "d = l div ?c mod n" and b: "b = l div ?c div n * ?c + l mod ?c"
    using assms(3) by (auto simp: simple_stripe_def Let_def)
  have "b div ?c = l div ?c div n" "b mod ?c = l mod ?c" using assms(2) by (simp_all add: b)
  then show "l = (b div ?c * n + d) * ?c + b mod ?c" by (simp add: d)
  show "d < n" using assms(1) by (simp add: d)
qed

lemma data_layout_fields [simp]: "phys_block (data_layout b ds) = b" "data_devs (data_layout b ds) = ds"
  by (simp_all add: data_layout_def)

lemma layout_raid0:
  "profile e = Raid0 \<Longrightarrow> layout e l = data_layout (snd (simple_stripe e l (num_devices e))) [fst (simple_stripe e l (num_devices e))]"
  by (simp add: layout_def split_def Let_def)

lemma layout_raid10:
  assumes "profile e = Raid10" "valid_engine e"
  shows "layout e l = data_layout (snd (simple_stripe e l (num_devices e div 2)))
    [fst (simple_stripe e l (num_devices e div 2)) * 2, fst (simple_stripe e l (num_devices e div 2)) * 2 + 1]"
proof -
  have "max (num_devices e div 2) 1 = num_devices e div 2" using assms by (auto simp: valid_engine_def)
  with assms(1) show ?thesis by (simp add: layout_def split_def Let_def)
qed

lemma stripe_coords:
  assumes "0 < n" "0 < chunk_size_blocks e"
  shows "l = (snd (simple_stripe e l n) div chunk_size_blocks e * n + fst (simple_stripe e l n)) * chunk_size_blocks e +
      snd (simple_stripe e l n) mod chunk_size_blocks e" "fst (simple_stripe e l n) < n"
  using simple_stripe_inv [OF assms, of l] by (metis prod.collapse)+

lemma layout_disjoint:
  assumes v: "valid_engine e" and ne: "l \<noteq> l'" and ph: "phys_block (layout e l) = phys_block (layout e l')"
  shows "set (data_devs (layout e l)) \<inter> set (data_devs (layout e l')) = {}"
proof (cases "is_parity_profile e")
  case True
  note f = parity_layout_facts [OF v True, of l] and f' = parity_layout_facts [OF v True, of l']
  let ?r = "phys_block (layout e l') div chunk_size_blocks e"
  note r = row_devs_facts(1,2) [OF v True, of ?r]
  have "col_index (layout e l) \<noteq> col_index (layout e l')" using f(5) f'(5) ne ph by metis
  with f(2) f'(2) r have "row_devs e ?r ! col_index (layout e l) \<noteq> row_devs e ?r ! col_index (layout e l')"
    by (simp add: nth_eq_iff_index_eq)
  with f(1) f'(1) ph show ?thesis by simp
next
  case False
  note c = v [unfolded valid_engine_def]
  show ?thesis
  proof (cases "profile e")
    case Raid0
    then have "0 < num_devices e" "0 < chunk_size_blocks e" using c by simp_all
    from stripe_coords(1) [OF this, of l] stripe_coords(1) [OF this, of l'] ne ph Raid0
    show ?thesis by (auto simp: layout_raid0)
  next
    case Raid10
    then have "0 < num_devices e div 2" "0 < chunk_size_blocks e" using c by auto
    from stripe_coords(1) [OF this, of l] stripe_coords(1) [OF this, of l'] ne ph Raid10
    have "fst (simple_stripe e l (num_devices e div 2)) \<noteq> fst (simple_stripe e l' (num_devices e div 2))"
      by (auto simp: layout_raid10 v)
    then show ?thesis by (simp add: layout_raid10 [OF Raid10 v])
  qed (use False ph ne in \<open>simp_all add: layout_def data_layout_def is_parity_profile_def\<close>)
qed

lemma data_devs_range:
  assumes v: "valid_engine e"
  shows "data_devs (layout e l) \<noteq> []" "d \<in> set (data_devs (layout e l)) \<Longrightarrow> d < num_devices e"
proof -
  have "data_devs (layout e l) \<noteq> [] \<and> (\<forall>d\<in>set (data_devs (layout e l)). d < num_devices e)"
  proof (cases "is_parity_profile e")
    case True
    then show ?thesis using parity_devices(1) [OF v True, of l] parity_layout_facts(1) [OF v True, of l] by simp
  next
    case False
    note c = v [unfolded valid_engine_def]
    show ?thesis
    proof (cases "profile e")
      case Raid10
      then have "0 < num_devices e div 2" "0 < chunk_size_blocks e" using c by auto
      from stripe_coords(2) [OF this, of l] show ?thesis by (simp add: layout_raid10 [OF Raid10 v]) linarith
    next
      case Raid0
      then have "0 < num_devices e" "0 < chunk_size_blocks e" using c by simp_all
      from stripe_coords(2) [OF this, of l] show ?thesis by (simp add: layout_raid0 [OF Raid0])
    qed (use False c in \<open>simp_all add: layout_def data_layout_def is_parity_profile_def\<close>)
  qed
  then show "data_devs (layout e l) \<noteq> []" "d \<in> set (data_devs (layout e l)) \<Longrightarrow> d < num_devices e" by auto
qed

section \<open>Effect of a write\<close>

lemma row_ok_cong:
  assumes "engine p' = engine p" "\<And>d. loc p' d b = loc p d b"
  shows "row_ok p' b = row_ok p b"
proof -
  have "row_data p' b = row_data p b" using assms by (simp add: row_data_def)
  then show ?thesis using assms unfolding row_ok_def Let_def by (simp only:)
qed

lemma loc_puts_same:
  assumes "b < cap" "\<forall>d\<in>set ds. d < length (devices p)"
  shows "loc (foldl put_block p (map (\<lambda>d. (d, b, buf)) ds)) d' x = (if d' \<in> set ds \<and> x = b then buf else loc p d' x)"
  using assms(2) by (induction ds arbitrary: p) (auto simp: loc_put)

text \<open>
  \<open>wrote\<close>: what a successful write of logical block \<open>l\<close> leaves behind. Every copy holds the data,
  a consistent row stays consistent, no other row and no data place of another block has changed.
\<close>
definition wrote :: "nat \<Rightarrow> nat \<Rightarrow> byte list \<Rightarrow> pool \<Rightarrow> pool \<Rightarrow> bool" where
  "wrote cap l buf p p' \<longleftrightarrow> (let ly = layout (engine p) l in
     healthy cap p' \<and> engine p' = engine p \<and> (row_ok p (phys_block ly) \<longrightarrow> row_ok p' (phys_block ly)) \<and>
     (\<forall>d\<in>set (data_devs ly). loc p' d (phys_block ly) = buf) \<and>
     (\<forall>d b. b \<noteq> phys_block ly \<longrightarrow> loc p' d b = loc p d b) \<and>
     (\<forall>l' d. l' \<noteq> l \<and> phys_block (layout (engine p) l') = phys_block ly \<and> d \<in> set (data_devs (layout (engine p) l'))
        \<longrightarrow> loc p' d (phys_block ly) = loc p d (phys_block ly)))"

lemma mirror_write:
  assumes h: "healthy cap p" and np: "\<not> is_parity_profile (engine p)" and l: "l \<noteq> 0"
    and cap: "phys_block (layout (engine p) l) < cap" and len: "length buf = block_size"
  shows "\<exists>p'. pool_write forced p l buf = (Inr (), p') \<and> wrote cap l buf p p'"
proof -
  let ?ly = "layout (engine p) l" and ?e = "engine p"
  have v: "valid_engine ?e" and n: "length (devices p) = num_devices ?e" using h by (simp_all add: healthy_def)
  let ?ws = "map (\<lambda>d. (d, phys_block ?ly, buf)) (data_devs ?ly)"
  let ?p' = "foldl put_block p ?ws"
  have w: "pool_write forced p l buf = pwrite_all p ?ws"
    using l np by (simp add: pool_write_def map_write_def Let_def comp_def)
  have r: "\<forall>d\<in>set (data_devs ?ly). d < length (devices p)" using data_devs_range(2) [OF v] n by simp
  have h': "pwrite_all p ?ws = (Inr (), ?p')" "healthy cap ?p'"
    using pwrite_all_healthy [OF h, of ?ws] r n len by auto
  have loc: "loc ?p' d x = (if d \<in> set (data_devs ?ly) \<and> x = phys_block ?ly then buf else loc p d x)" for d x
    by (rule loc_puts_same [OF cap r])
  have keep: "loc ?p' d (phys_block ?ly) = loc p d (phys_block ?ly)"
    if "l' \<noteq> l" "phys_block (layout ?e l') = phys_block ?ly" "d \<in> set (data_devs (layout ?e l'))" for l' d
    using layout_disjoint [OF v that(1,2)] that(3) loc by auto
  have "row_ok ?p' (phys_block ?ly)" if "row_ok p (phys_block ?ly)"
  proof (cases "profile ?e")
    case Raid1
    then have "d \<in> set (data_devs ?ly) \<longleftrightarrow> d < num_devices ?e" for d by (simp add: layout_def)
    moreover have "0 < num_devices ?e" using v Raid1 by (simp add: valid_engine_def)
    ultimately show ?thesis using Raid1 by (simp add: row_ok_def loc Let_def)
  next
    case Raid10
    have "2 * k + 1 \<in> set (data_devs ?ly) \<longleftrightarrow> 2 * k \<in> set (data_devs ?ly)" for k
      by (simp add: layout_raid10 [OF Raid10 v]) presburger
    with Raid10 that show ?thesis by (simp add: row_ok_def loc Let_def)
  qed (use np in \<open>simp_all add: row_ok_def is_parity_profile_def Let_def\<close>)
  moreover have "\<forall>l' d. l' \<noteq> l \<and> phys_block (layout ?e l') = phys_block ?ly \<and> d \<in> set (data_devs (layout ?e l')) \<longrightarrow>
      loc ?p' d (phys_block ?ly) = loc p d (phys_block ?ly)" using keep by blast
  moreover have "(\<forall>d\<in>set (data_devs ?ly). loc ?p' d (phys_block ?ly) = buf) \<and> (\<forall>d b. b \<noteq> phys_block ?ly \<longrightarrow> loc ?p' d b = loc p d b)"
    by (simp add: loc)
  ultimately have "wrote cap l buf p ?p'"
    unfolding wrote_def Let_def using h'(2) engine_puts by blast
  with h'(1) w show ?thesis by simp
qed

lemma parity_write_effect:
  assumes h: "healthy cap p" and par: "is_parity_profile (engine p)" and l: "l \<noteq> 0"
    and cap: "phys_block (layout (engine p) l) < cap" and len: "length buf = block_size"
  shows "\<exists>p'. write_block_parity forced p l buf ff = (Inr (), p') \<and> wrote cap l buf p p'"
proof -
  let ?ly = "layout (engine p) l" and ?e = "engine p"
  let ?b = "phys_block ?ly"
  have v: "valid_engine ?e" and n: "length (devices p) = num_devices ?e" using h by (simp_all add: healthy_def)
  note d = parity_devices [OF v par, of l]
  obtain np nq where w: "write_block_parity forced p l buf ff = pwrite_all p (parity_writes ?e ?ly buf (np, nq))"
    and lq: "length np = block_size" "profile ?e = Raid6 \<longrightarrow> length nq = block_size"
    and q: "row_ok p ?b \<longrightarrow> new_parity p l buf = (np, nq)"
    using write_parity_shape [OF h par cap len] by blast
  let ?ws = "parity_writes ?e ?ly buf (np, nq)"
  let ?p' = "foldl put_block p ?ws"
  have lrow: "\<forall>(c, b)\<in>set (new_row p l buf). length b = block_size"
    using others_length [OF h par cap] len by (auto simp: new_row_def)
  have h': "pwrite_all p ?ws = (Inr (), ?p')" "healthy cap ?p'"
    using pwrite_all_healthy [OF h, of ?ws] d lq len by (auto simp: parity_writes_def)
  let ?D = "data_devs ?ly ! 0" and ?P = "parity_devs ?ly ! 0" and ?Q = "parity_devs ?ly ! 1"
  have ne: "?D \<noteq> ?P" "profile ?e = Raid6 \<Longrightarrow> ?D \<noteq> ?Q \<and> ?P \<noteq> ?Q"
    "\<And>dv. dv \<notin> set (parity_devs ?ly) \<Longrightarrow> dv \<noteq> ?P \<and> (profile ?e = Raid6 \<longrightarrow> dv \<noteq> ?Q)"
  proof -
    obtain P Q where "parity_devs ?ly = (if profile ?e = Raid6 then [P, Q] else [P])"
      using d(7) by (cases "parity_devs ?ly"; cases "tl (parity_devs ?ly)") (auto split: if_splits)
    then show "?D \<noteq> ?P" "profile ?e = Raid6 \<Longrightarrow> ?D \<noteq> ?Q \<and> ?P \<noteq> ?Q"
      "\<And>dv. dv \<notin> set (parity_devs ?ly) \<Longrightarrow> dv \<noteq> ?P \<and> (profile ?e = Raid6 \<longrightarrow> dv \<noteq> ?Q)"
      using d(5,6) by (auto split: if_splits)
  qed
  have loc: "loc ?p' dv x = (if x \<noteq> ?b then loc p dv x else if dv = ?D then buf else if dv = ?P then np
      else if profile ?e = Raid6 \<and> dv = ?Q then nq else loc p dv x)" for dv x
    using d(1-3) n ne by (auto simp: parity_writes_def loc_put)
  have "others ?p' l = others p l"
  proof -
    have "loc ?p' dv ?b = loc p dv ?b" if "(dv, c) \<in> set (other_data ?ly)" for dv c
      using bspec [OF d(4) that] ne(3) [of dv] by (auto simp: loc)
    then show ?thesis unfolding others_def engine_puts by (intro map_cong refl) auto
  qed
  then have m: "mset (row_data ?p' ?b) = mset (new_row p l buf)"
    using row_split [of ?p' l] v par loc by (simp add: new_row_def)
  have lrow': "\<forall>(c, b)\<in>set (row_data ?p' ?b). length b = block_size" using lrow mset_eq_setD [OF m] by simp
  have pr: "parity_devs ?ly = parity_row ?e (?b div chunk_size_blocks ?e)"
    by (rule parity_layout_facts(3) [OF v par])
  have row: "row_ok ?p' ?b" if "row_ok p ?b"
  proof (cases "profile ?e = Raid6")
    case True
    then show ?thesis
      using compute6_perm [OF lrow' m] q [rule_format, OF that] ne by (simp add: row_ok_def Let_def new_parity_def loc flip: pr)
  next
    case False
    have "compute_raid5_parity (map snd (row_data ?p' ?b)) block_size =
        compute_raid5_parity (map snd (new_row p l buf)) block_size"
      using lrow' m by (intro compute5_perm) (auto simp: mset_map)
    moreover have "loc ?p' ?P ?b = np" using ne(1) by (simp add: loc)
    moreover have "profile ?e = Raid5" using False par by (simp add: is_parity_profile_def)
    ultimately show ?thesis
      using q [rule_format, OF that] by (simp add: row_ok_def Let_def new_parity_def flip: pr)
  qed
  have keep: "loc ?p' dv ?b = loc p dv ?b"
    if "l' \<noteq> l" "phys_block (layout ?e l') = ?b" "dv \<in> set (data_devs (layout ?e l'))" for l' dv
  proof -
    have dv: "data_devs (layout ?e l') = [dv]"
      using parity_layout_facts(1) [OF v par, of l'] that(3) by simp
    have "?D \<in> set (data_devs ?ly)" using data_devs_range(1) [OF v, of l] by simp
    then have "dv \<noteq> ?D" using layout_disjoint [OF v that(1,2)] that(3) by auto
    moreover have "dv \<notin> set (parity_devs ?ly)"
      using parity_devices(5) [OF v par, of l'] parity_layout_facts(3) [OF v par, of l'] pr that(2)
        dv by simp
    ultimately show ?thesis using ne(3) [of dv] by (auto simp: loc)
  qed
  have "\<forall>dv\<in>set (data_devs ?ly). loc ?p' dv ?b = buf"
    using parity_layout_facts(1) [OF v par, of l] loc by simp
  moreover have "\<forall>d b. b \<noteq> ?b \<longrightarrow> loc ?p' d b = loc p d b" by (simp add: loc)
  moreover have "\<forall>l' d. l' \<noteq> l \<and> phys_block (layout ?e l') = ?b \<and> d \<in> set (data_devs (layout ?e l')) \<longrightarrow>
      loc ?p' d ?b = loc p d ?b" using keep by blast
  ultimately have "wrote cap l buf p ?p'"
    unfolding wrote_def Let_def using h'(2) row engine_puts by blast
  with w h'(1) show ?thesis by auto
qed

section \<open>The pool as a map of logical blocks\<close>

text \<open>
  Block 0, the superblock, has its own copy at block 0 of every device. \<open>clash\<close>: one of two logical blocks is the superblock
  and the other one is stored in block 0 of a device.
\<close>
definition clash :: "raid_engine \<Rightarrow> nat \<Rightarrow> nat \<Rightarrow> bool" where
  "clash e l l' \<longleftrightarrow> l = 0 \<and> l' \<noteq> 0 \<and> phys_block (layout e l') = 0 \<or> l' = 0 \<and> l \<noteq> 0 \<and> phys_block (layout e l) = 0"

lemma layout_zero: "valid_engine e \<Longrightarrow> phys_block (layout e 0) = 0"
  by (cases "profile e") (simp_all add: layout_def data_layout_def row_layout_def simple_stripe_def Let_def)

lemma pool_read_loc:
  assumes "healthy cap p" "l \<noteq> 0" "phys_block (layout (engine p) l) < cap"
  shows "pool_read p l = Inr (loc p (data_devs (layout (engine p) l) ! 0) (phys_block (layout (engine p) l)))"
proof -
  have v: "valid_engine (engine p)" using assms(1) by (simp add: healthy_def)
  note r = data_devs_range(1) [OF v, of l]
  have "map_read (engine p) l ! 0 = (data_devs (layout (engine p) l) ! 0, phys_block (layout (engine p) l))"
    using r by (simp add: map_read_def Let_def)
  moreover have "data_devs (layout (engine p) l) ! 0 < num_devices (engine p)"
    using r by (intro data_devs_range(2) [OF v nth_mem]) simp
  ultimately show ?thesis using assms read_healthy(1) by (simp add: pool_read_def)
qed

lemma num_devices_pos: "valid_engine e \<Longrightarrow> 0 < num_devices e"
  by (cases "profile e") (simp_all add: valid_engine_def)

lemma pool_read_zero: "0 < cap \<Longrightarrow> healthy cap p \<Longrightarrow> pool_read p 0 = Inr (loc p 0 0)"
  using num_devices_pos [of "engine p"] read_healthy(1) [of cap p 0 0] by (simp add: pool_read_def healthy_def)

lemma pool_write_wrote:
  assumes "healthy cap p" "phys_block (layout (engine p) l) < cap" "l \<noteq> 0" "length buf = block_size"
  shows "\<exists>p'. pool_write forced p l buf = (Inr (), p') \<and> wrote cap l buf p p'"
proof (cases "is_parity_profile (engine p)")
  case True
  then show ?thesis using parity_write_effect [of cap p l buf forced False] assms by (simp add: pool_write_def)
next
  case False
  then show ?thesis using mirror_write [of cap p l buf forced] assms by simp
qed

lemma wrote_rows:
  assumes "wrote cap l buf p p'" "row_ok p b"
  shows "row_ok p' b"
proof (cases "b = phys_block (layout (engine p) l)")
  case True
  then show ?thesis using assms by (simp add: wrote_def Let_def)
next
  case False
  then have "row_ok p' b = row_ok p b" using assms(1) by (intro row_ok_cong) (simp_all add: wrote_def Let_def)
  then show ?thesis using assms(2) by simp
qed

lemma wrote_reads:
  assumes h0: "healthy cap p" and w: "wrote cap l buf p p'"
    and u: "l \<noteq> 0" "phys_block (layout (engine p) l') < cap" "\<not> clash (engine p) l l'"
  shows "pool_read p' l' = (if l' = l then Inr buf else pool_read p l')"
proof -
  let ?b = "phys_block (layout (engine p) l)" and ?b' = "phys_block (layout (engine p) l')"
  have h: "healthy cap p" "healthy cap p'" "engine p' = engine p" "0 < cap" and v: "valid_engine (engine p)"
    using h0 w u(2) by (auto simp: wrote_def healthy_def Let_def)
  have D: "data_devs (layout (engine p) l') ! 0 \<in> set (data_devs (layout (engine p) l'))" for l'
    using data_devs_range(1) [OF v] by simp
  show ?thesis
  proof (cases "l' = 0")
    case True
    then show ?thesis
      using w u pool_read_zero [OF h(4,1)] pool_read_zero [OF h(4,2)] by (auto simp: wrote_def Let_def clash_def)
  next
    case False
    then have rd: "pool_read p' l' = Inr (loc p' (data_devs (layout (engine p) l') ! 0) ?b')"
      "pool_read p l' = Inr (loc p (data_devs (layout (engine p) l') ! 0) ?b')"
      using pool_read_loc h u(2) by simp_all
    show ?thesis
    proof (cases "l' = l")
      case True
      then show ?thesis using rd w D by (simp add: wrote_def Let_def)
    next
      case ne: False
      then show ?thesis
        using rd w D [of l'] by (cases "?b' = ?b") (auto simp: wrote_def Let_def)
    qed
  qed
qed

lemma superblock_write:
  assumes "healthy cap p" "0 < cap" "length buf = block_size"
  shows "\<exists>p'. pool_write forced p 0 buf = (Inr (), p') \<and> healthy cap p' \<and> engine p' = engine p \<and>
    (\<forall>d<num_devices (engine p). loc p' d 0 = buf) \<and> (\<forall>d x. x \<noteq> 0 \<longrightarrow> loc p' d x = loc p d x)"
proof -
  let ?ws = "map (\<lambda>d. (d, 0, buf)) [0..<length (devices p)]"
  let ?p' = "foldl put_block p ?ws"
  have n: "length (devices p) = num_devices (engine p)" using assms(1) by (simp add: healthy_def)
  have "pwrite_all p ?ws = (Inr (), ?p')" "healthy cap ?p'"
    using pwrite_all_healthy [OF assms(1), of ?ws] n assms(3) by auto
  moreover have "loc ?p' d x = (if d < num_devices (engine p) \<and> x = 0 then buf else loc p d x)" for d x
    using loc_puts_same [OF assms(2), of "[0..<length (devices p)]" p buf d x] n by simp
  ultimately show ?thesis by (auto simp: pool_write_def)
qed

lemma superblock_reads:
  assumes "healthy cap p" "0 < cap" "healthy cap p'" "engine p' = engine p" "\<forall>d<num_devices (engine p). loc p' d 0 = buf"
    "\<forall>d x. x \<noteq> 0 \<longrightarrow> loc p' d x = loc p d x" "phys_block (layout (engine p) l') < cap" "\<not> clash (engine p) 0 l'"
  shows "pool_read p' l' = (if l' = 0 then Inr buf else pool_read p l')"
proof (cases "l' = 0")
  case True
  have "0 < num_devices (engine p)" using assms(1) by (intro num_devices_pos) (simp add: healthy_def)
  then show ?thesis using pool_read_zero [OF assms(2,3)] assms(5) True by simp
next
  case False
  then show ?thesis using pool_read_loc [OF assms(3), of l'] pool_read_loc [OF assms(1), of l'] assms(4,6-8) by (simp add: clash_def)
qed


section \<open>Degraded reads\<close>

definition kill :: "nat \<Rightarrow> pool \<Rightarrow> pool" where
  "kill d p = p\<lparr>devices := (devices p)[d := (devices p ! d)\<lparr>dev_dead := True\<rparr>]\<rparr>"

lemma engine_kill [simp]: "engine (kill d p) = engine p"
  by (simp add: kill_def)

lemma read_kill:
  assumes "d < length (devices p)"
  shows "read_full (kill d p) x b = (if x = d then Inl DeviceError else read_full p x b)"
  using assms by (simp add: read_full_def kill_def nth_list_update cong: option.case_cong)

lemma read_all_kill:
  assumes "d < length (devices p)" "\<forall>(x, c)\<in>set ds. x \<noteq> d"
  shows "read_all (kill d p) b ds = read_all p b ds"
  using assms(2) by (induction ds) (auto simp: read_kill [OF assms(1)] split: sum.splits)

lemma first_mirror_found:
  assumes "\<And>x. x \<in> set ds \<Longrightarrow> read_full p x b = Inr v \<or> read_full p x b = Inl DeviceError"
    and "x \<in> set ds" "read_full p x b = Inr v"
  shows "first_mirror p b ds = Inr v"
  using assms
proof (induction ds)
  case (Cons y ds)
  show ?case
  proof (cases "read_full p y b")
    case (Inr w)
    then show ?thesis using Cons.prems(1) [of y] by simp
  next
    case (Inl e)
    then have "x \<in> set ds" using Cons.prems(2,3) by auto
    with Cons Inl show ?thesis by simp
  qed
qed simp

lemma reconstruct_parity:
  assumes h: "healthy cap p" and par: "is_parity_profile (engine p)" and cap: "phys_block (layout (engine p) l) < cap"
    and ok: "row_ok p (phys_block (layout (engine p) l))"
  defines "D \<equiv> data_devs (layout (engine p) l) ! 0"
  shows "reconstruct_block (kill D p) l = Inr (loc p D (phys_block (layout (engine p) l)))"
proof -
  let ?ly = "layout (engine p) l" and ?e = "engine p"
  let ?b = "phys_block ?ly"
  have v: "valid_engine ?e" and n: "length (devices p) = num_devices ?e" using h by (simp_all add: healthy_def)
  note d = parity_devices [OF v par, of l]
  have D: "D < length (devices p)" using d(1) n by (simp add: D_def)
  have "read_all (kill D p) ?b (other_data ?ly) = Inr (map snd (others p l))"
    using read_all_kill [OF D, of "other_data ?ly"] read_all_healthy [OF h cap, of "other_data ?ly"] d(4)
    by (auto simp: others_def D_def comp_def case_prod_beta)
  moreover have "parity_devs ?ly ! 0 \<noteq> D"
    using d(5,7) by (cases "parity_devs ?ly") (auto simp: D_def split: if_splits)
  then have "read_full (kill D p) (parity_devs ?ly ! 0) ?b = Inr (loc p (parity_devs ?ly ! 0) ?b)"
    using read_kill [OF D] read_healthy(1) [OF h d(2) cap] by simp
  moreover have "rebuild_single_from_parity (loc p (parity_devs ?ly ! 0) ?b) (map snd (others p l)) block_size = loc p D ?b"
  proof -
    have m: "mset (row_data p ?b) = mset ((col_index ?ly, loc p D ?b) # others p l)"
      using row_split [OF v par, of l] by (simp add: D_def)
    have "\<forall>(c, b)\<in>set (row_data p ?b). length b = block_size"
      using others_length [OF h par cap] read_healthy(2) [OF h d(1) cap] mset_eq_setD [OF m] by (simp add: D_def)
    then have len: "\<forall>b\<in>set (map snd (row_data p ?b)). length b = block_size" by fastforce
    have "mset (map snd (row_data p ?b)) = add_mset (loc p D ?b) (mset (map snd (others p l)))"
      using arg_cong [OF m, of "image_mset snd"] by simp
    note rb = rebuild_single [OF len this]
    have "loc p (parity_devs ?ly ! 0) ?b = compute_raid5_parity (map snd (row_data p ?b)) block_size"
      using ok par raid6_p_is_raid5 [of "row_data p ?b" block_size] parity_layout_facts(3) [OF v par, of l]
      by (auto simp: row_ok_def Let_def is_parity_profile_def)
    with rb show ?thesis by simp
  qed
  ultimately show ?thesis using par by (auto simp: reconstruct_block_def Let_def is_parity_profile_def)
qed

lemma reconstruct_mirror:
  assumes h: "healthy cap p" and m: "profile (engine p) = Raid1 \<or> profile (engine p) = Raid10"
    and cap: "phys_block (layout (engine p) l) < cap" and ok: "row_ok p (phys_block (layout (engine p) l))"
  defines "D \<equiv> data_devs (layout (engine p) l) ! 0"
  shows "reconstruct_block (kill D p) l = Inr (loc p D (phys_block (layout (engine p) l)))"
proof -
  let ?ly = "layout (engine p) l" and ?e = "engine p"
  let ?b = "phys_block ?ly"
  have v: "valid_engine ?e" and n: "length (devices p) = num_devices ?e" using h by (simp_all add: healthy_def)
  have r: "x < num_devices ?e" if "x \<in> set (data_devs ?ly)" for x using data_devs_range(2) [OF v that] .
  have Din: "D \<in> set (data_devs ?ly)" using data_devs_range(1) [OF v, of l] by (simp add: D_def)
  have same: "loc p x ?b = loc p D ?b" if "x \<in> set (data_devs ?ly)" for x
    using m
  proof
    assume r1: "profile ?e = Raid1"
    have "\<forall>d<num_devices ?e. loc p d ?b = loc p 0 ?b"
      using ok unfolding row_ok_def Let_def r1 raid_profile.case .
    then show ?thesis using r [OF that] r [OF Din] by metis
  next
    assume r10: "profile ?e = Raid10"
    let ?k = "fst (simple_stripe ?e l (num_devices ?e div 2))"
    have "?k < num_devices ?e div 2"
      using v r10 by (intro stripe_coords(2)) (auto simp: valid_engine_def)
    then have "loc p (2 * ?k + 1) ?b = loc p (2 * ?k) ?b"
      using ok unfolding row_ok_def Let_def r10 raid_profile.case by blast
    moreover have "data_devs ?ly = [2 * ?k, 2 * ?k + 1]" by (simp add: layout_raid10 [OF r10 v])
    ultimately show ?thesis using that unfolding D_def by fastforce
  qed
  obtain x where x: "x \<in> set (data_devs ?ly)" "x \<noteq> D"
    using m
  proof
    assume r1: "profile ?e = Raid1"
    then have "2 \<le> num_devices ?e" using v by (simp add: valid_engine_def)
    then show thesis using r1 by (intro that [of 1]) (auto simp: D_def layout_def)
  next
    assume r10: "profile ?e = Raid10"
    then show thesis
      by (intro that [of "data_devs ?ly ! 1"]) (simp_all add: D_def layout_raid10 [OF r10 v])
  qed
  have rd: "read_full (kill D p) y ?b = (if y = D then Inl DeviceError else Inr (loc p D ?b))"
    if "y \<in> set (data_devs ?ly)" for y
    using read_kill [of D p y ?b] r [OF Din] n read_healthy(1) [OF h r [OF that] cap] same [OF that] by simp
  have "first_mirror (kill D p) ?b (data_devs ?ly) = Inr (loc p D ?b)"
    by (rule first_mirror_found [OF _ x(1)]) (simp_all add: rd x)
  then show ?thesis using m by (simp add: reconstruct_block_def Let_def)
qed

lemma superblock_resilient:
  assumes "healthy cap p" "0 < cap" "profile (engine p) \<in> {Raid1, Raid5, Raid6, Raid10}" "row_ok p 0" "d < num_devices (engine p)"
  shows "read_block_resilient (kill d p) 0 = (if d = 0 \<and> is_parity_profile (engine p) then Inl DeviceError else pool_read p 0)"
proof -
  have v: "valid_engine (engine p)" and n: "length (devices p) = num_devices (engine p)" using assms(1) by (simp_all add: healthy_def)
  have rk: "pool_read (kill d p) 0 = (if d = 0 then Inl DeviceError else pool_read p 0)"
    using assms(5) n by (simp add: pool_read_def read_kill)
  have zero: "pool_read p 0 = Inr (loc p 0 0)" by (rule pool_read_zero [OF assms(2,1)])
  show ?thesis
  proof (cases "d = 0")
    case False
    then show ?thesis using zero by (simp add: read_block_resilient_def rk)
  next
    case True
    have ph: "phys_block (layout (engine p) 0) < cap" "row_ok p (phys_block (layout (engine p) 0))" using layout_zero [OF v] assms(2,4) by simp_all
    show ?thesis
    proof (cases "is_parity_profile (engine p)")
      case par: True
      note dv = parity_devices [OF v par, of 0]
      have "parity_devs (layout (engine p) 0) ! 0 = 0"
        using parity_layout_facts(3) [OF v par, of 0] layout_zero [OF v] by (simp add: parity_row_def)
      then have "read_full (kill 0 p) (parity_devs (layout (engine p) 0) ! 0) (phys_block (layout (engine p) 0)) = Inl DeviceError"
        using read_kill [of 0 p 0] n num_devices_pos [OF v] by simp
      then have "\<exists>e. reconstruct_block (kill 0 p) 0 = Inl e"
        using par by (auto simp: reconstruct_block_def Let_def is_parity_profile_def split: sum.splits)
      moreover have "pool_read (kill 0 p) 0 = Inl DeviceError" using rk True by simp
      ultimately show ?thesis using True par by (auto simp: read_block_resilient_def)
    next
      case False
      then have m: "profile (engine p) = Raid1 \<or> profile (engine p) = Raid10" using assms(3) by (auto simp: is_parity_profile_def)
      moreover have "data_devs (layout (engine p) 0) ! 0 = 0"
        using m num_devices_pos [OF v] by (auto simp: layout_def data_layout_def simple_stripe_def Let_def)
      ultimately show ?thesis
        using reconstruct_mirror [OF assms(1) m ph] rk True False zero layout_zero [OF v] by (simp add: read_block_resilient_def)
    qed
  qed
qed


section \<open>The superblock and the first row\<close>

lemma first_row_block:
  assumes "valid_engine e" "profile e \<in> {Raid0, Raid5, Raid6, Raid10}"
  shows "phys_block (layout e (chunk_size_blocks e)) = 0"
proof (cases "is_parity_profile e")
  case True
  have "0 < chunk_size_blocks e" using assms(1) by (simp add: valid_engine_def)
  then show ?thesis
    using row_devs_facts(3) [OF assms(1) True] by (simp add: layout_parity [OF True] row_layout_def Let_def)
next
  case False
  with assms have "profile e = Raid0 \<or> profile e = Raid10" by (auto simp: is_parity_profile_def)
  then show ?thesis
    using assms(1) by (auto simp: layout_raid0 layout_raid10 [OF _ assms(1)] simple_stripe_def Let_def valid_engine_def)
qed

text \<open>
  C38. The superblock shares its place with data: with a striped profile (RAID 0, 5, 6 or 10) the logical block
  whose number is the chunk size lies at block 0 of its device, where \<open>pool_write\<close> puts a copy of the
  superblock on every device; so writing the superblock (block 0) overwrites that block, whatever it
  held.
\<close>
theorem superblock_overwrites_data:
  assumes "healthy cap p" "0 < cap" and "profile (engine p) \<in> {Raid0, Raid5, Raid6, Raid10}" and "length sb = block_size"
  shows "chunk_size_blocks (engine p) \<noteq> 0 \<and>
    (\<exists>p'. pool_write forced p 0 sb = (Inr (), p') \<and> pool_read p' (chunk_size_blocks (engine p)) = Inr sb)"
proof -
  let ?l = "chunk_size_blocks (engine p)"
  have v: "valid_engine (engine p)" using assms(1) by (simp add: healthy_def)
  then have l: "?l \<noteq> 0" by (simp add: valid_engine_def)
  obtain p' where w: "pool_write forced p 0 sb = (Inr (), p')" "healthy cap p'" "engine p' = engine p"
    "\<forall>d<num_devices (engine p). loc p' d 0 = sb"
    using superblock_write [OF assms(1,2,4)] by blast
  have D: "data_devs (layout (engine p) ?l) ! 0 < num_devices (engine p)"
    using data_devs_range(1) [OF v, of ?l] by (intro data_devs_range(2) [OF v nth_mem]) simp
  have "pool_read p' ?l = Inr sb"
    using pool_read_loc [of cap p' ?l] w(2-4) D l assms(2) first_row_block [OF v assms(3)] by simp
  with l w(1) show ?thesis by blast
qed

section \<open>A fresh pool\<close>

definition zero_pool :: "raid_engine \<Rightarrow> pool" where
  "zero_pool e = \<lparr>engine = e,
     devices = replicate (num_devices e) \<lparr>dev_blocks = (\<lambda>b. Some (replicate block_size 0)), dev_dead = False\<rparr>\<rparr>"

lemma xorsum_zero: "\<forall>x\<in>set xs. f x = 0 \<Longrightarrow> xorsum f xs = 0"
  by (induction xs) auto

lemma zero_parity5:
  assumes "\<forall>b\<in>set bs. b = replicate n 0"
  shows "compute_raid5_parity bs n = replicate n 0"
proof -
  have len: "\<forall>b\<in>set bs. length b = n" using assms by auto
  have "xorsum (\<lambda>b. b ! i) bs = 0" if "i < n" for i using assms that by (intro xorsum_zero) auto
  then show ?thesis using parity5_nth [OF len] by (intro nth_equalityI) simp_all
qed

lemma zero_parity6:
  assumes "\<forall>(c, b)\<in>set bs. b = replicate n 0"
  shows "compute_raid6_parity bs n = (replicate n 0, replicate n 0)"
proof -
  have len: "\<forall>(c, b)\<in>set bs. length b = n" using assms by auto
  obtain p q where c: "compute_raid6_parity bs n = (p, q)" by fastforce
  note f = parity6_perm [OF len refl c]
  have "xorsum (\<lambda>(c, b). b ! i) bs = 0 \<and> xorsum (\<lambda>(c, b). mul (g c) (b ! i)) bs = 0" if "i < n" for i
    using assms that by (intro conjI xorsum_zero) fastforce+
  then have "p = replicate n 0" "q = replicate n 0"
    using f by (auto intro!: nth_equalityI)
  with c show ?thesis by simp
qed

lemma zero_pool_ok:
  assumes "valid_engine e"
  shows "healthy cap (zero_pool e)" "row_ok (zero_pool e) b"
proof -
  have loc: "loc (zero_pool e) d b = replicate block_size 0" if "d < num_devices e" for d b
    using that by (simp add: loc_def zero_pool_def)
  show "healthy cap (zero_pool e)" using assms(1) by (simp add: healthy_def zero_pool_def)
  show "row_ok (zero_pool e) b"
  proof (cases "is_parity_profile e")
    case True
    let ?r = "b div chunk_size_blocks e"
    have "\<forall>(c, x)\<in>set (row_data (zero_pool e) b). x = replicate block_size 0"
      using row_devs_facts(4) [OF assms(1) True, of ?r] loc
      by (auto simp: row_data_def in_set_enumerate_eq zero_pool_def [of e, THEN arg_cong, of engine])
        (metis DiffD1 lessThan_iff nth_mem)
    moreover from calculation have "\<forall>x\<in>set (map snd (row_data (zero_pool e) b)). x = replicate block_size 0" by fastforce
    moreover have "set (parity_row e ?r) \<subseteq> {..<num_devices e}" by (rule distinct_parity_row(2) [OF assms(1) True])
    ultimately show ?thesis
      using True zero_parity5 [of "map snd (row_data (zero_pool e) b)" block_size] zero_parity6 [of "row_data (zero_pool e) b" block_size] loc
      by (auto simp: row_ok_def Let_def is_parity_profile_def zero_pool_def [of e, THEN arg_cong, of engine] parity_row_def)
  next
    case False
    then show ?thesis
      using assms(1) loc by (cases "profile e")
        (simp_all add: row_ok_def Let_def zero_pool_def [of e, THEN arg_cong, of engine] is_parity_profile_def valid_engine_def)
  qed
qed

definition demo_engine :: raid_engine where
  "demo_engine = engine_new Raid6 8 5"

lemma demo_valid: "valid_engine demo_engine" "profile demo_engine = Raid6" "num_devices demo_engine = 5"
    "phys_block (layout demo_engine 9) = 1" "phys_block (layout demo_engine 8) = 0" "phys_block (layout demo_engine 11) = 3"
    "engine (zero_pool demo_engine) = demo_engine"
  by (simp_all add: valid_engine_def demo_engine_def engine_new_def layout_def row_layout_def zero_pool_def Let_def)



theorem superblock_overwrites_data_witness:
  "\<exists>p'. pool_write False (zero_pool demo_engine) 0 (replicate block_size 7) = (Inr (), p') \<and>
     pool_read p' 8 = Inr (replicate block_size 7)"
  using superblock_overwrites_data [OF zero_pool_ok(1) [OF demo_valid(1)], of 1 "replicate block_size 7" False]
  by (simp add: demo_valid) (simp add: demo_engine_def engine_new_def)

end
