(* ===== verification/Posix_Acl.thy ===== *)
theory Posix_Acl
  imports Prelude "HOL-Library.Product_Lexorder"
begin

text \<open>
  Access control: the POSIX access-control lists of \<^verbatim>\<open>src/crates/lionfs/src/security/posix_acl.rs\<close> with
  their wire format, and the mode-bit check of \<^verbatim>\<open>inode/permissions.rs\<close>.

  Tags and ids are \<open>nat\<close> (\<open>u16\<close> and \<open>u32\<close>), permission words are \<open>16 word\<close> and modes \<open>32 word\<close>, on which
  the source works bitwise. Refused input is a value of \<open>acl_error\<close>, one per message of the source.
\<close>

section \<open>Entries\<close>

type_synonym perm = "16 word"
type_synonym mode = "32 word"

definition acl_user_obj :: nat where "acl_user_obj = 0x01"
definition acl_user :: nat where "acl_user = 0x02"
definition acl_group_obj :: nat where "acl_group_obj = 0x04"
definition acl_group :: nat where "acl_group = 0x08"
definition acl_mask :: nat where "acl_mask = 0x10"
definition acl_other :: nat where "acl_other = 0x20"
definition acl_wire_version :: nat where "acl_wire_version = 1"

lemmas acl_tags = acl_user_obj_def acl_user_def acl_group_obj_def acl_group_def acl_mask_def acl_other_def

record acl_entry =
  acl_tag :: nat
  acl_perm :: perm
  acl_id :: "nat option"

type_synonym posix_acl = "acl_entry list"

definition is_valid_tag :: "nat \<Rightarrow> bool" where
  "is_valid_tag t \<longleftrightarrow> t \<in> {acl_user_obj, acl_user, acl_group_obj, acl_group, acl_mask, acl_other}"

datatype acl_error = ShortHeader | BadVersion | Misaligned | UnknownTag | UndefinedId | NoEntries
  | NeedUserObj | NeedGroupObj | NeedOther | DuplicateMask | NeedMask | NonRwxBits
  | DuplicateUsers | DuplicateGroups | DefaultNeedsNamed

section \<open>Wire format\<close>

fun decode_entries :: "byte list \<Rightarrow> acl_error + acl_entry list" where
  "decode_entries (t0 # t1 # p0 # p1 # i0 # i1 # i2 # i3 # rest) =
     (let tag = of_le_bytes [t0, t1]; prm = of_le_bytes [p0, p1]; i = of_le_bytes [i0, i1, i2, i3]
      in if \<not> is_valid_tag tag then Inl UnknownTag
         else if (tag = acl_user \<or> tag = acl_group) \<and> i = 2 ^ 32 - 1 then Inl UndefinedId
         else case decode_entries rest of Inl e \<Rightarrow> Inl e
           | Inr es \<Rightarrow> Inr (\<lparr>acl_tag = tag, acl_perm = of_nat prm,
               acl_id = (if tag = acl_user \<or> tag = acl_group then Some i else None)\<rparr> # es))"
| "decode_entries _ = Inr []"

definition decode :: "byte list \<Rightarrow> acl_error + posix_acl" where
  "decode bytes =
     (if length bytes < 4 then Inl ShortHeader
      else if of_le_bytes (take 4 bytes) \<noteq> acl_wire_version then Inl BadVersion
      else let body = drop 4 bytes
        in if length body mod 8 \<noteq> 0 then Inl Misaligned
           else case decode_entries body of Inl e \<Rightarrow> Inl e
             | Inr es \<Rightarrow> if es = [] then Inl NoEntries else Inr es)"

definition tag_rank :: "nat \<Rightarrow> nat" where
  "tag_rank t = (if t = acl_user_obj then 0 else if t = acl_user then 1 else if t = acl_group_obj then 2
     else if t = acl_group then 3 else if t = acl_mask then 4 else 5)"

definition sort_rank :: "acl_entry \<Rightarrow> nat \<times> nat" where
  "sort_rank e = (tag_rank (acl_tag e),
     if acl_tag e = acl_user \<or> acl_tag e = acl_group then (case acl_id e of None \<Rightarrow> 0 | Some i \<Rightarrow> Suc i) else 0)"

definition canonical_sort :: "acl_entry list \<Rightarrow> acl_entry list" where
  "canonical_sort = sort_key sort_rank"

definition encode_entry :: "acl_entry \<Rightarrow> byte list" where
  "encode_entry e = le_bytes 2 (acl_tag e) @ le_bytes 2 (unat (acl_perm e)) @
     le_bytes 4 (case acl_id e of None \<Rightarrow> 0 | Some i \<Rightarrow> i)"

definition encode :: "posix_acl \<Rightarrow> byte list" where
  "encode acl = le_bytes 4 acl_wire_version @ concat (map encode_entry (canonical_sort acl))"

section \<open>Validation\<close>

definition tag_count :: "posix_acl \<Rightarrow> nat \<Rightarrow> nat" where
  "tag_count acl t = length (filter (\<lambda>e. acl_tag e = t) acl)"

definition ids_of :: "posix_acl \<Rightarrow> nat \<Rightarrow> nat list" where
  "ids_of acl t = List.map_filter acl_id (filter (\<lambda>e. acl_tag e = t) acl)"

definition acl_validate :: "posix_acl \<Rightarrow> bool \<Rightarrow> acl_error + unit" where
  "acl_validate acl is_default =
     (let named = tag_count acl acl_user + tag_count acl acl_group
      in if tag_count acl acl_user_obj \<noteq> 1 then Inl NeedUserObj
         else if tag_count acl acl_group_obj \<noteq> 1 then Inl NeedGroupObj
         else if tag_count acl acl_other \<noteq> 1 then Inl NeedOther
         else if 1 < tag_count acl acl_mask then Inl DuplicateMask
         else if 0 < named \<and> tag_count acl acl_mask = 0 then Inl NeedMask
         else if \<exists>e\<in>set acl. and (acl_perm e) (not 7) \<noteq> 0 then Inl NonRwxBits
         else if length (remdups (ids_of acl acl_user)) \<noteq> tag_count acl acl_user then Inl DuplicateUsers
         else if length (remdups (ids_of acl acl_group)) \<noteq> tag_count acl acl_group then Inl DuplicateGroups
         else if is_default \<and> named = 0 then Inl DefaultNeedsNamed
         else Inr ())"

section \<open>Evaluation\<close>

definition find_tag :: "posix_acl \<Rightarrow> nat \<Rightarrow> acl_entry option" where
  "find_tag acl t = List.find (\<lambda>e. acl_tag e = t) acl"

definition named_by_id :: "posix_acl \<Rightarrow> nat \<Rightarrow> nat \<Rightarrow> acl_entry option" where
  "named_by_id acl t i = List.find (\<lambda>e. acl_tag e = t \<and> acl_id e = Some i) acl"

definition perm_of :: "acl_entry option \<Rightarrow> perm" where
  "perm_of eo = (case eo of None \<Rightarrow> 0 | Some e \<Rightarrow> acl_perm e)"

definition mode_bits :: "posix_acl \<Rightarrow> mode" where
  "mode_bits acl =
     (let user_obj = ucast (perm_of (find_tag acl acl_user_obj));
          group_obj = ucast (perm_of (find_tag acl acl_group_obj));
          other = ucast (perm_of (find_tag acl acl_other));
          group_class = (case find_tag acl acl_mask of None \<Rightarrow> group_obj
            | Some m \<Rightarrow> and group_obj (ucast (acl_perm m)))
      in or (or (push_bit 6 user_obj) (push_bit 3 group_class)) other)"

definition grants :: "perm \<Rightarrow> perm option \<Rightarrow> perm \<Rightarrow> bool" where
  "grants want msk prm = (let effective = and prm (case msk of None \<Rightarrow> not 0 | Some m \<Rightarrow> m)
     in and effective want = want)"

definition acl_evaluate :: "posix_acl \<Rightarrow> nat \<Rightarrow> nat \<Rightarrow> nat \<Rightarrow> nat \<Rightarrow> perm \<Rightarrow> bool" where
  "acl_evaluate acl uid gid owner_uid owner_gid want =
     (let msk = map_option acl_perm (find_tag acl acl_mask)
      in if uid = owner_uid then grants want None (perm_of (find_tag acl acl_user_obj))
         else case named_by_id acl acl_user uid of
             Some e \<Rightarrow> grants want msk (acl_perm e)
           | None \<Rightarrow>
              if gid = owner_gid \<and> grants want msk (perm_of (find_tag acl acl_group_obj)) then True
              else if (case named_by_id acl acl_group gid of None \<Rightarrow> False | Some e \<Rightarrow> grants want msk (acl_perm e)) then True
              else if gid = owner_gid \<or> named_by_id acl acl_group gid \<noteq> None then False
              else grants want None (perm_of (find_tag acl acl_other)))"

section \<open>Changes\<close>

definition mode_class :: "nat \<Rightarrow> mode \<Rightarrow> perm" where
  "mode_class sh mode = ucast (and (drop_bit sh mode) 7)"

definition apply_chmod :: "posix_acl \<Rightarrow> mode \<Rightarrow> posix_acl" where
  "apply_chmod acl mode =
     (let out = map (\<lambda>e.
            if acl_tag e = acl_user_obj then e\<lparr>acl_perm := mode_class 6 mode\<rparr>
            else if acl_tag e = acl_other then e\<lparr>acl_perm := mode_class 0 mode\<rparr>
            else if acl_tag e = acl_mask then e\<lparr>acl_perm := mode_class 3 mode\<rparr> else e) acl
      in if \<exists>e\<in>set out. acl_tag e = acl_mask then out
         else map (\<lambda>e. if acl_tag e = acl_group_obj then e\<lparr>acl_perm := mode_class 3 mode\<rparr> else e) out)"

definition inherit_access_from_default :: "posix_acl \<Rightarrow> mode \<Rightarrow> posix_acl" where
  "inherit_access_from_default acl create_mode =
     (let es = map (\<lambda>e.
            if acl_tag e = acl_user_obj then e\<lparr>acl_perm := and (acl_perm e) (mode_class 6 create_mode)\<rparr>
            else if acl_tag e = acl_group_obj then e\<lparr>acl_perm := and (acl_perm e) (mode_class 3 create_mode)\<rparr>
            else if acl_tag e = acl_other then e\<lparr>acl_perm := and (acl_perm e) (mode_class 0 create_mode)\<rparr>
            else e) acl;
          max_named = foldl or 0 (map acl_perm (filter (\<lambda>e. acl_tag e = acl_user \<or> acl_tag e = acl_group) acl))
      in if \<not> (\<exists>e\<in>set es. acl_tag e = acl_mask) \<and> max_named \<noteq> 0
         then es @ [\<lparr>acl_tag = acl_mask, acl_perm = max_named, acl_id = None\<rparr>] else es)"

definition from_mode :: "mode \<Rightarrow> posix_acl" where
  "from_mode mode =
     [\<lparr>acl_tag = acl_user_obj, acl_perm = mode_class 6 mode, acl_id = None\<rparr>,
      \<lparr>acl_tag = acl_group_obj, acl_perm = mode_class 3 mode, acl_id = None\<rparr>,
      \<lparr>acl_tag = acl_other, acl_perm = mode_class 0 mode, acl_id = None\<rparr>]"

definition is_trivial :: "posix_acl \<Rightarrow> bool" where
  "is_trivial acl = list_all (\<lambda>e. acl_tag e \<noteq> acl_user \<and> acl_tag e \<noteq> acl_group \<and> acl_tag e \<noteq> acl_mask) acl"

section \<open>Mode-bit check\<close>

record inode_owner =
  ino_mode :: mode
  ino_uid :: nat
  ino_gid :: nat

definition check_access :: "inode_owner \<Rightarrow> nat \<Rightarrow> nat \<Rightarrow> mode \<Rightarrow> bool" where
  "check_access ino uid gid msk =
     (if uid = 0 then True
      else if msk = 0 then True
      else let mode = ino_mode ino;
               bits = (if uid = ino_uid ino then and (drop_bit 6 mode) 7
                       else if gid = ino_gid ino then and (drop_bit 3 mode) 7 else and mode 7)
        in and bits msk = msk)"

definition can_read :: "inode_owner \<Rightarrow> nat \<Rightarrow> nat \<Rightarrow> bool" where
  "can_read ino uid gid = check_access ino uid gid 4"

definition can_write :: "inode_owner \<Rightarrow> nat \<Rightarrow> nat \<Rightarrow> bool" where
  "can_write ino uid gid = check_access ino uid gid 2"

definition can_execute :: "inode_owner \<Rightarrow> nat \<Rightarrow> nat \<Rightarrow> bool" where
  "can_execute ino uid gid = check_access ino uid gid 1"

section \<open>Wire format round trip\<close>

definition acl_entry_wf :: "acl_entry \<Rightarrow> bool" where
  "acl_entry_wf e \<longleftrightarrow> is_valid_tag (acl_tag e) \<and>
     (if acl_tag e = acl_user \<or> acl_tag e = acl_group then \<exists>i. acl_id e = Some i \<and> i < 2 ^ 32 - 1 else acl_id e = None)"

lemma valid_tag_bound: "is_valid_tag t \<Longrightarrow> t < 256 ^ 2"
  by (auto simp: is_valid_tag_def acl_tags)

lemma decode_entries_append:
  assumes "length t = 2" "length p = 2" "length i = 4"
  shows "decode_entries (t @ p @ i @ rest) =
     (let tag = of_le_bytes t; prm = of_le_bytes p; i = of_le_bytes i
      in if \<not> is_valid_tag tag then Inl UnknownTag
         else if (tag = acl_user \<or> tag = acl_group) \<and> i = 2 ^ 32 - 1 then Inl UndefinedId
         else case decode_entries rest of Inl e \<Rightarrow> Inl e
           | Inr es \<Rightarrow> Inr (\<lparr>acl_tag = tag, acl_perm = of_nat prm,
               acl_id = (if tag = acl_user \<or> tag = acl_group then Some i else None)\<rparr> # es))"
proof -
  obtain t0 t1 where "t = [t0, t1]" using assms(1) by (auto simp: length_Suc_conv numeral_eq_Suc)
  moreover obtain p0 p1 where "p = [p0, p1]" using assms(2) by (auto simp: length_Suc_conv numeral_eq_Suc)
  moreover obtain i0 i1 i2 i3 where "i = [i0, i1, i2, i3]"
    using assms(3) by (auto simp: length_Suc_conv numeral_eq_Suc)
  ultimately show ?thesis by (simp only: append_Cons append_Nil decode_entries.simps(1))
qed

lemma decode_encode_entry:
  assumes "acl_entry_wf e" "decode_entries rest = Inr es"
  shows "decode_entries (encode_entry e @ rest) = Inr (e # es)"
proof -
  have t: "acl_tag e < 256 ^ 2" using assms(1) valid_tag_bound by (simp add: acl_entry_wf_def)
  have p: "unat (acl_perm e) < 256 ^ 2" using unsigned_less [of "acl_perm e"] by simp
  have i: "(case acl_id e of None \<Rightarrow> 0 | Some i \<Rightarrow> i) < 256 ^ 4"
    using assms(1) by (auto simp: acl_entry_wf_def split: if_splits option.splits)
  note rt = of_le_bytes_le_bytes [OF t] of_le_bytes_le_bytes [OF p] of_le_bytes_le_bytes [OF i]
  show ?thesis
    unfolding encode_entry_def append_assoc
    by (subst decode_entries_append) (use assms in \<open>auto simp: rt acl_entry_wf_def split: if_splits\<close>)
qed

lemma decode_encode_entries:
  "list_all acl_entry_wf es \<Longrightarrow> decode_entries (concat (map encode_entry es)) = Inr es"
  by (induction es) (simp_all add: decode_encode_entry)

lemma length_encode_entries: "length (concat (map encode_entry es)) = 8 * length es"
  by (induction es) (simp_all add: encode_entry_def)

lemma canonical_sort_mset: "mset (canonical_sort acl) = mset acl" "set (canonical_sort acl) = set acl"
  by (simp_all add: canonical_sort_def)

lemma canonical_sort_idem: "canonical_sort (canonical_sort acl) = canonical_sort acl"
  unfolding canonical_sort_def by (rule sort_key_id_if_sorted) simp

lemma decode_entries_wf: "decode_entries bs = Inr es \<Longrightarrow> list_all acl_entry_wf es"
proof (induction bs arbitrary: es rule: decode_entries.induct)
  case (1 t0 t1 p0 p1 i0 i1 i2 i3 rest)
  let ?i = "of_le_bytes [i0, i1, i2, i3]"
  have "?i < 2 ^ 32" using of_le_bytes_bound [of "[i0, i1, i2, i3]"] by simp
  then have "?i = 2 ^ 32 - 1 \<or> ?i < 2 ^ 32 - 1" by linarith
  moreover obtain es' where rest: "decode_entries rest = Inr es'" and v: "is_valid_tag (of_le_bytes [t0, t1])"
    and u: "\<not> ((of_le_bytes [t0, t1] = acl_user \<or> of_le_bytes [t0, t1] = acl_group) \<and> ?i = 2 ^ 32 - 1)"
    and es: "es = \<lparr>acl_tag = of_le_bytes [t0, t1], acl_perm = of_nat (of_le_bytes [p0, p1]),
        acl_id = (if of_le_bytes [t0, t1] = acl_user \<or> of_le_bytes [t0, t1] = acl_group then Some ?i else None)\<rparr> # es'"
    using 1(2) by (simp only: decode_entries.simps Let_def) (auto split: if_splits sum.splits)
  moreover have "list_all acl_entry_wf es'"
    using 1(1) [OF refl refl refl _ u rest] v by simp
  ultimately show ?case by (auto simp: list_all_iff acl_entry_wf_def simp del: of_le_bytes.simps)
qed auto

text \<open>In a valid list of well-formed entries no two entries have the same rank, so the order of encoding is fixed.\<close>

lemma tag_rank_inj: "is_valid_tag a \<Longrightarrow> is_valid_tag b \<Longrightarrow> tag_rank a = tag_rank b \<Longrightarrow> a = b"
  by (auto simp: is_valid_tag_def tag_rank_def acl_tags)

lemma single_entry:
  assumes "tag_count acl t \<le> 1" "x \<in> set acl" "y \<in> set acl" "acl_tag x = t" "acl_tag y = t"
  shows "x = y"
proof -
  have "x \<in> set (filter (\<lambda>e. acl_tag e = t) acl)" "y \<in> set (filter (\<lambda>e. acl_tag e = t) acl)" using assms(2-5) by simp_all
  moreover have "length (filter (\<lambda>e. acl_tag e = t) acl) \<le> 1" using assms(1) by (simp add: tag_count_def)
  ultimately show ?thesis by (cases "filter (\<lambda>e. acl_tag e = t) acl") (auto simp del: filter_eq_Cons_iff set_filter simp: filter_set [symmetric])
qed

lemma named_entry:
  assumes "length (remdups (ids_of acl t)) = tag_count acl t" "\<forall>e\<in>set acl. acl_tag e = t \<longrightarrow> acl_id e \<noteq> None"
    "x \<in> set acl" "y \<in> set acl" "acl_tag x = t" "acl_tag y = t" "acl_id x = acl_id y"
  shows "x = y"
proof -
  let ?es = "filter (\<lambda>e. acl_tag e = t) acl"
  have ids: "ids_of acl t = map (\<lambda>e. the (acl_id e)) ?es"
    unfolding ids_of_def using assms(2) by (induction acl) (auto simp: map_filter_simps)
  then have "length (remdups (ids_of acl t)) = length (ids_of acl t)" using assms(1) by (simp add: tag_count_def)
  then have "distinct (map (\<lambda>e. the (acl_id e)) ?es)" unfolding ids [symmetric] by simp
  moreover have "x \<in> set ?es" "y \<in> set ?es" using assms(3-6) by simp_all
  ultimately show ?thesis using assms(7) by (auto simp: distinct_map inj_on_def)
qed

lemma sort_rank_inj:
  assumes "acl_validate acl d = Inr ()" "list_all acl_entry_wf acl"
  shows "inj_on sort_rank (set acl)"
proof (rule inj_onI)
  fix x y
  assume xy: "x \<in> set acl" "y \<in> set acl" and r: "sort_rank x = sort_rank y"
  have c: "tag_count acl acl_user_obj \<le> 1" "tag_count acl acl_group_obj \<le> 1" "tag_count acl acl_other \<le> 1" "tag_count acl acl_mask \<le> 1"
    "length (remdups (ids_of acl acl_user)) = tag_count acl acl_user" "length (remdups (ids_of acl acl_group)) = tag_count acl acl_group"
    using assms(1) unfolding acl_validate_def Let_def by (simp_all split: if_splits)
  have wf: "acl_entry_wf x" "acl_entry_wf y" using assms(2) xy by (simp_all add: list_all_iff)
  then have t: "acl_tag x = acl_tag y" using r tag_rank_inj [of "acl_tag x" "acl_tag y"] by (simp add: sort_rank_def acl_entry_wf_def)
  have named: "\<forall>e\<in>set acl. acl_tag e = acl_user \<or> acl_tag e = acl_group \<longrightarrow> acl_id e \<noteq> None"
  proof (intro ballI impI)
    fix e
    assume "e \<in> set acl" "acl_tag e = acl_user \<or> acl_tag e = acl_group"
    moreover from this have "acl_entry_wf e" using assms(2) by (simp add: list_all_iff)
    ultimately show "acl_id e \<noteq> None" by (auto simp: acl_entry_wf_def)
  qed
  show "x = y"
  proof (cases "acl_tag x = acl_user \<or> acl_tag x = acl_group")
    case True
    then obtain i j where ij: "acl_id x = Some i" "acl_id y = Some j" using named xy t by (metis not_None_eq)
    then have i: "acl_id x = acl_id y" using r t True by (simp add: sort_rank_def)
    show ?thesis using True
    proof
      assume u: "acl_tag x = acl_user"
      show ?thesis by (rule named_entry [OF c(5) _ xy u u [unfolded t] i]) (use named in blast)
    next
      assume g: "acl_tag x = acl_group"
      show ?thesis by (rule named_entry [OF c(6) _ xy g g [unfolded t] i]) (use named in blast)
    qed
  next
    case False
    then have "acl_tag x \<in> {acl_user_obj, acl_group_obj, acl_mask, acl_other}" using wf(1) by (auto simp: acl_entry_wf_def is_valid_tag_def)
    then have "tag_count acl (acl_tag x) \<le> 1" using c(1-4) by (elim insertE emptyE) simp_all
    then show ?thesis by (rule single_entry [OF _ xy refl]) (simp add: t)
  qed
qed

lemma encode_order:
  assumes "acl_validate acl d = Inr ()" "list_all acl_entry_wf acl" "mset acl' = mset acl"
  shows "encode acl' = encode acl"
proof -
  have "set acl' = set acl" using assms(3) mset_eq_setD by blast
  then have "sort_key sort_rank acl' = sort_key sort_rank acl"
    using sort_rank_inj [OF assms(1,2)] by (intro sort_key_inj_key_eq) (simp_all add: assms(3))
  then show ?thesis by (simp add: encode_def canonical_sort_def)
qed

text \<open>
  C18. The wire format round trips: decoding the encoding of a non-empty list of well-formed entries returns the
  entries in canonical order, two lists of the same entries in different orders have the same encoding when they pass
  validation, and whatever \<open>decode\<close> accepts is a non-empty list of well-formed entries (known tags, ids exactly on named
  entries, never the undefined id).
\<close>
theorem acl_wire_roundtrip:
  assumes "list_all acl_entry_wf acl" and "acl \<noteq> []"
  shows "decode (encode acl) = Inr (canonical_sort acl) \<and> sorted (map sort_rank (canonical_sort acl)) \<and>
    mset (canonical_sort acl) = mset acl \<and>
    (\<forall>acl' d. acl_validate acl d = Inr () \<longrightarrow> mset acl' = mset acl \<longrightarrow> encode acl' = encode acl) \<and>
    (case decode bytes of Inl e \<Rightarrow> True | Inr a \<Rightarrow> list_all acl_entry_wf a \<and> a \<noteq> [])"
proof -
  have wf: "list_all acl_entry_wf (canonical_sort acl)"
    using assms(1) by (simp add: list_all_iff canonical_sort_mset)
  have "canonical_sort acl \<noteq> []" using assms(2) canonical_sort_mset(2) [of acl] by auto
  moreover have "of_le_bytes (le_bytes 4 acl_wire_version) = acl_wire_version"
    by (rule of_le_bytes_le_bytes) (simp add: acl_wire_version_def)
  ultimately have "decode (encode acl) = Inr (canonical_sort acl)"
    using decode_encode_entries [OF wf] by (simp add: decode_def encode_def length_encode_entries Let_def)
  moreover have "sorted (map sort_rank (canonical_sort acl))" by (simp add: canonical_sort_def)
  moreover have "\<forall>acl' d. acl_validate acl d = Inr () \<longrightarrow> mset acl' = mset acl \<longrightarrow> encode acl' = encode acl"
    using encode_order assms(1) by blast
  moreover have "case decode bytes of Inl e \<Rightarrow> True | Inr a \<Rightarrow> list_all acl_entry_wf a \<and> a \<noteq> []"
    using decode_entries_wf by (auto simp: decode_def Let_def split: sum.splits)
  ultimately show ?thesis using canonical_sort_mset(1) by blast
qed

definition demo_acl :: posix_acl where
  "demo_acl =
     [\<lparr>acl_tag = acl_other, acl_perm = 0, acl_id = None\<rparr>,
      \<lparr>acl_tag = acl_user, acl_perm = 6, acl_id = Some 1001\<rparr>,
      \<lparr>acl_tag = acl_user_obj, acl_perm = 7, acl_id = None\<rparr>,
      \<lparr>acl_tag = acl_mask, acl_perm = 7, acl_id = None\<rparr>,
      \<lparr>acl_tag = acl_group_obj, acl_perm = 5, acl_id = None\<rparr>]"

lemma demo_acl_valid: "acl_validate demo_acl True = Inr ()"
  by (simp add: acl_validate_def demo_acl_def tag_count_def ids_of_def List.map_filter_def acl_tags Let_def)

theorem acl_wire_roundtrip_witness:
  "decode (encode demo_acl) = Inr (canonical_sort demo_acl) \<and> encode (rev demo_acl) = encode demo_acl"
proof -
  have "list_all acl_entry_wf demo_acl" "demo_acl \<noteq> []"
    by (simp_all add: demo_acl_def acl_entry_wf_def is_valid_tag_def acl_tags)
  from acl_wire_roundtrip [OF this, of "[]"] show ?thesis using demo_acl_valid mset_rev by blast
qed

section \<open>Mode bits\<close>

lemma and_eq_self: "and a w = (w :: 'a::len word) \<longleftrightarrow> (\<forall>n. bit w n \<longrightarrow> bit a n)"
proof
  assume "and a w = w"
  then show "\<forall>n. bit w n \<longrightarrow> bit a n" by (metis bit_and_iff)
next
  assume h: "\<forall>n. bit w n \<longrightarrow> bit a n"
  show "and a w = w" by (rule bit_word_eqI) (use h in \<open>auto simp: bit_and_iff\<close>)
qed

lemma bit_ucast: "bit (ucast (w :: 'a::len word) :: 'b::len word) n \<longleftrightarrow> n < LENGTH('b) \<and> bit w n"
  by (auto simp: bit_ucast_iff)

lemma subset_ucast:
  fixes want :: perm and b :: mode
  shows "and (ucast (and b 7)) want = want \<longleftrightarrow> and (and b 7) (ucast want) = ucast want"
proof -
  have w: "n < LENGTH(16)" "n < LENGTH(32)" if "bit want n" for n using bit_imp_le_length [OF that] by simp_all
  show ?thesis unfolding and_eq_self bit_ucast using w by blast
qed

lemma grants_class: "grants want None (mode_class sh m) \<longleftrightarrow> and (and (drop_bit sh m) 7) (ucast want) = ucast want"
  using subset_ucast [of "drop_bit sh m" want] by (simp add: grants_def mode_class_def)

lemma from_mode_find:
  "find_tag (from_mode m) acl_user_obj = Some \<lparr>acl_tag = acl_user_obj, acl_perm = mode_class 6 m, acl_id = None\<rparr>"
  "find_tag (from_mode m) acl_group_obj = Some \<lparr>acl_tag = acl_group_obj, acl_perm = mode_class 3 m, acl_id = None\<rparr>"
  "find_tag (from_mode m) acl_other = Some \<lparr>acl_tag = acl_other, acl_perm = mode_class 0 m, acl_id = None\<rparr>"
  "find_tag (from_mode m) acl_mask = None"
  "named_by_id (from_mode m) acl_user i = None" "named_by_id (from_mode m) acl_group i = None"
  by (simp_all add: find_tag_def named_by_id_def from_mode_def acl_tags)

lemma ucast_class: "(ucast (mode_class sh m) :: mode) = and (drop_bit sh m) 7"
proof -
  have "n < LENGTH(16) \<and> n < LENGTH(32)" if "bit (7 :: mode) n" for n
    using that bit_mask_iff [of 3 n, where 'a = "32 word"] by (simp add: mask_eq_exp_minus_1)
  then show ?thesis
    unfolding mode_class_def by (intro bit_word_eqI) (auto simp: bit_ucast bit_and_iff)
qed

lemma bits9: "bit (0x1FF :: mode) n \<longleftrightarrow> n < 9" "bit (7 :: mode) n \<longleftrightarrow> n < 3"
  using bit_mask_iff [of 9 n, where 'a = "32 word"] bit_mask_iff [of 3 n, where 'a = "32 word"]
  by (auto simp: mask_eq_exp_minus_1)

lemma classes_assemble:
  "or (or (push_bit 6 (and (drop_bit 6 m) 7)) (push_bit 3 (and (and (drop_bit 3 m) 7) k))) (and m 7) =
     and m (or 0x1C7 (push_bit 3 (and k (7 :: mode))))"
proof -
  have "\<forall>n\<in>set [0..<32]. bit (0x1C7 :: mode) n \<longleftrightarrow> n < 3 \<or> 6 \<le> n \<and> n < 9" by code_simp
  then have c: "bit (0x1C7 :: mode) n \<longleftrightarrow> n < 3 \<or> 6 \<le> n \<and> n < 9" if "n < 32" for n using that by simp
  show ?thesis
  proof (rule bit_word_eqI)
    fix n
    assume "n < LENGTH(32)"
    then have n: "n < 32" by simp
    have "bit (push_bit i x :: mode) n \<longleftrightarrow> i \<le> n \<and> bit x (n - i)" for i x
      using n by (simp add: bit_push_bit_iff)
    moreover have "bit (drop_bit i x :: mode) j \<longleftrightarrow> bit x (i + j)" for i j x
      by (simp add: bit_drop_bit_eq)
    ultimately show "bit (or (or (push_bit 6 (and (drop_bit 6 m) 7)) (push_bit 3 (and (and (drop_bit 3 m) 7) k))) (and m 7)) n \<longleftrightarrow>
        bit (and m (or 0x1C7 (push_bit 3 (and k 7)))) n"
      by (simp only: bit_or_iff bit_and_iff bits9 c [OF n] le_add_diff_inverse cong: conj_cong) auto
  qed
qed

text \<open>
  C26. A trivial list decides what the mode bits decide: for a caller other than root, evaluating the list built from
  a mode grants exactly the accesses that \<open>check_access\<close> grants for that mode and owner; the list is
  valid and trivial, and its mode bits are the low nine bits it was built from.
\<close>
theorem trivial_acl_is_mode_check:
  assumes "uid \<noteq> 0"
  shows "acl_evaluate (from_mode m) uid gid ou og want =
      check_access \<lparr>ino_mode = m, ino_uid = ou, ino_gid = og\<rparr> uid gid (ucast want) \<and>
    mode_bits (from_mode m) = and m 0x1FF \<and> is_trivial (from_mode m) \<and> acl_validate (from_mode m) False = Inr ()"
proof -
  have "acl_evaluate (from_mode m) uid gid ou og want =
      check_access \<lparr>ino_mode = m, ino_uid = ou, ino_gid = og\<rparr> uid gid (ucast want)"
    using assms
    by (simp add: acl_evaluate_def check_access_def from_mode_find perm_of_def grants_class Let_def)
  moreover have "mode_bits (from_mode m) = and m 0x1FF"
    using classes_assemble [of m 7] by (simp add: mode_bits_def from_mode_find perm_of_def ucast_class Let_def and.assoc)
  moreover have "and (mode_class sh m) (not 7) = 0" for sh
    by (rule bit_word_eqI) (auto simp: mode_class_def bit_simps bit_ucast)
  then have "acl_validate (from_mode m) False = Inr ()"
    by (simp add: acl_validate_def from_mode_def tag_count_def ids_of_def List.map_filter_def acl_tags Let_def)
  moreover have "is_trivial (from_mode m)" by (simp add: is_trivial_def from_mode_def acl_tags)
  ultimately show ?thesis by blast
qed

theorem trivial_acl_is_mode_check_witness:
  "acl_evaluate (from_mode 0x1E8) 1000 100 1 100 5 = check_access \<lparr>ino_mode = 0x1E8, ino_uid = 1, ino_gid = 100\<rparr> 1000 100 5"
  using trivial_acl_is_mode_check [of 1000 "0x1E8" 100 1 100 5] by simp

section \<open>Changing the mode\<close>

lemma find_tag_map:
  "(\<And>e. acl_tag (h e) = acl_tag e) \<Longrightarrow> find_tag (map h acl) t = map_option h (find_tag acl t)"
  by (induction acl) (simp_all add: find_tag_def)

lemma named_by_id_map:
  "(\<And>e. acl_tag (h e) = acl_tag e \<and> acl_id (h e) = acl_id e) \<Longrightarrow>
     named_by_id (map h acl) t i = map_option h (named_by_id acl t i)"
  by (induction acl) (simp_all add: named_by_id_def)

lemma find_tag_Some: "find_tag acl t = Some e \<Longrightarrow> acl_tag e = t \<and> e \<in> set acl"
  using find_Some_in by (fastforce simp: find_tag_def)

lemma find_tag_None: "find_tag acl t = None \<longleftrightarrow> (\<forall>e\<in>set acl. acl_tag e \<noteq> t)"
  by (auto simp: find_tag_def find_None_iff)

lemma ex_tag_map:
  "(\<And>e. acl_tag (h e) = acl_tag e) \<Longrightarrow> (\<exists>e\<in>set (map h acl). acl_tag e = t) \<longleftrightarrow> find_tag acl t \<noteq> None"
  unfolding find_tag_None by auto

lemma tag_count_zero: "tag_count acl t = 0 \<longleftrightarrow> find_tag acl t = None"
  by (simp add: tag_count_def find_tag_None filter_empty_conv)

lemma validate_base:
  assumes "acl_validate acl d = Inr ()"
  shows "find_tag acl acl_user_obj \<noteq> None" "find_tag acl acl_group_obj \<noteq> None" "find_tag acl acl_other \<noteq> None"
    "0 < tag_count acl acl_user \<Longrightarrow> find_tag acl acl_mask \<noteq> None"
proof -
  have c: "tag_count acl acl_user_obj = 1" "tag_count acl acl_group_obj = 1" "tag_count acl acl_other = 1"
    "\<not> (0 < tag_count acl acl_user + tag_count acl acl_group \<and> tag_count acl acl_mask = 0)"
    using assms unfolding acl_validate_def Let_def by (simp_all split: if_splits)
  then show "find_tag acl acl_user_obj \<noteq> None" "find_tag acl acl_group_obj \<noteq> None" "find_tag acl acl_other \<noteq> None"
    "0 < tag_count acl acl_user \<Longrightarrow> find_tag acl acl_mask \<noteq> None"
    unfolding tag_count_zero [symmetric] by simp_all
qed

lemma acl_tags_distinct [simp]:
  "acl_user_obj \<noteq> acl_other" "acl_user_obj \<noteq> acl_mask" "acl_user_obj \<noteq> acl_group_obj" "acl_user_obj \<noteq> acl_user"
  "acl_other \<noteq> acl_user_obj" "acl_other \<noteq> acl_mask" "acl_other \<noteq> acl_group_obj" "acl_other \<noteq> acl_user"
  "acl_mask \<noteq> acl_user_obj" "acl_mask \<noteq> acl_other" "acl_mask \<noteq> acl_group_obj" "acl_mask \<noteq> acl_user"
  "acl_group_obj \<noteq> acl_user_obj" "acl_group_obj \<noteq> acl_other" "acl_group_obj \<noteq> acl_mask" "acl_group_obj \<noteq> acl_user"
  "acl_user \<noteq> acl_user_obj" "acl_user \<noteq> acl_other" "acl_user \<noteq> acl_mask" "acl_user \<noteq> acl_group_obj"
  by (simp_all add: acl_tags)

lemma chmod_find:
  assumes "acl_validate acl d = Inr ()"
  shows "perm_of (find_tag (apply_chmod acl m) acl_user_obj) = mode_class 6 m"
    "perm_of (find_tag (apply_chmod acl m) acl_other) = mode_class 0 m"
    "find_tag acl acl_mask = None \<Longrightarrow> find_tag (apply_chmod acl m) acl_mask = None \<and>
       perm_of (find_tag (apply_chmod acl m) acl_group_obj) = mode_class 3 m"
    "find_tag acl acl_mask = Some e \<Longrightarrow>
       map_option acl_perm (find_tag (apply_chmod acl m) acl_mask) = Some (mode_class 3 m) \<and>
       find_tag (apply_chmod acl m) acl_group_obj = find_tag acl acl_group_obj"
proof -
  let ?h = "\<lambda>e. if acl_tag e = acl_user_obj then e\<lparr>acl_perm := mode_class 6 m\<rparr>
            else if acl_tag e = acl_other then e\<lparr>acl_perm := mode_class 0 m\<rparr>
            else if acl_tag e = acl_mask then e\<lparr>acl_perm := mode_class 3 m\<rparr> else e"
  let ?k = "\<lambda>e. if acl_tag e = acl_group_obj then e\<lparr>acl_perm := mode_class 3 m\<rparr> else e"
  have ex: "(\<exists>e\<in>set (map ?h acl). acl_tag e = acl_mask) \<longleftrightarrow> find_tag acl acl_mask \<noteq> None"
    by (rule ex_tag_map) simp
  have h: "find_tag (map ?h acl) t = map_option ?h (find_tag acl t)" for t by (rule find_tag_map) simp
  have k: "find_tag (map ?k xs) t = map_option ?k (find_tag xs t)" for t xs by (rule find_tag_map) simp
  have c: "apply_chmod acl m = (if find_tag acl acl_mask \<noteq> None then map ?h acl else map ?k (map ?h acl))"
    unfolding apply_chmod_def Let_def ex ..
  note v = validate_base(1-3) [OF assms]
  obtain u g' o' where f: "find_tag acl acl_user_obj = Some u" "find_tag acl acl_group_obj = Some g'"
    "find_tag acl acl_other = Some o'" using v by blast
  note t = find_tag_Some [OF f(1)] find_tag_Some [OF f(2)] find_tag_Some [OF f(3)]
  show "perm_of (find_tag (apply_chmod acl m) acl_user_obj) = mode_class 6 m"
    "perm_of (find_tag (apply_chmod acl m) acl_other) = mode_class 0 m"
    "find_tag acl acl_mask = None \<Longrightarrow> find_tag (apply_chmod acl m) acl_mask = None \<and>
       perm_of (find_tag (apply_chmod acl m) acl_group_obj) = mode_class 3 m"
    using t by (simp_all add: c h k f perm_of_def del: map_map)
  show "find_tag acl acl_mask = Some e \<Longrightarrow>
       map_option acl_perm (find_tag (apply_chmod acl m) acl_mask) = Some (mode_class 3 m) \<and>
       find_tag (apply_chmod acl m) acl_group_obj = find_tag acl acl_group_obj"
    using t find_tag_Some [of acl acl_mask e] by (simp add: c h k f del: map_map)
qed

text \<open>
  What chmod followed by stat reports: for a valid list without a mask the mode bits after \<open>apply_chmod\<close> are the
  nine bits that were set; with a mask, the owner and other bits are, but the group bits are those
  set and also in the untouched owning-group entry, so a chmod that adds group permissions can be
  reported without them.
\<close>
theorem chmod_mode_bits:
  assumes "acl_validate acl d = Inr ()"
  shows "mode_bits (apply_chmod acl m) = (case find_tag acl acl_mask of None \<Rightarrow> and m 0x1FF
    | Some _ \<Rightarrow> and m (or 0x1C7 (push_bit 3 (and (ucast (perm_of (find_tag acl acl_group_obj))) 7))))"
proof (cases "find_tag acl acl_mask")
  case None
  then show ?thesis
    using chmod_find(1-3) [OF assms, of m] classes_assemble [of m 7]
    by (simp add: mode_bits_def ucast_class Let_def and.assoc)
next
  case (Some e)
  then obtain e' where "find_tag (apply_chmod acl m) acl_mask = Some e'" "acl_perm e' = mode_class 3 m"
    using chmod_find(4) [OF assms] by fastforce
  then show ?thesis
    using Some chmod_find(1,2) [OF assms, of m] chmod_find(4) [OF assms Some, of m] classes_assemble [of m "ucast (perm_of (find_tag acl acl_group_obj))"]
    by (simp add: mode_bits_def ucast_class Let_def and.commute)
qed

theorem chmod_mode_bits_witness: "mode_bits (apply_chmod demo_acl 0x1F8) = 0x1E8"
  using chmod_mode_bits [OF demo_acl_valid, of "0x1F8"]
  by (simp add: demo_acl_def find_tag_def perm_of_def acl_tags)

section \<open>The mask\<close>

lemma grants_mask: "grants want (Some m) prm \<Longrightarrow> and m want = want"
  unfolding grants_def Let_def by (auto simp: and_eq_self bit_and_iff)

text \<open>
  C27. The mask bounds the group class: an access that a list with a mask grants to a caller who is not the owner
  and matches a named user, the owning group or a named group lies within the mask.
\<close>
theorem mask_bounds_group_class:
  assumes "acl_evaluate acl uid gid ou og want" and "uid \<noteq> ou" and "find_tag acl acl_mask = Some e"
    and "named_by_id acl acl_user uid \<noteq> None \<or> gid = og \<or> named_by_id acl acl_group gid \<noteq> None"
  shows "and (acl_perm e) want = want"
  using assms
  by (auto simp: acl_evaluate_def Let_def split: option.splits if_splits intro: grants_mask)

theorem mask_bounds_group_class_witness:
  "acl_evaluate demo_acl 1001 50 1 100 6 \<and> (\<exists>e. find_tag demo_acl acl_mask = Some e \<and> and (acl_perm e) 6 = 6)"
proof -
  have e: "acl_evaluate demo_acl 1001 50 1 100 6"
    by (simp add: demo_acl_def acl_evaluate_def find_tag_def named_by_id_def grants_def acl_tags)
  moreover have m: "find_tag demo_acl acl_mask = Some \<lparr>acl_tag = acl_mask, acl_perm = 7, acl_id = None\<rparr>"
    by (simp add: demo_acl_def find_tag_def acl_tags)
  moreover have "named_by_id demo_acl acl_user 1001 \<noteq> None" by (simp add: demo_acl_def named_by_id_def acl_tags)
  ultimately show ?thesis using mask_bounds_group_class [OF e _ m] by auto
qed

text \<open>
  Inheritance leaves named users untouched by the create mode: for a valid default list, what the inherited
  access list grants to a named user does not depend on the mode the file is created with; a
  create mode of 0 takes nothing away from that user.
\<close>
theorem inherit_ignores_mode_for_named_users:
  assumes "acl_validate acl True = Inr ()" and "named_by_id acl acl_user uid = Some e" and "uid \<noteq> ou"
  shows "acl_evaluate (inherit_access_from_default acl create_mode) uid gid ou og want =
    acl_evaluate acl uid gid ou og want"
proof -
  let ?h = "\<lambda>e. if acl_tag e = acl_user_obj then e\<lparr>acl_perm := and (acl_perm e) (mode_class 6 create_mode)\<rparr>
            else if acl_tag e = acl_group_obj then e\<lparr>acl_perm := and (acl_perm e) (mode_class 3 create_mode)\<rparr>
            else if acl_tag e = acl_other then e\<lparr>acl_perm := and (acl_perm e) (mode_class 0 create_mode)\<rparr> else e"
  have e: "acl_tag e = acl_user" "e \<in> set acl"
    using assms(2) find_Some_in by (fastforce simp: named_by_id_def)+
  then have "0 < tag_count acl acl_user" by (auto simp: tag_count_def filter_empty_conv)
  then obtain k where k: "find_tag acl acl_mask = Some k" using validate_base(4) [OF assms(1)] by blast
  have "\<exists>x\<in>set (map ?h acl). acl_tag x = acl_mask" using ex_tag_map [of ?h acl acl_mask] k by simp
  then have i: "inherit_access_from_default acl create_mode = map ?h acl"
    unfolding inherit_access_from_default_def Let_def by simp
  have "find_tag (map ?h acl) acl_mask = Some k"
    using find_tag_map [of ?h acl acl_mask] find_tag_Some [OF k] k by simp
  moreover have "named_by_id (map ?h acl) acl_user uid = Some e"
    using named_by_id_map [of ?h acl acl_user uid] assms(2) e(1) by simp
  ultimately show ?thesis using assms(2,3) k by (simp add: acl_evaluate_def i)
qed

theorem inherit_ignores_mode_for_named_users_witness:
  "acl_evaluate (inherit_access_from_default demo_acl 0) 1001 50 1 100 6"
proof -
  have "named_by_id demo_acl acl_user 1001 = Some \<lparr>acl_tag = acl_user, acl_perm = 6, acl_id = Some 1001\<rparr>"
    by (simp add: named_by_id_def demo_acl_def acl_tags)
  from inherit_ignores_mode_for_named_users [OF demo_acl_valid this, of 1 0 50 100 6] show ?thesis
    by (simp add: demo_acl_def acl_evaluate_def find_tag_def named_by_id_def grants_def acl_tags)
qed

end
