(* ===== verification/Record_Log.thy ===== *)
theory Record_Log
  imports Prelude
begin

text \<open>
  The record journal of small files: \<^verbatim>\<open>src/crates/lionfs/src/recordlog/mod.rs\<close>.

  A record is a 40-byte header, a payload and a checksum over both. The checksum is computed by an
  external crate and is a parameter \<open>crc\<close>; all that is used of it is that its value is a 32-bit number. The sink
  that records are appended to (\<open>W: Write\<close> in the source) is a parameter as well: a record of its two
  operations on an abstract state, which may fail.
\<close>

section \<open>Records\<close>

definition log_magic :: "byte list" where
  "log_magic = [0x4C, 0x46, 0x53, 0x52]"

definition log_version :: byte where
  "log_version = 1"

definition header_bytes :: nat where
  "header_bytes = 40"

definition small_file_max :: nat where
  "small_file_max = 4032"

datatype record_type = Create | Data | Delete | Truncate | Commit | Checkpoint

fun record_tag :: "record_type \<Rightarrow> byte" where
  "record_tag Create = 1"
| "record_tag Data = 2"
| "record_tag Delete = 3"
| "record_tag Truncate = 4"
| "record_tag Commit = 5"
| "record_tag Checkpoint = 6"

definition record_from_tag :: "byte \<Rightarrow> record_type option" where
  "record_from_tag t = (if t = 1 then Some Create else if t = 2 then Some Data else if t = 3 then Some Delete
     else if t = 4 then Some Truncate else if t = 5 then Some Commit else if t = 6 then Some Checkpoint else None)"

record log_entry =
  le_kind :: record_type
  le_file_id :: nat
  le_offset :: nat
  le_sequence :: nat
  le_payload :: "byte list"

definition encode_header :: "record_type \<Rightarrow> nat \<Rightarrow> nat \<Rightarrow> nat \<Rightarrow> byte list \<Rightarrow> byte list" where
  "encode_header kind file_id offset sequence payload =
     log_magic @ [log_version, record_tag kind] @ [0, 0] @ [0, 0, 0, 0] @ le_bytes 8 file_id @ le_bytes 8 offset @
     le_bytes 8 sequence @ le_bytes 4 (length payload)"

definition encode_record :: "(byte list \<Rightarrow> nat) \<Rightarrow> record_type \<Rightarrow> nat \<Rightarrow> nat \<Rightarrow> nat \<Rightarrow> byte list \<Rightarrow> byte list" where
  "encode_record crc kind file_id offset sequence payload =
     (let buf = encode_header kind file_id offset sequence payload @ payload in buf @ le_bytes 4 (crc buf))"

section \<open>Replay\<close>

datatype tail_state = Torn | Corrupt

record decoded_header =
  dh_kind :: record_type
  dh_file_id :: nat
  dh_offset :: nat
  dh_sequence :: nat
  dh_payload_len :: nat
  dh_total :: nat

definition decode_header :: "byte list \<Rightarrow> tail_state + decoded_header option" where
  "decode_header src =
     (if src = [] then Inr None
      else if length src < header_bytes then Inl Torn
      else if take 4 src \<noteq> log_magic \<or> src ! 4 \<noteq> log_version then Inl Corrupt
      else case record_from_tag (src ! 5) of None \<Rightarrow> Inl Corrupt
        | Some kind \<Rightarrow>
            let payload_len = of_le_bytes (take 4 (drop 36 src)); tot = header_bytes + payload_len + 4
            in if length src < tot then Inl Torn
               else Inr (Some \<lparr>dh_kind = kind, dh_file_id = of_le_bytes (take 8 (drop 12 src)),
                 dh_offset = of_le_bytes (take 8 (drop 20 src)), dh_sequence = of_le_bytes (take 8 (drop 28 src)),
                 dh_payload_len = payload_len, dh_total = tot\<rparr>))"

record replay_stats =
  rs_applied :: nat
  rs_bytes :: nat
  rs_last_sequence :: nat
  rs_tail :: "tail_state option"

definition replay_stats_default :: replay_stats where
  "replay_stats_default = \<lparr>rs_applied = 0, rs_bytes = 0, rs_last_sequence = 0, rs_tail = None\<rparr>"

lemma decode_header_total:
  "decode_header src = Inr (Some h) \<Longrightarrow> 0 < dh_total h \<and> dh_total h \<le> length src"
  by (auto simp: decode_header_def header_bytes_def Let_def split: if_splits option.splits)

function replay_loop :: "(byte list \<Rightarrow> nat) \<Rightarrow> byte list \<Rightarrow> log_entry list \<times> replay_stats \<Rightarrow> log_entry list \<times> replay_stats" where
  "replay_loop crc rest (out, stats) =
     (case decode_header rest of
        Inr None \<Rightarrow> (out, stats)
      | Inl state \<Rightarrow> (out, stats\<lparr>rs_tail := Some state\<rparr>)
      | Inr (Some hdr) \<Rightarrow>
          let body = take (dh_payload_len hdr) (drop header_bytes rest);
              crc_wire = of_le_bytes (take 4 (drop (dh_total hdr - 4) rest))
          in if crc (take (dh_total hdr - 4) rest) \<noteq> crc_wire then (out, stats\<lparr>rs_tail := Some Torn\<rparr>)
             else replay_loop crc (drop (dh_total hdr) rest)
               (out @ [\<lparr>le_kind = dh_kind hdr, le_file_id = dh_file_id hdr, le_offset = dh_offset hdr,
                  le_sequence = dh_sequence hdr, le_payload = body\<rparr>],
                stats\<lparr>rs_applied := rs_applied stats + 1, rs_bytes := rs_bytes stats + dh_total hdr,
                  rs_last_sequence := dh_sequence hdr\<rparr>))"
  by pat_completeness auto
termination by (relation "measure (\<lambda>(_, rest, _). length rest)") (auto dest: decode_header_total)

definition replay :: "(byte list \<Rightarrow> nat) \<Rightarrow> byte list \<Rightarrow> log_entry list \<times> replay_stats" where
  "replay crc img = replay_loop crc img ([], replay_stats_default)"

section \<open>Appending\<close>

record 's sink =
  write_all :: "'s \<Rightarrow> byte list \<Rightarrow> bool \<times> 's"
  flush_sink :: "'s \<Rightarrow> bool \<times> 's"

record 's record_log =
  log_sink :: 's
  log_sequence :: nat
  bytes_since_checkpoint :: nat
  records_since_checkpoint :: nat
  last_kind :: "record_type option"

definition log_new :: "'s \<Rightarrow> 's record_log" where
  "log_new s = \<lparr>log_sink = s, log_sequence = 0, bytes_since_checkpoint = 0, records_since_checkpoint = 0, last_kind = None\<rparr>"

datatype log_error = PayloadTooLarge | ControlPayload | SinkFailed

fun payload_check :: "record_type \<Rightarrow> byte list \<Rightarrow> log_error option" where
  "payload_check Create payload = (if small_file_max < length payload then Some PayloadTooLarge else None)"
| "payload_check Data payload = (if small_file_max < length payload then Some PayloadTooLarge else None)"
| "payload_check Delete payload = (if payload \<noteq> [] then Some ControlPayload else None)"
| "payload_check Truncate payload = (if payload \<noteq> [] then Some ControlPayload else None)"
| "payload_check Commit payload = None"
| "payload_check Checkpoint payload = None"

definition log_append :: "(byte list \<Rightarrow> nat) \<Rightarrow> 's sink \<Rightarrow> record_type \<Rightarrow> nat \<Rightarrow> nat \<Rightarrow> byte list \<Rightarrow>
    's record_log \<Rightarrow> (log_error + nat) \<times> 's record_log" where
  "log_append crc sk kind file_id offset payload l =
     (case payload_check kind payload of Some e \<Rightarrow> (Inl e, l)
      | None \<Rightarrow>
         (let seq = log_sequence l; wire = encode_record crc kind file_id offset seq payload
          in case write_all sk (log_sink l) wire of
               (False, s') \<Rightarrow> (Inl SinkFailed, l\<lparr>log_sink := s'\<rparr>)
             | (True, s') \<Rightarrow> (Inr seq, l\<lparr>log_sink := s', log_sequence := wrap_add (log_sequence l) 1,
                 bytes_since_checkpoint := wrap_add (bytes_since_checkpoint l) (length wire),
                 records_since_checkpoint := wrap_add (records_since_checkpoint l) 1, last_kind := Some kind\<rparr>)))"

definition flush_log :: "'s sink \<Rightarrow> nat \<Rightarrow> 's record_log \<Rightarrow> (log_error + nat) \<times> 's record_log" where
  "flush_log sk seq l = (case flush_sink sk (log_sink l) of
     (ok, s') \<Rightarrow> (if ok then Inr seq else Inl SinkFailed, l\<lparr>log_sink := s'\<rparr>))"

definition log_commit :: "(byte list \<Rightarrow> nat) \<Rightarrow> 's sink \<Rightarrow> 's record_log \<Rightarrow> (log_error + nat) \<times> 's record_log" where
  "log_commit crc sk l = (case log_append crc sk Commit 0 0 [] l of
     (Inl e, l') \<Rightarrow> (Inl e, l') | (Inr seq, l') \<Rightarrow> flush_log sk seq l')"

definition mark_checkpoint :: "(byte list \<Rightarrow> nat) \<Rightarrow> 's sink \<Rightarrow> nat \<Rightarrow> 's record_log \<Rightarrow> (log_error + nat) \<times> 's record_log" where
  "mark_checkpoint crc sk drained_through l = (case log_append crc sk Checkpoint 0 drained_through [] l of
     (Inl e, l') \<Rightarrow> (Inl e, l')
   | (Inr seq, l') \<Rightarrow> flush_log sk seq (l'\<lparr>bytes_since_checkpoint := 0, records_since_checkpoint := 0\<rparr>))"

definition checkpoint_due :: "'s record_log \<Rightarrow> nat \<Rightarrow> nat \<Rightarrow> bool" where
  "checkpoint_due l byte_budget record_budget \<longleftrightarrow>
     byte_budget \<le> bytes_since_checkpoint l \<or> record_budget \<le> records_since_checkpoint l \<or>
     (last_kind l = Some Commit \<and> 1 < records_since_checkpoint l \<and> 0 < bytes_since_checkpoint l)"

section \<open>One record\<close>

definition entry_wf :: "log_entry \<Rightarrow> bool" where
  "entry_wf e \<longleftrightarrow> le_file_id e < 2 ^ 64 \<and> le_offset e < 2 ^ 64 \<and> le_sequence e < 2 ^ 64 \<and> length (le_payload e) < 2 ^ 32"

definition wire :: "(byte list \<Rightarrow> nat) \<Rightarrow> log_entry \<Rightarrow> byte list" where
  "wire crc e = encode_record crc (le_kind e) (le_file_id e) (le_offset e) (le_sequence e) (le_payload e)"

lemma tag_roundtrip [simp]: "record_from_tag (record_tag k) = Some k"
  by (cases k) (simp_all add: record_from_tag_def)

lemma length_encode_header [simp]: "length (encode_header k f off sq p) = 40"
  by (simp add: encode_header_def log_magic_def)

lemma length_wire: "length (wire crc e) = 44 + length (le_payload e)"
  by (simp add: wire_def encode_record_def Let_def)

lemma header_fields:
  "take 4 (encode_header k f off sq p @ r) = log_magic" "(encode_header k f off sq p @ r) ! 4 = log_version"
  "(encode_header k f off sq p @ r) ! 5 = record_tag k"
  "take 8 (drop 12 (encode_header k f off sq p @ r)) = le_bytes 8 f"
  "take 8 (drop 20 (encode_header k f off sq p @ r)) = le_bytes 8 off"
  "take 8 (drop 28 (encode_header k f off sq p @ r)) = le_bytes 8 sq"
  "take 4 (drop 36 (encode_header k f off sq p @ r)) = le_bytes 4 (length p)"
  by (simp_all add: encode_header_def log_magic_def del: le_bytes.simps)

lemma decode_header_wire:
  assumes "entry_wf e" "r = encode_header (le_kind e) (le_file_id e) (le_offset e) (le_sequence e) (le_payload e) @ x"
  shows "decode_header r = (if length r < 44 + length (le_payload e) then Inl Torn
    else Inr (Some \<lparr>dh_kind = le_kind e, dh_file_id = le_file_id e, dh_offset = le_offset e,
      dh_sequence = le_sequence e, dh_payload_len = length (le_payload e), dh_total = 44 + length (le_payload e)\<rparr>))"
proof -
  have "r \<noteq> []" "\<not> length r < 40" using arg_cong [OF assms(2), of length] by auto
  then show ?thesis
    using assms(1) unfolding decode_header_def assms(2) header_fields tag_roundtrip Let_def
    by (simp add: header_bytes_def entry_wf_def del: le_bytes.simps)
qed

declare replay_loop.simps [simp del]

definition bump :: "log_entry \<Rightarrow> replay_stats \<Rightarrow> replay_stats" where
  "bump e stats = stats\<lparr>rs_applied := rs_applied stats + 1, rs_bytes := rs_bytes stats + (44 + length (le_payload e)),
     rs_last_sequence := le_sequence e\<rparr>"

lemma log_entry_eta:
  "\<lparr>le_kind = le_kind e, le_file_id = le_file_id e, le_offset = le_offset e, le_sequence = le_sequence e,
    le_payload = le_payload e\<rparr> = e"
  by (cases e) simp

lemma replay_one:
  assumes "entry_wf e" "\<And>b. crc b < 2 ^ 32"
  shows "replay_loop crc (wire crc e @ rest) (out, stats) = replay_loop crc rest (out @ [e], bump e stats)"
proof -
  let ?h = "encode_header (le_kind e) (le_file_id e) (le_offset e) (le_sequence e) (le_payload e)"
  let ?n = "length (le_payload e)"
  have w: "wire crc e = ?h @ le_payload e @ le_bytes 4 (crc (?h @ le_payload e))"
    by (simp add: wire_def encode_record_def Let_def)
  have d: "decode_header (wire crc e @ rest) = Inr (Some \<lparr>dh_kind = le_kind e, dh_file_id = le_file_id e,
      dh_offset = le_offset e, dh_sequence = le_sequence e, dh_payload_len = ?n, dh_total = 44 + ?n\<rparr>)"
    using decode_header_wire [OF assms(1), of "wire crc e @ rest" "le_payload e @ le_bytes 4 (crc (?h @ le_payload e)) @ rest"]
    by (simp add: w del: le_bytes.simps)
  have parts: "take (40 + ?n) (wire crc e @ rest) = ?h @ le_payload e"
    "take 4 (drop (40 + ?n) (wire crc e @ rest)) = le_bytes 4 (crc (?h @ le_payload e))"
    "take ?n (drop 40 (wire crc e @ rest)) = le_payload e" "drop (44 + ?n) (wire crc e @ rest) = rest"
    using length_wire [of crc e] by (simp_all add: w del: le_bytes.simps)
  have c: "of_le_bytes (le_bytes 4 (crc (?h @ le_payload e))) = crc (?h @ le_payload e)"
    using assms(2) by (intro of_le_bytes_le_bytes) simp
  show ?thesis
    by (subst replay_loop.simps)
      (simp add: d parts c header_bytes_def bump_def Let_def log_entry_eta del: le_bytes.simps take_append drop_append)
qed

lemma replay_torn:
  assumes "entry_wf e" "0 < n" "n < length (wire crc e)"
  shows "replay_loop crc (take n (wire crc e)) (out, stats) = (out, stats\<lparr>rs_tail := Some Torn\<rparr>)"
proof -
  let ?r = "take n (wire crc e)"
  let ?h = "encode_header (le_kind e) (le_file_id e) (le_offset e) (le_sequence e) (le_payload e)"
  have len: "length ?r = n" using assms(3) by simp
  have "decode_header ?r = Inl Torn"
  proof (cases "n < 40")
    case True
    then show ?thesis using assms(2) len by (auto simp: decode_header_def header_bytes_def)
  next
    case False
    then have "?r = ?h @ take (n - 40) (le_payload e @ le_bytes 4 (crc (?h @ le_payload e)))"
      by (simp add: wire_def encode_record_def Let_def del: le_bytes.simps)
    from decode_header_wire [OF assms(1) this] show ?thesis
      using len assms(3) length_wire [of crc e] by simp
  qed
  then show ?thesis by (simp add: replay_loop.simps)
qed

section \<open>Whole logs\<close>

fun whole_records :: "nat \<Rightarrow> log_entry list \<Rightarrow> nat" where
  "whole_records n [] = 0"
| "whole_records n (e # es) =
     (let k = 44 + length (le_payload e) in if k \<le> n then Suc (whole_records (n - k) es) else 0)"

fun cut_inside :: "nat \<Rightarrow> log_entry list \<Rightarrow> bool" where
  "cut_inside n [] = False"
| "cut_inside n (e # es) =
     (let k = 44 + length (le_payload e) in if k \<le> n then cut_inside (n - k) es else 0 < n)"

lemma replay_loop_cut:
  assumes "list_all entry_wf es" "\<And>b. crc b < 2 ^ 32"
  shows "replay_loop crc (take n (concat (map (wire crc) es))) (out, stats) =
    (out @ take (whole_records n es) es,
     (foldl (\<lambda>s e. bump e s) stats (take (whole_records n es) es))
       \<lparr>rs_tail := (if cut_inside n es then Some Torn else rs_tail stats)\<rparr>)"
  using assms(1)
proof (induction es arbitrary: n out stats)
  case Nil
  have "decode_header [] = Inr None" by (simp add: decode_header_def)
  then show ?case by (simp add: replay_loop.simps)
next
  case (Cons e es)
  let ?k = "44 + length (le_payload e)"
  have e: "entry_wf e" "list_all entry_wf es" using Cons.prems by simp_all
  note len = length_wire [of crc e]
  consider (all) "?k \<le> n" | (none) "n = 0" | (cut) "0 < n" "n < ?k" by linarith
  then show ?case
  proof cases
    case all
    then have "take n (concat (map (wire crc) (e # es))) = wire crc e @ take (n - ?k) (concat (map (wire crc) es))"
      using len by simp
    with all show ?thesis
      by (simp add: replay_one [OF e(1) assms(2)] Cons.IH [OF e(2)]) (simp add: bump_def)
  next
    case none
    have "decode_header [] = Inr None" by (simp add: decode_header_def)
    with none show ?thesis by (simp add: replay_loop.simps)
  next
    case cut
    then have "take n (concat (map (wire crc) (e # es))) = take n (wire crc e)" using len by simp
    with cut show ?thesis using replay_torn [OF e(1) cut(1), of crc out stats] len by simp
  qed
qed

lemma replay_cut:
  assumes "list_all entry_wf es" "\<And>b. crc b < 2 ^ 32" "k = whole_records n es"
  shows "replay crc (take n (concat (map (wire crc) es))) =
    (take k es, (foldl (\<lambda>s e. bump e s) replay_stats_default (take k es))
       \<lparr>rs_tail := (if cut_inside n es then Some Torn else None)\<rparr>)"
  using replay_loop_cut [of es crc n "[]" replay_stats_default] assms(1,2) unfolding replay_def assms(3)
  by (simp add: replay_stats_default_def)

lemma whole_records_le: "whole_records n es \<le> length es"
  by (induction es arbitrary: n) (simp_all add: Let_def)

lemma whole_records_fit:
  "k \<le> length es \<Longrightarrow> k \<le> whole_records n es \<longleftrightarrow> length (concat (map (wire crc) (take k es))) \<le> n"
proof (induction es arbitrary: n k)
  case (Cons e es)
  then show ?case using length_wire [of crc e] by (cases k) (auto simp: Let_def)
qed simp

lemma cut_inside_iff:
  "cut_inside n es \<longleftrightarrow> n < length (concat (map (wire crc) es)) \<and>
     length (concat (map (wire crc) (take (whole_records n es) es))) \<noteq> n"
proof (induction es arbitrary: n)
  case (Cons e es)
  show ?case using length_wire [of crc e] Cons.IH [of "n - (44 + length (le_payload e))"]
    by (auto simp: Let_def)
qed simp

lemma whole_records_all: "length (concat (map (wire crc) es)) \<le> n \<Longrightarrow> whole_records n es = length es"
  using whole_records_fit [of "length es" es n crc] whole_records_le [of n es] by simp

lemma foldl_bump:
  "rs_applied (foldl (\<lambda>s e. bump e s) s es) = rs_applied s + length es"
  "rs_bytes (foldl (\<lambda>s e. bump e s) s es) = rs_bytes s + length (concat (map (wire crc) es))"
  "rs_last_sequence (foldl (\<lambda>s e. bump e s) s es) = (if es = [] then rs_last_sequence s else le_sequence (last es))"
  by (induction es arbitrary: s) (simp_all add: bump_def length_wire)


text \<open>
  C11. Replay after a crash. Let a log hold the records \<open>es\<close> and let a crash keep the first \<open>n\<close> bytes of it.
  Replay ends and returns exactly the records that lie wholly within those bytes, in order and unchanged. It reports a
  clean end when the cut falls on a record boundary (or the whole log is there) and a torn tail otherwise, never
  corruption; and it counts the records and the bytes it applied and the sequence number of the last one. Of the
  checksum only its 32-bit range is used.
\<close>

theorem replay_survives_cut:
  assumes "list_all entry_wf es" "\<And>b. crc b < 2 ^ 32"
  shows "\<exists>k \<le> length es.
    fst (replay crc (take n (concat (map (wire crc) es)))) = take k es \<and>
    length (concat (map (wire crc) (take k es))) \<le> n \<and>
    (k < length es \<longrightarrow> n < length (concat (map (wire crc) (take (Suc k) es)))) \<and>
    snd (replay crc (take n (concat (map (wire crc) es)))) =
      \<lparr>rs_applied = k, rs_bytes = length (concat (map (wire crc) (take k es))),
       rs_last_sequence = (if k = 0 then 0 else le_sequence (es ! (k - 1))),
       rs_tail = (if k = length es \<or> length (concat (map (wire crc) (take k es))) = n then None else Some Torn)\<rparr>"
proof (intro exI conjI)
  let ?k = "whole_records n es"
  note r = replay_cut [of es crc ?k n, OF assms(1) assms(2) refl]
  show le: "?k \<le> length es" by (rule whole_records_le)
  show "fst (replay crc (take n (concat (map (wire crc) es)))) = take ?k es" by (simp add: r)
  show fit: "length (concat (map (wire crc) (take ?k es))) \<le> n" using whole_records_fit [OF le] by blast
  show "?k < length es \<longrightarrow> n < length (concat (map (wire crc) (take (Suc ?k) es)))"
  proof
    assume "?k < length es"
    then have "Suc ?k \<le> length es" by simp
    from whole_records_fit [OF this, of n crc] show "n < length (concat (map (wire crc) (take (Suc ?k) es)))" by linarith
  qed
  have "cut_inside n es \<longleftrightarrow> \<not> (?k = length es \<or> length (concat (map (wire crc) (take ?k es))) = n)"
    using cut_inside_iff [of n es crc] whole_records_all [of crc es n] fit le by (cases "?k = length es") auto
  moreover have "last (take ?k es) = es ! (?k - 1)" if "0 < ?k"
    using that le by (subst last_conv_nth) auto
  ultimately show "snd (replay crc (take n (concat (map (wire crc) es)))) =
      \<lparr>rs_applied = ?k, rs_bytes = length (concat (map (wire crc) (take ?k es))),
       rs_last_sequence = (if ?k = 0 then 0 else le_sequence (es ! (?k - 1))),
       rs_tail = (if ?k = length es \<or> length (concat (map (wire crc) (take ?k es))) = n then None else Some Torn)\<rparr>"
    using le by (intro replay_stats.equality)
      (auto simp: r foldl_bump(1,3) foldl_bump(2) [of _ _ crc] replay_stats_default_def)
qed

definition sample_log :: "log_entry list" where
  "sample_log =
     [\<lparr>le_kind = Create, le_file_id = 3, le_offset = 0, le_sequence = 0, le_payload = [1, 2]\<rparr>,
      \<lparr>le_kind = Commit, le_file_id = 0, le_offset = 0, le_sequence = 1, le_payload = []\<rparr>]"

theorem replay_survives_cut_witness:
  "\<exists>k \<le> length sample_log.
     fst (replay (\<lambda>_. 7) (take 50 (concat (map (wire (\<lambda>_. 7)) sample_log)))) = take k sample_log"
proof -
  have "list_all entry_wf sample_log" by (simp add: sample_log_def entry_wf_def)
  from replay_survives_cut [OF this, of "\<lambda>_. 7" 50] show ?thesis by fastforce
qed

section \<open>Logs over a sink\<close>

text \<open>
  What the log relies on of its sink: a successful \<open>write_all\<close> appends the bytes to what a later reader
  of the medium sees, and a flush adds nothing to it. Nothing is assumed of a failed write. \<open>flush_sink\<close> matters only
  for how much of that image a crash may lose.
\<close>

locale append_sink =
  fixes sk :: "'s sink" and img :: "'s \<Rightarrow> byte list"
  assumes write_appends: "write_all sk s b = (True, s') \<Longrightarrow> img s' = img s @ b"
    and flush_keeps: "flush_sink sk s = (ok, s') \<Longrightarrow> img s' = img s"
begin

lemma log_append_image:
  assumes "log_append crc sk kind f off p l = (Inr seq, l')"
  shows "img (log_sink l') = img (log_sink l) @ wire crc \<lparr>le_kind = kind, le_file_id = f, le_offset = off, le_sequence = log_sequence l, le_payload = p\<rparr>"
    and "seq = log_sequence l" and "log_sequence l' = wrap_add (log_sequence l) 1" and "payload_check kind p = None"
  using assms
  by (auto simp: log_append_def wire_def Let_def write_appends split: option.splits prod.splits bool.splits)

lemma log_commit_image:
  assumes "log_commit crc sk l = (Inr seq, l')"
  shows "img (log_sink l') = img (log_sink l) @ wire crc \<lparr>le_kind = Commit, le_file_id = 0, le_offset = 0, le_sequence = log_sequence l, le_payload = []\<rparr>"
    and "seq = log_sequence l" and "log_sequence l' = wrap_add (log_sequence l) 1"
proof -
  obtain l1 where l1: "log_append crc sk Commit 0 0 [] l = (Inr seq, l1)" "flush_log sk seq l1 = (Inr seq, l')"
    using assms by (auto simp: log_commit_def flush_log_def split: prod.splits sum.splits if_splits)
  have keep: "img (log_sink l') = img (log_sink l1)" "log_sequence l' = log_sequence l1"
    using l1(2) by (auto simp: flush_log_def flush_keeps split: prod.splits)
  show "img (log_sink l') = img (log_sink l) @ wire crc \<lparr>le_kind = Commit, le_file_id = 0, le_offset = 0, le_sequence = log_sequence l, le_payload = []\<rparr>"
    "seq = log_sequence l" "log_sequence l' = wrap_add (log_sequence l) 1"
    using log_append_image [OF l1(1)] keep by simp_all
qed

end

text \<open>A byte vector is such a sink; it never fails.\<close>

definition vec_sink :: "byte list sink" where
  "vec_sink = \<lparr>write_all = \<lambda>s b. (True, s @ b), flush_sink = \<lambda>s. (True, s)\<rparr>"

interpretation vec: append_sink vec_sink "\<lambda>s. s"
  by unfold_locales (auto simp: vec_sink_def)

end
