(* ===== verification/Small_Write.thy ===== *)
theory Small_Write
  imports Record_Log
begin

text \<open>
  The small-write router: \<^verbatim>\<open>src/crates/lionfs/src/wiring/small_write.rs\<close>, over the record journal of
  \<^verbatim>\<open>Record_Log\<close>.

  The overlay, a \<open>BTreeMap\<close> from file ids to record vectors, is the list of its bindings in key order. The closure that
  \<open>drain\<close> hands the records to is represented by the list of the records it is called with.
\<close>

section \<open>The router\<close>

record window_policy =
  byte_budget :: nat
  record_budget :: nat
  checkpoint_bytes :: nat
  checkpoint_records :: nat

definition default_policy :: window_policy where
  "default_policy = \<lparr>byte_budget = 2 ^ 20, record_budget = 256, checkpoint_bytes = 16 * 2 ^ 20, checkpoint_records = 4096\<rparr>"

datatype write_route = RouteLog | RouteTree

datatype drain_verdict = Hold | Drain

record checkpoint_outcome =
  entries_drained :: nat
  checkpoint_through :: nat

record overlay_rec =
  or_kind :: record_type
  or_file_id :: nat
  or_offset :: nat
  or_payload :: "byte list"
  or_sequence :: nat
  or_durable :: bool

type_synonym overlay = "(nat \<times> overlay_rec list) list"

record 's router =
  rt_log :: "'s record_log"
  rt_policy :: window_policy
  rt_overlay :: overlay
  window_bytes :: nat
  window_records :: nat
  routes_log :: nat
  routes_tree :: nat
  commits :: nat
  checkpoints :: nat

definition router_new :: "'s \<Rightarrow> window_policy \<Rightarrow> 's router" where
  "router_new s policy = \<lparr>rt_log = log_new s, rt_policy = policy, rt_overlay = [], window_bytes = 0, window_records = 0,
     routes_log = 0, routes_tree = 0, commits = 0, checkpoints = 0\<rparr>"

fun overlay_push :: "nat \<Rightarrow> overlay_rec \<Rightarrow> overlay \<Rightarrow> overlay" where
  "overlay_push k r [] = [(k, [r])]"
| "overlay_push k r ((k', rs) # ov) =
     (if k = k' then (k', rs @ [r]) # ov else if k < k' then (k, [r]) # (k', rs) # ov
      else (k', rs) # overlay_push k r ov)"

definition is_control :: "log_entry \<Rightarrow> bool" where
  "is_control e \<longleftrightarrow> le_kind e = Commit \<or> le_kind e = Checkpoint"

fun last_commit :: "nat \<Rightarrow> log_entry list \<Rightarrow> nat option" where
  "last_commit i [] = None"
| "last_commit i (e # es) =
     (case last_commit (Suc i) es of Some c \<Rightarrow> Some c | None \<Rightarrow> if le_kind e = Commit then Some i else None)"

fun replay_overlay :: "nat option \<Rightarrow> nat \<Rightarrow> log_entry list \<Rightarrow> overlay \<Rightarrow> overlay" where
  "replay_overlay lc i [] ov = ov"
| "replay_overlay lc i (e # es) ov =
     (let durable = (case lc of Some c \<Rightarrow> i \<le> c | None \<Rightarrow> False)
      in replay_overlay lc (Suc i) es
        (if is_control e then ov
         else overlay_push (le_file_id e) \<lparr>or_kind = le_kind e, or_file_id = le_file_id e, or_offset = le_offset e,
           or_payload = le_payload e, or_sequence = le_sequence e, or_durable = durable\<rparr> ov))"

definition from_replay :: "'s \<Rightarrow> window_policy \<Rightarrow> log_entry list \<Rightarrow> 's router" where
  "from_replay s policy entries =
     (router_new s policy)\<lparr>rt_overlay := replay_overlay (last_commit 0 entries) 0 entries []\<rparr>"

definition route :: "byte list \<Rightarrow> write_route" where
  "route payload = (if length payload \<le> small_file_max then RouteLog else RouteTree)"

definition router_write :: "(byte list \<Rightarrow> nat) \<Rightarrow> 's sink \<Rightarrow> nat \<Rightarrow> nat \<Rightarrow> byte list \<Rightarrow> record_type \<Rightarrow> 's router \<Rightarrow>
    (log_error + write_route) \<times> 's router" where
  "router_write crc sk file_id offset payload kind r =
     (if route payload = RouteTree then (Inr RouteTree, r\<lparr>routes_tree := wrap_add (routes_tree r) 1\<rparr>)
      else case log_append crc sk kind file_id offset payload (rt_log r) of
          (Inl e, l) \<Rightarrow> (Inl e, r\<lparr>rt_log := l\<rparr>)
        | (Inr seq, l) \<Rightarrow> (Inr RouteLog, r\<lparr>rt_log := l, routes_log := wrap_add (routes_log r) 1,
            window_bytes := wrap_add (window_bytes r) (length payload), window_records := wrap_add (window_records r) 1,
            rt_overlay := overlay_push file_id \<lparr>or_kind = kind, or_file_id = file_id, or_offset = offset,
              or_payload = payload, or_sequence = seq, or_durable = False\<rparr> (rt_overlay r)\<rparr>))"

definition window_ready :: "'s router \<Rightarrow> bool" where
  "window_ready r \<longleftrightarrow> byte_budget (rt_policy r) \<le> window_bytes r \<or> record_budget (rt_policy r) \<le> window_records r"

definition mark_durable :: "overlay \<Rightarrow> overlay" where
  "mark_durable ov = map (\<lambda>(k, rs). (k, map (\<lambda>r. r\<lparr>or_durable := True\<rparr>) rs)) ov"

definition commit_window :: "(byte list \<Rightarrow> nat) \<Rightarrow> 's sink \<Rightarrow> 's router \<Rightarrow> (log_error + nat) \<times> 's router" where
  "commit_window crc sk r =
     (case log_commit crc sk (rt_log r) of
        (Inl e, l) \<Rightarrow> (Inl e, r\<lparr>rt_log := l\<rparr>)
      | (Inr seq, l) \<Rightarrow> (Inr seq, r\<lparr>rt_log := l, commits := wrap_add (commits r) 1, window_bytes := 0,
          window_records := 0, rt_overlay := mark_durable (rt_overlay r)\<rparr>))"

definition drain_decision :: "'s router \<Rightarrow> drain_verdict" where
  "drain_decision r =
     (if checkpoint_due (rt_log r) (checkpoint_bytes (rt_policy r)) (checkpoint_records (rt_policy r)) then Drain else Hold)"

definition to_entry :: "overlay_rec \<Rightarrow> log_entry" where
  "to_entry r = \<lparr>le_kind = or_kind r, le_file_id = or_file_id r, le_offset = or_offset r, le_sequence = or_sequence r,
     le_payload = or_payload r\<rparr>"

definition drain :: "(byte list \<Rightarrow> nat) \<Rightarrow> 's sink \<Rightarrow> 's router \<Rightarrow>
    (log_error + checkpoint_outcome) \<times> log_entry list \<times> 's router" where
  "drain crc sk r =
     (let flat = sort_key or_sequence (concat (map snd (rt_overlay r)));
          through = sat_sub (log_sequence (rt_log r)) 1; handed = map to_entry flat
      in case mark_checkpoint crc sk through (rt_log r) of
           (Inl e, l) \<Rightarrow> (Inl e, handed, r\<lparr>rt_log := l\<rparr>)
         | (Inr _, l) \<Rightarrow> (Inr \<lparr>entries_drained = length flat, checkpoint_through = through\<rparr>, handed,
             r\<lparr>rt_log := l, rt_overlay := [], checkpoints := wrap_add (checkpoints r) 1\<rparr>))"

text \<open>
  \<open>read_overlay\<close> adds an offset and a length in 64 bits. When that wraps, the slice it then copies to has its start after
  its end, and indexing it panics; the outer \<open>None\<close> is that panic.
\<close>

fun splice_all :: "overlay_rec list \<Rightarrow> byte list \<Rightarrow> byte list option" where
  "splice_all [] buf = Some buf"
| "splice_all (r # rs) buf =
     (let start = or_offset r; stop = wrap_add start (length (or_payload r))
      in if stop \<le> length buf
         then if stop < start then None else splice_all rs (take start buf @ or_payload r @ drop stop buf)
         else splice_all rs buf)"

definition read_overlay :: "nat \<Rightarrow> 's router \<Rightarrow> byte list option option" where
  "read_overlay file_id r =
     (case map_of (rt_overlay r) file_id of None \<Rightarrow> Some None
      | Some recs \<Rightarrow>
          if recs = [] then Some None
          else let stop = foldl (\<lambda>m r. max m (wrap_add (or_offset r) (length (or_payload r)))) 0 recs
               in map_option Some (splice_all recs (replicate stop 0)))"

definition overlay_len :: "'s router \<Rightarrow> nat" where
  "overlay_len r = sum_list (map (\<lambda>(_, rs). length rs) (rt_overlay r))"

section \<open>The overlay and the log\<close>

definition rebuild :: "log_entry list \<Rightarrow> overlay" where
  "rebuild es = replay_overlay (last_commit 0 es) 0 es []"

lemma last_commit_append:
  "last_commit i (es @ fs) = (case last_commit (i + length es) fs of Some c \<Rightarrow> Some c | None \<Rightarrow> last_commit i es)"
  by (induction es arbitrary: i) (auto split: option.splits)

lemma last_commit_less: "last_commit i es = Some c \<Longrightarrow> c < i + length es"
  by (induction es arbitrary: i) (fastforce split: option.splits if_splits)+

lemma replay_overlay_append:
  "replay_overlay lc i (es @ fs) ov = replay_overlay lc (i + length es) fs (replay_overlay lc i es ov)"
  by (induction es arbitrary: i ov) (simp_all add: Let_def)

lemma mark_durable_push: "mark_durable (overlay_push k r ov) = overlay_push k (r\<lparr>or_durable := True\<rparr>) (mark_durable ov)"
  by (induction k r ov rule: overlay_push.induct) (auto simp: mark_durable_def)

lemma mark_durable_replay:
  assumes "i + length es \<le> Suc c"
  shows "mark_durable (replay_overlay lc i es ov) = replay_overlay (Some c) i es (mark_durable ov)"
  using assms by (induction es arbitrary: i ov) (auto simp: Let_def mark_durable_push)

lemma rebuild_Nil [simp]: "rebuild [] = []"
  by (simp add: rebuild_def)

lemma rebuild_write:
  "\<not> is_control e \<Longrightarrow> rebuild (es @ [e]) = overlay_push (le_file_id e) \<lparr>or_kind = le_kind e, or_file_id = le_file_id e,
     or_offset = le_offset e, or_payload = le_payload e, or_sequence = le_sequence e, or_durable = False\<rparr> (rebuild es)"
  using last_commit_less [of 0 es]
  by (auto simp: rebuild_def is_control_def last_commit_append replay_overlay_append Let_def not_le split: option.splits)

lemma rebuild_commit: "le_kind e = Commit \<Longrightarrow> rebuild (es @ [e]) = mark_durable (rebuild es)"
  using mark_durable_replay [of 0 es "length es" "last_commit 0 es" "[]"]
  by (simp add: rebuild_def is_control_def last_commit_append replay_overlay_append mark_durable_def)


section \<open>Runs\<close>

text \<open>
  A run of the router: writes and window commits, given up at the first error. \<open>logged\<close> lists the records a run leaves
  in the log.
\<close>

datatype router_cmd = Write nat nat "byte list" record_type | Commit_Window

fun exec :: "(byte list \<Rightarrow> nat) \<Rightarrow> 's sink \<Rightarrow> router_cmd \<Rightarrow> 's router \<Rightarrow> 's router option" where
  "exec crc sk (Write f off p k) r = (case router_write crc sk f off p k r of (Inl _, _) \<Rightarrow> None | (Inr _, r') \<Rightarrow> Some r')"
| "exec crc sk Commit_Window r = (case commit_window crc sk r of (Inl _, _) \<Rightarrow> None | (Inr _, r') \<Rightarrow> Some r')"

fun run_router :: "(byte list \<Rightarrow> nat) \<Rightarrow> 's sink \<Rightarrow> router_cmd list \<Rightarrow> 's router \<Rightarrow> 's router option" where
  "run_router crc sk [] r = Some r"
| "run_router crc sk (c # cs) r = Option.bind (exec crc sk c r) (run_router crc sk cs)"

fun logs :: "nat \<Rightarrow> router_cmd \<Rightarrow> log_entry list" where
  "logs i (Write f off p k) = (if length p \<le> small_file_max
     then [\<lparr>le_kind = k, le_file_id = f, le_offset = off, le_sequence = i, le_payload = p\<rparr>] else [])"
| "logs i Commit_Window = [\<lparr>le_kind = Commit, le_file_id = 0, le_offset = 0, le_sequence = i, le_payload = []\<rparr>]"

fun logged :: "nat \<Rightarrow> router_cmd list \<Rightarrow> log_entry list" where
  "logged i [] = []"
| "logged i (c # cs) = logs i c @ logged (i + length (logs i c)) cs"

fun cmd_ok :: "router_cmd \<Rightarrow> bool" where
  "cmd_ok (Write f off p k) \<longleftrightarrow> f < 2 ^ 64 \<and> off < 2 ^ 64 \<and> k \<noteq> Commit \<and> k \<noteq> Checkpoint"
| "cmd_ok Commit_Window \<longleftrightarrow> True"

lemma logs_le_one: "length (logs i c) \<le> 1"
  by (cases c) simp_all

lemma length_logged_le: "length (logged i cs) \<le> length cs"
proof (induction cs arbitrary: i)
  case (Cons c cs)
  show ?case using Cons.IH [of "i + length (logs i c)"] logs_le_one [of i c] by simp
qed simp

lemma logged_sequences: "map le_sequence (logged i cs) = [i..<i + length (logged i cs)]"
proof (induction cs arbitrary: i)
  case (Cons c cs)
  have "map le_sequence (logs i c) = [i..<i + length (logs i c)]" by (cases c) simp_all
  then show ?case
    using Cons.IH [of "i + length (logs i c)"] upt_add_eq_append [of i "i + length (logs i c)"] by (simp add: add.assoc)
qed simp

lemma logged_wf:
  assumes "list_all cmd_ok cs" "i + length cs < 2 ^ 64"
  shows "list_all entry_wf (logged i cs)"
  using assms
proof (induction cs arbitrary: i)
  case (Cons c cs)
  have "list_all entry_wf (logs i c)" using Cons.prems by (cases c) (auto simp: entry_wf_def small_file_max_def)
  then show ?case using Cons.IH [of "i + length (logs i c)"] Cons.prems logs_le_one [of i c] by simp
qed simp

lemma logged_take:
  assumes "m \<le> length (logged i cs)"
  obtains k where "k \<le> length cs" "logged i (take k cs) = take m (logged i cs)"
    "\<And>j. \<lbrakk>j \<le> length cs; length (logged i (take j cs)) \<le> m\<rbrakk> \<Longrightarrow> j \<le> k"
proof -
  have "\<exists>k \<le> length cs. logged i (take k cs) = take m (logged i cs) \<and>
      (\<forall>j \<le> length cs. length (logged i (take j cs)) \<le> m \<longrightarrow> j \<le> k)" using assms
  proof (induction cs arbitrary: i m)
    case (Cons c cs)
    let ?n = "length (logs i c)"
    show ?case
    proof (cases "?n \<le> m")
      case True
      then have "m - ?n \<le> length (logged (i + ?n) cs)" using Cons.prems by simp
      from Cons.IH [OF this] obtain k where k: "k \<le> length cs"
        "logged (i + ?n) (take k cs) = take (m - ?n) (logged (i + ?n) cs)"
        "\<forall>j \<le> length cs. length (logged (i + ?n) (take j cs)) \<le> m - ?n \<longrightarrow> j \<le> k" by blast
      show ?thesis
      proof (intro exI conjI allI impI)
        show "Suc k \<le> length (c # cs)" "logged i (take (Suc k) (c # cs)) = take m (logged i (c # cs))"
          using k True by simp_all
        show "j \<le> Suc k" if "j \<le> length (c # cs)" "length (logged i (take j (c # cs))) \<le> m" for j
          using that k(3) by (cases j) auto
      qed
    next
      case False
      then have "m = 0" using logs_le_one [of i c] by simp
      moreover have "j = 0" if "length (logged i (take j (c # cs))) \<le> 0" for j using that False by (cases j) auto
      ultimately show ?thesis by (intro exI [of _ 0]) auto
    qed
  qed simp
  then show ?thesis using that by blast
qed

lemma logged_append: "logged i (as @ bs) = logged i as @ logged (i + length (logged i as)) bs"
  by (induction as arbitrary: i) (simp_all add: add.assoc)

lemma logged_fits:
  assumes "j \<le> length cs" "length (concat (map (wire crc) (logged i (take j cs)))) \<le> n"
  shows "length (logged i (take j cs)) \<le> whole_records n (logged i cs)"
proof -
  obtain fs where "logged i cs = logged i (take j cs) @ fs"
    using logged_append [of i "take j cs" "drop j cs"] by simp
  with assms(2) show ?thesis by (subst whole_records_fit [where crc = crc]) simp_all
qed

lemma run_router_append: "run_router crc sk (as @ bs) r = Option.bind (run_router crc sk as r) (run_router crc sk bs)"
  by (induction as arbitrary: r) (auto split: bind_splits)

lemma run_router_take:
  assumes "run_router crc sk cs r = Some r'"
  obtains rk where "run_router crc sk (take k cs) r = Some rk"
  using assms run_router_append [of crc sk "take k cs" "drop k cs" r] by (cases "run_router crc sk (take k cs) r") auto

context append_sink
begin

abbreviation router_image :: "'s router \<Rightarrow> byte list" where
  "router_image r \<equiv> img (log_sink (rt_log r))"

lemma exec_step:
  assumes "exec crc sk c r = Some r'" "cmd_ok c" "log_sequence (rt_log r) + 1 < 2 ^ 64" "rt_overlay r = rebuild es"
  defines "fs \<equiv> logs (log_sequence (rt_log r)) c"
  shows "router_image r' = router_image r @ concat (map (wire crc) fs)"
    and "log_sequence (rt_log r') = log_sequence (rt_log r) + length fs"
    and "rt_overlay r' = rebuild (es @ fs)"
proof -
  have "router_image r' = router_image r @ concat (map (wire crc) fs) \<and>
    log_sequence (rt_log r') = log_sequence (rt_log r) + length fs \<and> rt_overlay r' = rebuild (es @ fs)"
  proof (cases c)
    case (Write f off p k)
    show ?thesis
    proof (cases "length p \<le> small_file_max")
      case True
      obtain seq l where l: "log_append crc sk k f off p (rt_log r) = (Inr seq, l)"
        using assms(1) Write True by (auto simp: router_write_def route_def split: prod.splits sum.splits)
      show ?thesis using log_append_image [OF l] assms(1-4) Write True l
        by (simp add: fs_def router_write_def route_def wrap_add_def rebuild_write is_control_def) (auto simp: rebuild_write is_control_def)
    next
      case False
      then show ?thesis using assms(1,4) Write by (auto simp: fs_def router_write_def route_def)
    qed
  next
    case Commit_Window
    obtain seq l where l: "log_commit crc sk (rt_log r) = (Inr seq, l)"
      using assms(1) Commit_Window by (auto simp: commit_window_def split: prod.splits sum.splits)
    show ?thesis using log_commit_image [OF l] assms(1-4) Commit_Window l
      by (auto simp: fs_def commit_window_def wrap_add_def rebuild_commit)
  qed
  then show "router_image r' = router_image r @ concat (map (wire crc) fs)"
    "log_sequence (rt_log r') = log_sequence (rt_log r) + length fs" "rt_overlay r' = rebuild (es @ fs)" by simp_all
qed

lemma run_router_log:
  assumes "run_router crc sk cs r = Some r'" "list_all cmd_ok cs" "log_sequence (rt_log r) + length cs < 2 ^ 64"
    "rt_overlay r = rebuild es"
  defines "fs \<equiv> logged (log_sequence (rt_log r)) cs"
  shows "router_image r' = router_image r @ concat (map (wire crc) fs) \<and> rt_overlay r' = rebuild (es @ fs)"
  using assms(1-4) unfolding fs_def
proof (induction cs arbitrary: r es)
  case (Cons c cs)
  obtain r1 where r1: "exec crc sk c r = Some r1" "run_router crc sk cs r1 = Some r'"
    using Cons.prems(1) by (auto simp: bind_eq_Some_conv)
  note st = exec_step [OF r1(1) _ _ Cons.prems(4)]
  show ?case
    using Cons.IH [OF r1(2), of "es @ logs (log_sequence (rt_log r)) c"] st Cons.prems(2,3)
      logs_le_one [of "log_sequence (rt_log r)" c] by simp
qed simp

end


lemma fresh_run_log:
  assumes "append_sink sk img" "run_router crc sk cs (router_new s policy) = Some r" "img s = []"
    "list_all cmd_ok cs" "length cs < 2 ^ 64"
  shows "img (log_sink (rt_log r)) = concat (map (wire crc) (logged 0 cs))" and "rt_overlay r = rebuild (logged 0 cs)"
  using append_sink.run_router_log [OF assms(1,2,4), of "[]"] assms(3,5) by (simp_all add: router_new_def log_new_def)

text \<open>
  C10. Crash consistency of the small-write path. Run any writes and window commits on a fresh router whose sink appends
  what it is given, and let a crash keep the first \<open>n\<close> bytes of the log. The router rebuilt from the replay of what is
  left has, record for record and durability flag for durability flag, the overlay that the router had after some
  first \<open>k\<close> of the commands, and \<open>k\<close> covers every command whose log bytes survived: in particular, nothing
  that was in the log at a commit whose flush made its bytes stable is lost, and no later command shows in part.
\<close>

theorem crash_recovers_prefix:
  assumes "append_sink sk img" "run_router crc sk cmds (router_new s policy) = Some r" "img s = []"
    "list_all cmd_ok cmds" "length cmds < 2 ^ 64" "\<And>b. crc b < 2 ^ 32"
  shows "\<exists>k rk. k \<le> length cmds \<and> run_router crc sk (take k cmds) (router_new s policy) = Some rk \<and>
    rt_overlay (from_replay s' policy' (fst (replay crc (take n (img (log_sink (rt_log r))))))) = rt_overlay rk \<and>
    (\<forall>j rj. j \<le> length cmds \<longrightarrow> run_router crc sk (take j cmds) (router_new s policy) = Some rj \<longrightarrow>
       length (img (log_sink (rt_log rj))) \<le> n \<longrightarrow> j \<le> k)"
proof -
  let ?es = "logged 0 cmds"
  have pre: "img (log_sink (rt_log rj)) = concat (map (wire crc) (logged 0 (take j cmds)))"
    "rt_overlay rj = rebuild (logged 0 (take j cmds))"
    if "run_router crc sk (take j cmds) (router_new s policy) = Some rj" for j rj
    using fresh_run_log [OF assms(1) that assms(3)] assms(4,5) by (auto simp: list_all_length)
  obtain k where k: "k \<le> length cmds" "logged 0 (take k cmds) = take (whole_records n ?es) ?es"
    "\<And>j. \<lbrakk>j \<le> length cmds; length (logged 0 (take j cmds)) \<le> whole_records n ?es\<rbrakk> \<Longrightarrow> j \<le> k"
    using logged_take [OF whole_records_le] by blast
  obtain rk where rk: "run_router crc sk (take k cmds) (router_new s policy) = Some rk"
    using run_router_take [OF assms(2)] by blast
  have "fst (replay crc (take n (img (log_sink (rt_log r))))) = take (whole_records n ?es) ?es"
    using fresh_run_log(1) [OF assms(1-5)] replay_cut [of ?es crc _ n] logged_wf [OF assms(4)] assms(5,6) by simp
  then have "rt_overlay (from_replay s' policy' (fst (replay crc (take n (img (log_sink (rt_log r))))))) = rt_overlay rk"
    using pre(2) [OF rk] k(2) by (simp add: from_replay_def rebuild_def)
  moreover have "j \<le> k" if "j \<le> length cmds" "run_router crc sk (take j cmds) (router_new s policy) = Some rj"
      "length (img (log_sink (rt_log rj))) \<le> n" for j rj
    using logged_fits [OF that(1), of crc 0 n] pre(1) [OF that(2)] that(1,3) k(3) by simp
  ultimately show ?thesis using k(1) rk by blast
qed

text \<open>A run on a byte vector: a write, a commit and a write to another file.\<close>

definition sample_cmds :: "router_cmd list" where
  "sample_cmds = [Write 3 0 [1, 2] Create, Commit_Window, Write 2 5 [9] Data]"

lemma sample_cmds_ok: "list_all cmd_ok sample_cmds" "length sample_cmds < 2 ^ 64"
  by (simp_all add: sample_cmds_def)

lemma sample_runs: "\<exists>r. run_router (\<lambda>_. 7) vec_sink sample_cmds (router_new [] default_policy) = Some r"
  by (simp add: sample_cmds_def router_write_def route_def small_file_max_def log_append_def vec_sink_def
      commit_window_def log_commit_def flush_log_def Let_def)

theorem crash_recovers_prefix_witness:
  "\<exists>r k rk. run_router (\<lambda>_. 7) vec_sink sample_cmds (router_new [] default_policy) = Some r \<and>
     run_router (\<lambda>_. 7) vec_sink (take k sample_cmds) (router_new [] default_policy) = Some rk \<and>
     rt_overlay (from_replay [] default_policy (fst (replay (\<lambda>_. 7) (take 100 (log_sink (rt_log r)))))) = rt_overlay rk"
proof -
  obtain r where r: "run_router (\<lambda>_. 7) vec_sink sample_cmds (router_new [] default_policy) = Some r"
    using sample_runs by blast
  show ?thesis
    using crash_recovers_prefix [OF vec.append_sink_axioms r refl sample_cmds_ok, of "[]" default_policy 100] r by fastforce
qed

section \<open>Draining\<close>

lemma map_insort_to_entry:
  "map to_entry (insort_key or_sequence r rs) = insort_key le_sequence (to_entry r) (map to_entry rs)"
  by (induction rs) (simp_all add: to_entry_def)

lemma map_sort_to_entry: "map to_entry (sort_key or_sequence rs) = sort_key le_sequence (map to_entry rs)"
  by (induction rs) (simp_all add: map_insort_to_entry)

lemma drain_hands: "fst (snd (drain crc sk r)) = sort_key le_sequence (map to_entry (concat (map snd (rt_overlay r))))"
  by (simp add: drain_def Let_def map_sort_to_entry split: prod.splits sum.splits)

lemma mset_overlay_push: "mset (concat (map snd (overlay_push k r ov))) = add_mset r (mset (concat (map snd ov)))"
  by (induction k r ov rule: overlay_push.induct) auto

lemma mset_replay_overlay:
  "mset (map to_entry (concat (map snd (replay_overlay lc i es ov)))) =
     mset (map to_entry (concat (map snd ov))) + mset (filter (\<lambda>e. \<not> is_control e) es)"
proof (induction lc i es ov rule: replay_overlay.induct)
  case (2 lc i e es ov)
  have "to_entry \<lparr>or_kind = le_kind e, or_file_id = le_file_id e, or_offset = le_offset e,
      or_payload = le_payload e, or_sequence = le_sequence e, or_durable = d\<rparr> = e" for d
    by (simp add: to_entry_def)
  then show ?case using 2 [OF refl] by (simp add: Let_def mset_overlay_push del: mset_concat map_concat)
qed simp



section \<open>Writing after recovery\<close>

lemma sorted_key_precedes:
  assumes "sorted (map f xs)" "a \<in> set xs" "b \<in> set xs" "f a < (f b :: nat)"
  shows "\<exists>us vs ws. xs = us @ a # vs @ b # ws"
proof -
  obtain ys ws where xs: "xs = ys @ b # ws" using assms(3) by (auto simp: in_set_conv_decomp)
  have "a \<notin> set ws" "a \<noteq> b" using assms(1,4) by (auto simp: xs sorted_append)
  then have "a \<in> set ys" using assms(2) by (auto simp: xs)
  then obtain us vs where "ys = us @ a # vs" by (auto simp: in_set_conv_decomp)
  then show ?thesis using xs by auto
qed

text \<open>
  C39. Writes after a recovery drain in the wrong order. A router built by \<open>from_replay\<close> numbers its records from zero
  again, while the recovered records keep their old sequence numbers. So the first write after a recovery is handed to
  the tree before every recovered record with a positive sequence number, although it was made after all of
  them; where both are for the same bytes of the same file, the older data is the one that stays.
\<close>

theorem recovered_router_reorders:
  assumes "router_write crc sk f off p k (from_replay s policy es) = (Inr RouteLog, r)"
    "e \<in> set es" "\<not> is_control e" "0 < le_sequence e"
  shows "\<exists>us vs ws. fst (snd (drain crc sk r)) =
    us @ \<lparr>le_kind = k, le_file_id = f, le_offset = off, le_sequence = 0, le_payload = p\<rparr> # vs @ e # ws"
proof -
  let ?new = "\<lparr>or_kind = k, or_file_id = f, or_offset = off, or_payload = p, or_sequence = 0, or_durable = False\<rparr>"
  let ?old = "rt_overlay (from_replay s policy es)"
  have seq: "log_sequence (rt_log (from_replay s policy es)) = 0" by (simp add: from_replay_def router_new_def log_new_def)
  then have r: "rt_overlay r = overlay_push f ?new ?old"
    using assms(1) by (auto simp: router_write_def log_append_def Let_def split: if_splits option.splits prod.splits bool.splits)
  have m: "mset (map to_entry (concat (map snd (rt_overlay r)))) =
      add_mset (to_entry ?new) (mset (filter (\<lambda>e. \<not> is_control e) es))"
    using mset_replay_overlay [of _ _ es "[]"]
    by (simp add: r mset_overlay_push from_replay_def del: mset_concat map_concat)
  then have "set (map to_entry (concat (map snd (rt_overlay r)))) = insert (to_entry ?new) {e \<in> set es. \<not> is_control e}"
    by (metis mset_eq_setD set_filter set_mset_add_mset_insert set_mset_mset)
  then have "to_entry ?new \<in> set (fst (snd (drain crc sk r)))" "e \<in> set (fst (snd (drain crc sk r)))"
    using assms(2,3) by (simp_all add: drain_hands del: set_map set_concat)
  moreover have "sorted (map le_sequence (fst (snd (drain crc sk r))))" by (simp add: drain_hands)
  ultimately show ?thesis
    using sorted_key_precedes [of le_sequence _ "to_entry ?new" e] assms(4) by (simp add: to_entry_def)
qed

theorem recovered_router_reorders_witness:
  "\<exists>us vs ws. fst (snd (drain (\<lambda>_. 7) vec_sink (snd (router_write (\<lambda>_. 7) vec_sink 3 0 [5, 5] Data (from_replay [] default_policy
      [\<lparr>le_kind = Commit, le_file_id = 0, le_offset = 0, le_sequence = 0, le_payload = []\<rparr>,
       \<lparr>le_kind = Create, le_file_id = 3, le_offset = 0, le_sequence = 1, le_payload = [1, 2]\<rparr>]))))) =
    us @ \<lparr>le_kind = Data, le_file_id = 3, le_offset = 0, le_sequence = 0, le_payload = [5, 5]\<rparr> # vs @
      \<lparr>le_kind = Create, le_file_id = 3, le_offset = 0, le_sequence = 1, le_payload = [1, 2]\<rparr> # ws"
  by (rule recovered_router_reorders [where es = "[\<lparr>le_kind = Commit, le_file_id = 0, le_offset = 0, le_sequence = 0, le_payload = []\<rparr>,
       \<lparr>le_kind = Create, le_file_id = 3, le_offset = 0, le_sequence = 1, le_payload = [1, 2]\<rparr>]" and s = "[]" and policy = default_policy])
    (simp_all add: router_write_def route_def small_file_max_def log_append_def vec_sink_def Let_def is_control_def)

end
