(* ===== verification/Btree_Model.thy ===== *)
theory Btree_Model
  imports Tx_Context
begin

text \<open>
  The copy-on-write B-tree that holds all metadata: \<^verbatim>\<open>src/crates/lionfs/src/btree\<close> (\<^verbatim>\<open>node.rs\<close>, \<^verbatim>\<open>tree.rs\<close>).

  A block of the image is modelled by the node it decodes to, or by \<open>None\<close> when it cannot be read or its
  magic number or checksum does not verify. A node carries the fields of the header that the code consults and both
  readings of its payload; its level says which one is meant, and its item count is the length of that list. The
  sizes of a key/value pair and of a key/pointer pair, which the compiler derives from the key and value types, are
  parameters. The allocator closure is represented by the list of the blocks its next calls return; at the end of
  the list it fails. The roots and barriers are those of the transaction context.

  Descents follow pointers read from the image and can run in a circle on a damaged one, and an insert calls itself
  after a split; both take fuel, and \<open>Diverged\<close> is the result of running out of it.
\<close>

section \<open>Nodes\<close>

record ('k, 'v) bnode =
  bn_type :: nat
  bn_level :: nat
  bn_gen :: nat
  bn_parent :: nat
  bn_next :: nat
  bn_prev :: nat
  bn_leaf :: "('k \<times> 'v) list"
  bn_leftmost :: nat
  bn_items :: "('k \<times> nat) list"

definition node_new :: "nat \<Rightarrow> nat \<Rightarrow> ('k, 'v) bnode" where
  "node_new level ty = \<lparr>bn_type = ty, bn_level = level, bn_gen = 0, bn_parent = 0, bn_next = 0, bn_prev = 0,
     bn_leaf = [], bn_leftmost = 0, bn_items = []\<rparr>"

definition item_count :: "('k, 'v) bnode \<Rightarrow> nat" where
  "item_count n = (if bn_level n = 0 then length (bn_leaf n) else length (bn_items n))"

definition btree_payload_size :: nat where
  "btree_payload_size = block_size - 64"

record dims =
  kv_size :: nat
  kptr_size :: nat

definition max_leaf_items :: "dims \<Rightarrow> nat" where
  "max_leaf_items d = btree_payload_size div kv_size d"

definition max_internal_items :: "dims \<Rightarrow> nat" where
  "max_internal_items d = (btree_payload_size - 8) div kptr_size d"

section \<open>Handles and their context\<close>

datatype btree_error = BadNode | AllocFailed | IndexPanic | Diverged

record 'k fast_leaf =
  fl_block :: nat
  fl_last_key :: 'k
  fl_count :: nat
  fl_epoch :: nat

record 'k range_leaf =
  rl_block :: nat
  rl_min_key :: 'k
  rl_max_key :: 'k
  rl_count :: nat
  rl_epoch :: nat

record ('k, 'v) btree =
  bt_root :: nat
  bt_type :: nat
  bt_fast :: "'k fast_leaf option"
  bt_range :: "'k range_leaf option"
  bt_frozen_view :: bool
  bt_ctx :: tx_context
  bt_nodes :: "nat \<Rightarrow> ('k, 'v) bnode option"
  bt_gen :: nat
  bt_epoch :: nat
  bt_fresh :: "nat list"

definition is_frozen_tree :: "nat \<Rightarrow> bool" where
  "is_frozen_tree ty \<longleftrightarrow> ty = 1 \<or> ty = 2 \<or> ty = 3 \<or> ty = 5 \<or> ty = 13"

definition bump_epoch :: "('k, 'v) btree \<Rightarrow> ('k, 'v) btree" where
  "bump_epoch s = s\<lparr>bt_epoch := wrap_add (bt_epoch s) 1\<rparr>"

definition cow_barrier_of :: "('k, 'v) btree \<Rightarrow> nat" where
  "cow_barrier_of s = effective_cow_barrier (bt_ctx s)"

text \<open>\<open>new\<close> and \<open>new_frozen\<close>: another handle over the same image.\<close>

definition open_handle :: "nat \<Rightarrow> nat \<Rightarrow> ('k, 'v) btree \<Rightarrow> ('k, 'v) btree" where
  "open_handle r ty s = s\<lparr>bt_root := r, bt_type := ty, bt_fast := None, bt_range := None, bt_frozen_view := False\<rparr>"

definition open_frozen :: "nat \<Rightarrow> nat \<Rightarrow> ('k, 'v) btree \<Rightarrow> ('k, 'v) btree" where
  "open_frozen r ty s = s\<lparr>bt_root := r, bt_type := ty, bt_fast := None, bt_range := None, bt_frozen_view := True\<rparr>"

definition view_root :: "('k, 'v) btree \<Rightarrow> nat" where
  "view_root s = (if bt_frozen_view s then bt_root s else effective_root (bt_ctx s) (bt_type s) (bt_root s))"

definition init_empty :: "nat \<Rightarrow> nat \<Rightarrow> ('k, 'v) btree \<Rightarrow> ('k, 'v) btree" where
  "init_empty r ty s = (bump_epoch s)\<lparr>bt_nodes := (bt_nodes s)(r \<mapsto> node_new 0 ty)\<rparr>"

definition read_node :: "dims \<Rightarrow> nat \<Rightarrow> ('k, 'v) btree \<Rightarrow> btree_error + ('k, 'v) bnode" where
  "read_node d b s =
     (case bt_nodes s b of None \<Rightarrow> Inl BadNode
      | Some n \<Rightarrow>
          if bn_type n \<noteq> bt_type s then Inl BadNode
          else if (if bn_level n = 0 then max_leaf_items d else max_internal_items d) < item_count n then Inl BadNode
          else Inr n)"

definition write_node :: "nat \<Rightarrow> ('k, 'v) bnode \<Rightarrow> ('k, 'v) btree \<Rightarrow> ('k, 'v) btree" where
  "write_node b n s =
     (let g = wrap_add (bt_gen s) 1 in s\<lparr>bt_nodes := (bt_nodes s)(b \<mapsto> n\<lparr>bn_gen := g\<rparr>), bt_gen := g\<rparr>)"

fun allocate_block :: "('k, 'v) btree \<Rightarrow> (btree_error + nat) \<times> ('k, 'v) btree" where
  "allocate_block s = (case bt_fresh s of [] \<Rightarrow> (Inl AllocFailed, s) | b # bs \<Rightarrow> (Inr b, s\<lparr>bt_fresh := bs\<rparr>))"

definition no_alloc :: "('k, 'v) btree \<Rightarrow> (btree_error + nat) \<times> ('k, 'v) btree" where
  "no_alloc s = (Inl AllocFailed, s)"

section \<open>Searching\<close>

text \<open>The binary search of the standard library, on a slice sorted by key.\<close>

definition binary_search :: "'k::linorder \<Rightarrow> ('k \<times> 'a) list \<Rightarrow> nat + nat" where
  "binary_search key items =
     (case position (\<lambda>kv. fst kv = key) items of Some i \<Rightarrow> Inr i
      | None \<Rightarrow> Inl (length (takeWhile (\<lambda>kv. fst kv < key) items)))"

text \<open>The loop over the separators of an internal node.\<close>

fun next_child :: "'k::linorder \<Rightarrow> nat \<Rightarrow> ('k \<times> nat) list \<Rightarrow> nat" where
  "next_child key p [] = p"
| "next_child key p ((k, q) # items) = (if k \<le> key then next_child key q items else p)"

fun lookup_loop :: "dims \<Rightarrow> nat \<Rightarrow> 'k::linorder \<Rightarrow> nat \<Rightarrow> ('k, 'v) btree \<Rightarrow> btree_error + 'v option" where
  "lookup_loop d 0 key b s = Inl Diverged"
| "lookup_loop d (Suc fuel) key b s =
     (case read_node d b s of Inl e \<Rightarrow> Inl e
      | Inr n \<Rightarrow>
          if bn_level n = 0
          then (case binary_search key (bn_leaf n) of Inr i \<Rightarrow> Inr (Some (snd (bn_leaf n ! i))) | Inl _ \<Rightarrow> Inr None)
          else lookup_loop d fuel key (next_child key (bn_leftmost n) (bn_items n)) s)"

definition btree_lookup :: "dims \<Rightarrow> nat \<Rightarrow> 'k::linorder \<Rightarrow> ('k, 'v) btree \<Rightarrow> btree_error + 'v option" where
  "btree_lookup d fuel key s = lookup_loop d fuel key (view_root s) s"

fun floor_loop :: "dims \<Rightarrow> nat \<Rightarrow> 'k::linorder \<Rightarrow> nat \<Rightarrow> ('k, 'v) btree \<Rightarrow> btree_error + ('k \<times> 'v) option" where
  "floor_loop d 0 key b s = Inl Diverged"
| "floor_loop d (Suc fuel) key b s =
     (case read_node d b s of Inl e \<Rightarrow> Inl e
      | Inr n \<Rightarrow>
          if bn_level n = 0
          then (case binary_search key (bn_leaf n) of Inr i \<Rightarrow> Inr (Some (bn_leaf n ! i))
                | Inl 0 \<Rightarrow> Inr None | Inl (Suc i) \<Rightarrow> Inr (Some (bn_leaf n ! i)))
          else floor_loop d fuel key (next_child key (bn_leftmost n) (bn_items n)) s)"

definition lookup_floor :: "dims \<Rightarrow> nat \<Rightarrow> 'k::linorder \<Rightarrow> ('k, 'v) btree \<Rightarrow> btree_error + ('k \<times> 'v) option" where
  "lookup_floor d fuel key s = floor_loop d fuel key (view_root s) s"

fun collect_pairs :: "dims \<Rightarrow> nat \<Rightarrow> nat \<Rightarrow> ('k, 'v) btree \<Rightarrow> btree_error + ('k \<times> 'v) list"
  and collect_children :: "dims \<Rightarrow> nat \<Rightarrow> nat list \<Rightarrow> ('k, 'v) btree \<Rightarrow> btree_error + ('k \<times> 'v) list" where
  "collect_pairs d 0 b s = Inl Diverged"
| "collect_pairs d (Suc fuel) b s =
     (case read_node d b s of Inl e \<Rightarrow> Inl e
      | Inr n \<Rightarrow> if bn_level n = 0 then Inr (bn_leaf n)
                else collect_children d fuel (bn_leftmost n # map snd (bn_items n)) s)"
| "collect_children d fuel [] s = Inr []"
| "collect_children d fuel (p # ps) s =
     (case collect_pairs d fuel p s of Inl e \<Rightarrow> Inl e
      | Inr xs \<Rightarrow> (case collect_children d fuel ps s of Inl e \<Rightarrow> Inl e | Inr ys \<Rightarrow> Inr (xs @ ys)))"

definition iter_all :: "dims \<Rightarrow> nat \<Rightarrow> ('k, 'v) btree \<Rightarrow> btree_error + ('k \<times> 'v) list" where
  "iter_all d fuel s = collect_pairs d fuel (view_root s) s"

fun validate_node :: "dims \<Rightarrow> nat \<Rightarrow> nat \<Rightarrow> ('k, 'v) btree \<Rightarrow> btree_error + nat"
  and validate_children :: "dims \<Rightarrow> nat \<Rightarrow> nat list \<Rightarrow> ('k, 'v) btree \<Rightarrow> btree_error + nat" where
  "validate_node d 0 b s = Inl Diverged"
| "validate_node d (Suc fuel) b s =
     (case read_node d b s of Inl e \<Rightarrow> Inl e
      | Inr n \<Rightarrow> if bn_level n = 0 then Inr 1
                else map_sum id Suc (validate_children d fuel (filter (\<lambda>p. p \<noteq> 0) (bn_leftmost n # map snd (bn_items n))) s))"
| "validate_children d fuel [] s = Inr 0"
| "validate_children d fuel (p # ps) s =
     (case validate_node d fuel p s of Inl e \<Rightarrow> Inl e
      | Inr i \<Rightarrow> map_sum id ((+) i) (validate_children d fuel ps s))"

definition validate :: "dims \<Rightarrow> nat \<Rightarrow> ('k, 'v) btree \<Rightarrow> btree_error + nat" where
  "validate d fuel s = validate_node d fuel (bt_root s) s"

section \<open>The descent of a mutation and its path copies\<close>

text \<open>The path is kept innermost block first.\<close>

fun descend :: "dims \<Rightarrow> nat \<Rightarrow> 'k::linorder \<Rightarrow> nat \<Rightarrow> nat list \<Rightarrow> bool \<Rightarrow> ('k, 'v) btree \<Rightarrow>
    btree_error + nat list \<times> ('k, 'v) bnode \<times> bool" where
  "descend d 0 key b path rightmost s = Inl Diverged"
| "descend d (Suc fuel) key b path rightmost s =
     (case read_node d b s of Inl e \<Rightarrow> Inl e
      | Inr n \<Rightarrow>
          if bn_level n = 0 then Inr (b # path, n, rightmost)
          else descend d fuel key (next_child key (bn_leftmost n) (bn_items n)) (b # path)
                 (if bn_items n \<noteq> [] \<and> key < fst (last (bn_items n)) then False else rightmost) s)"

definition replace_child_ptr :: "nat \<Rightarrow> nat \<Rightarrow> ('k, 'v) bnode \<Rightarrow> ('k, 'v) bnode" where
  "replace_child_ptr old new n =
     (if bn_level n = 0 then n
      else n\<lparr>bn_leftmost := (if bn_leftmost n = old then new else bn_leftmost n),
             bn_items := map (\<lambda>(k, p). (k, if p = old then new else p)) (bn_items n)\<rparr>)"

text \<open>
  The loop of \<open>cow_descent_path\<close> over the path from the root down; \<open>prev\<close> is the effective block of the parent, and the
  effective path is returned innermost first.
\<close>

fun cow_loop :: "dims \<Rightarrow> (('k, 'v) btree \<Rightarrow> (btree_error + nat) \<times> ('k, 'v) btree) \<Rightarrow> nat \<Rightarrow> nat list \<Rightarrow> nat list \<Rightarrow>
    ('k, 'v) btree \<Rightarrow> (btree_error + nat list) \<times> ('k, 'v) btree" where
  "cow_loop d alloc barrier eff [] s = (Inr eff, s)"
| "cow_loop d alloc barrier eff (orig # rest) s =
     (case read_node d orig s of Inl e \<Rightarrow> (Inl e, s)
      | Inr n \<Rightarrow>
          if barrier < bn_gen n then cow_loop d alloc barrier (orig # eff) rest s
          else (case alloc s of (Inl e, s1) \<Rightarrow> (Inl e, s1)
            | (Inr copy, s1) \<Rightarrow>
                (case eff of
                   [] \<Rightarrow>
                     let s2 = write_node copy n s1
                     in cow_loop d alloc barrier [copy] rest
                          (s2\<lparr>bt_root := copy, bt_ctx := set_root_cell (bt_type s2) copy (bt_ctx s2)\<rparr>)
                 | prev # _ \<Rightarrow>
                     let s2 = write_node copy (n\<lparr>bn_parent := prev\<rparr>) s1
                     in (case read_node d prev s2 of Inl e \<Rightarrow> (Inl e, s2)
                         | Inr parent \<Rightarrow>
                             cow_loop d alloc barrier (copy # eff) rest
                               (write_node prev (replace_child_ptr orig copy parent) s2)))))"

definition cow_descent_path :: "dims \<Rightarrow> (('k, 'v) btree \<Rightarrow> (btree_error + nat) \<times> ('k, 'v) btree) \<Rightarrow> nat list \<Rightarrow>
    ('k, 'v) btree \<Rightarrow> (btree_error + nat list) \<times> ('k, 'v) btree" where
  "cow_descent_path d alloc path s = cow_loop d alloc (cow_barrier_of s) [] (rev path) s"

text \<open>The guard both mutations put in front of the copies.\<close>

definition cow_path :: "dims \<Rightarrow> (('k, 'v) btree \<Rightarrow> (btree_error + nat) \<times> ('k, 'v) btree) \<Rightarrow> nat list \<Rightarrow>
    ('k, 'v) btree \<Rightarrow> (btree_error + nat list) \<times> ('k, 'v) btree" where
  "cow_path d alloc path s =
     (if 0 < cow_barrier_of s \<and> is_frozen_tree (bt_type s) then cow_descent_path d alloc path s else (Inr path, s))"

section \<open>Splits\<close>

fun reparent :: "dims \<Rightarrow> (nat \<Rightarrow> bool) \<Rightarrow> nat \<Rightarrow> nat list \<Rightarrow> ('k, 'v) btree \<Rightarrow> (btree_error + unit) \<times> ('k, 'v) btree" where
  "reparent d guard new [] s = (Inr (), s)"
| "reparent d guard new (b # bs) s =
     (case read_node d b s of Inl e \<Rightarrow> (Inl e, s)
      | Inr child \<Rightarrow>
          reparent d guard new bs
            (if guard (bn_parent child) then write_node b (child\<lparr>bn_parent := new\<rparr>) s else s))"

text \<open>The branch of \<open>insert_into_parent\<close> for a split root: the left half moves, the root block stays.\<close>

definition grow_root :: "dims \<Rightarrow> nat \<Rightarrow> 'k \<Rightarrow> nat \<Rightarrow> ('k, 'v) btree \<Rightarrow> (btree_error + nat option) \<times> ('k, 'v) btree" where
  "grow_root d left key right s =
     (case allocate_block s of (Inl e, s1) \<Rightarrow> (Inl e, s1)
      | (Inr moved, s1) \<Rightarrow>
          (case read_node d left s1 of Inl e \<Rightarrow> (Inl e, s1)
           | Inr ln \<Rightarrow>
               let moved_node = ln\<lparr>bn_parent := left\<rparr>
               in (case read_node d right s1 of Inl e \<Rightarrow> (Inl e, s1)
                   | Inr rn \<Rightarrow>
                       (case (if bn_level moved_node = 0
                              then (Inr (), write_node right (rn\<lparr>bn_parent := left, bn_prev :=
                                (if bn_prev rn = left then moved else bn_prev rn)\<rparr>) s1)
                              else reparent d (\<lambda>p. p = left) moved (bn_leftmost moved_node # map snd (bn_items moved_node))
                                (write_node right (rn\<lparr>bn_parent := left\<rparr>) s1)) of
                          (Inl e, s2) \<Rightarrow> (Inl e, s2)
                        | (Inr _, s2) \<Rightarrow>
                            let s3 = write_node moved moved_node s2;
                                root_node = (node_new ((bn_level moved_node + 1) mod 2 ^ 16) (bt_type s))
                                  \<lparr>bn_leftmost := moved, bn_items := [(key, right)]\<rparr>
                            in (Inr None, write_node left root_node s3)))))"

fun insert_into_parent :: "dims \<Rightarrow> nat \<Rightarrow> nat \<Rightarrow> 'k::linorder \<Rightarrow> nat \<Rightarrow> nat list \<Rightarrow> ('k, 'v) btree \<Rightarrow>
    (btree_error + nat option) \<times> ('k, 'v) btree" where
  "insert_into_parent d parent left key right path s =
     (if parent = 0 then grow_root d left key right s
      else case read_node d parent s of Inl e \<Rightarrow> (Inl e, s)
        | Inr pn \<Rightarrow>
            let count = item_count pn;
                at = (case binary_search key (bn_items pn) of Inr i \<Rightarrow> i + 1 | Inl i \<Rightarrow> i);
                items = insert_at at (key, right) (bn_items pn)
            in if max_internal_items d - 1 \<le> count
               then (case allocate_block s of (Inl e, s1) \<Rightarrow> (Inl e, s1)
                 | (Inr rblock, s1) \<Rightarrow>
                     let mid = (count + 1) div 2;
                         (up_key, up_ptr) = items ! mid;
                         right_items = drop (mid + 1) items;
                         rn = (node_new (bn_level pn) (bt_type s))\<lparr>bn_parent := bn_parent pn,
                           bn_leftmost := up_ptr, bn_items := right_items\<rparr>;
                         s2 = write_node parent (pn\<lparr>bn_items := take mid items\<rparr>) (write_node rblock rn s1)
                     in (case reparent d (\<lambda>_. True) rblock (up_ptr # map snd right_items) s2 of
                           (Inl e, s3) \<Rightarrow> (Inl e, s3)
                         | (Inr _, s3) \<Rightarrow>
                             (case path of
                                [] \<Rightarrow> grow_root d parent up_key rblock s3
                              | pp # rest \<Rightarrow> insert_into_parent d pp parent up_key rblock rest s3)))
               else (Inr None, write_node parent (pn\<lparr>bn_items := items\<rparr>) s))"

text \<open>The leaf after a split one points back to the new right half; a read error is dropped there.\<close>

definition relink_next :: "dims \<Rightarrow> nat \<Rightarrow> nat \<Rightarrow> nat \<Rightarrow> ('k, 'v) btree \<Rightarrow> ('k, 'v) btree" where
  "relink_next d leaf_block rblock old_next s =
     (if old_next \<noteq> 0
      then (case read_node d old_next s of Inl _ \<Rightarrow> s
            | Inr nx \<Rightarrow> if bn_prev nx = leaf_block then write_node old_next (nx\<lparr>bn_prev := rblock\<rparr>) s else s)
      else s)"

definition split_leaf :: "dims \<Rightarrow> nat \<Rightarrow> ('k::linorder, 'v) bnode \<Rightarrow> nat list \<Rightarrow> ('k, 'v) btree \<Rightarrow>
    (btree_error + nat option) \<times> ('k, 'v) btree" where
  "split_leaf d leaf_block leaf path s =
     (let s0 = (bump_epoch s)\<lparr>bt_fast := None, bt_range := None\<rparr>
      in case allocate_block s0 of (Inl e, s1) \<Rightarrow> (Inl e, s1)
       | (Inr rblock, s1) \<Rightarrow>
           let s2 = relink_next d leaf_block rblock (bn_next leaf) s1;
               count = item_count leaf; mid = count div 2;
               right_items = drop mid (bn_leaf leaf);
               rn = (node_new 0 (bt_type s))\<lparr>bn_next := bn_next leaf, bn_prev := leaf_block, bn_leaf := right_items\<rparr>;
               ln = leaf\<lparr>bn_next := rblock, bn_leaf := take mid (bn_leaf leaf)\<rparr>
           in if right_items = [] then (Inl IndexPanic, s2)
              else let s3 = write_node leaf_block ln (write_node rblock rn s2)
                   in (case path of
                         [] \<Rightarrow> insert_into_parent d 0 leaf_block (fst (hd right_items)) rblock [] s3
                       | p # rest \<Rightarrow> insert_into_parent d p leaf_block (fst (hd right_items)) rblock rest s3))"

section \<open>Inserting and removing\<close>

definition leaf_frozen :: "('k, 'v) bnode \<Rightarrow> ('k, 'v) btree \<Rightarrow> bool" where
  "leaf_frozen n s \<longleftrightarrow> 0 < cow_barrier_of s \<and> is_frozen_tree (bt_type s) \<and> bn_gen n \<le> cow_barrier_of s"

text \<open>The two fast paths of \<open>insert\<close>; the Boolean says whether the insert is done.\<close>

definition range_update :: "dims \<Rightarrow> 'k::linorder \<Rightarrow> 'v \<Rightarrow> ('k, 'v) btree \<Rightarrow> bool \<times> ('k, 'v) btree" where
  "range_update d key v s =
     (case bt_range s of None \<Rightarrow> (False, s)
      | Some rl \<Rightarrow>
          if rl_min_key rl \<le> key \<and> key \<le> rl_max_key rl \<and> 0 < rl_count rl \<and> rl_epoch rl = bt_epoch s
          then (case read_node d (rl_block rl) s of
                  Inr n \<Rightarrow>
                    (if bn_level n = 0 \<and> item_count n = rl_count rl \<and> \<not> leaf_frozen n s
                     then (case binary_search key (bn_leaf n) of
                             Inr i \<Rightarrow> (True, write_node (rl_block rl) (n\<lparr>bn_leaf := (bn_leaf n)[i := (key, v)]\<rparr>) s)
                           | Inl _ \<Rightarrow> (False, s\<lparr>bt_range := None\<rparr>))
                     else (False, s\<lparr>bt_range := None\<rparr>))
                | Inl _ \<Rightarrow> (False, s\<lparr>bt_range := None\<rparr>))
          else (False, s))"

definition fast_append :: "dims \<Rightarrow> 'k::linorder \<Rightarrow> 'v \<Rightarrow> ('k, 'v) btree \<Rightarrow> bool \<times> ('k, 'v) btree" where
  "fast_append d key v s =
     (case bt_fast s of None \<Rightarrow> (False, s)
      | Some fl \<Rightarrow>
          if fl_last_key fl < key \<and> 0 < fl_count fl \<and> fl_count fl < max_leaf_items d - 1 \<and> fl_epoch fl = bt_epoch s
          then (case read_node d (fl_block fl) s of
                  Inr n \<Rightarrow>
                    (if bn_level n = 0 \<and> item_count n = fl_count fl \<and>
                        fst (bn_leaf n ! (fl_count fl - 1)) = fl_last_key fl \<and> \<not> leaf_frozen n s
                     then let s1 = write_node (fl_block fl) (n\<lparr>bn_leaf := bn_leaf n @ [(key, v)]\<rparr>) s
                          in (True, s1\<lparr>bt_fast := Some \<lparr>fl_block = fl_block fl, fl_last_key = key,
                               fl_count = fl_count fl + 1, fl_epoch = fl_epoch fl\<rparr>\<rparr>)
                     else (False, s\<lparr>bt_fast := None\<rparr>))
                | Inl _ \<Rightarrow> (False, s\<lparr>bt_fast := None\<rparr>))
          else (False, s))"

definition refresh_fast_leaf_if_rightmost :: "nat \<Rightarrow> bool \<Rightarrow> 'k \<Rightarrow> nat \<Rightarrow> ('k, 'v) btree \<Rightarrow> ('k, 'v) btree" where
  "refresh_fast_leaf_if_rightmost b rightmost last_key cnt s =
     (if rightmost then s\<lparr>bt_fast := Some \<lparr>fl_block = b, fl_last_key = last_key, fl_count = cnt, fl_epoch = bt_epoch s\<rparr>\<rparr>
      else s)"

text \<open>The insertion into the leaf at the end of the descent, which is not full.\<close>

definition leaf_put :: "'k::linorder \<Rightarrow> 'v \<Rightarrow> ('k \<times> 'v) list \<Rightarrow> ('k \<times> 'v) list" where
  "leaf_put key v items = (case binary_search key items of Inr i \<Rightarrow> items[i := (key, v)] | Inl i \<Rightarrow> insert_at i (key, v) items)"

definition put_in_leaf :: "nat \<Rightarrow> ('k::linorder, 'v) bnode \<Rightarrow> bool \<Rightarrow> 'k \<Rightarrow> 'v \<Rightarrow> ('k, 'v) btree \<Rightarrow> ('k, 'v) btree" where
  "put_in_leaf b n rightmost key v s =
     (let items = leaf_put key v (bn_leaf n);
          s1 = write_node b (n\<lparr>bn_leaf := items\<rparr>) s;
          s2 = refresh_fast_leaf_if_rightmost b rightmost (fst (last items)) (length items) s1
      in s2\<lparr>bt_range := Some \<lparr>rl_block = b, rl_min_key = fst (hd items), rl_max_key = fst (last items),
           rl_count = length items, rl_epoch = bt_epoch s2\<rparr>\<rparr>)"

fun btree_insert :: "dims \<Rightarrow> nat \<Rightarrow> 'k::linorder \<Rightarrow> 'v \<Rightarrow> ('k, 'v) btree \<Rightarrow> (btree_error + unit) \<times> ('k, 'v) btree" where
  "btree_insert d 0 key v s = (Inl Diverged, s)"
| "btree_insert d (Suc fuel) key v s =
     (case range_update d key v s of (True, s1) \<Rightarrow> (Inr (), s1)
      | (False, s1) \<Rightarrow>
      (case fast_append d key v s1 of (True, s2) \<Rightarrow> (Inr (), s2)
       | (False, s2) \<Rightarrow>
           let s3 = s2\<lparr>bt_root := view_root s2\<rparr>
           in (case descend d (Suc fuel) key (bt_root s3) [] True s3 of Inl e \<Rightarrow> (Inl e, s3)
               | Inr (path, n, rightmost) \<Rightarrow>
                   (case cow_path d allocate_block path s3 of (Inl e, s4) \<Rightarrow> (Inl e, s4)
                    | (Inr path', s4) \<Rightarrow>
                        if max_leaf_items d - 1 \<le> item_count n
                        then (case split_leaf d (hd path') n (tl path') s4 of
                                (Inl e, s5) \<Rightarrow> (Inl e, s5)
                              | (Inr new_root, s5) \<Rightarrow>
                                  btree_insert d fuel key v
                                    (case new_root of Some r \<Rightarrow> s5\<lparr>bt_root := r\<rparr> | None \<Rightarrow> s5))
                        else (Inr (), put_in_leaf (hd path') n rightmost key v s4)))))"

definition remove_inner :: "dims \<Rightarrow> nat \<Rightarrow> (('k, 'v) btree \<Rightarrow> (btree_error + nat) \<times> ('k, 'v) btree) \<Rightarrow> 'k::linorder \<Rightarrow>
    ('k, 'v) btree \<Rightarrow> (btree_error + bool) \<times> ('k, 'v) btree" where
  "remove_inner d fuel alloc key s =
     (let s0 = (bump_epoch s)\<lparr>bt_fast := None, bt_range := None\<rparr>; s1 = s0\<lparr>bt_root := view_root s0\<rparr>
      in case descend d fuel key (bt_root s1) [] True s1 of Inl e \<Rightarrow> (Inl e, s1)
       | Inr (path, n, _) \<Rightarrow>
           (case cow_path d alloc path s1 of (Inl e, s2) \<Rightarrow> (Inl e, s2)
            | (Inr path', s2) \<Rightarrow>
                (case binary_search key (bn_leaf n) of
                   Inr i \<Rightarrow> (Inr True, write_node (hd path') (n\<lparr>bn_leaf := remove_at i (bn_leaf n)\<rparr>) s2)
                 | Inl _ \<Rightarrow> (Inr False, s2))))"

definition btree_remove :: "dims \<Rightarrow> nat \<Rightarrow> 'k::linorder \<Rightarrow> ('k, 'v) btree \<Rightarrow> (btree_error + bool) \<times> ('k, 'v) btree" where
  "btree_remove d fuel key s = remove_inner d fuel no_alloc key s"

definition remove_with_alloc :: "dims \<Rightarrow> nat \<Rightarrow> 'k::linorder \<Rightarrow> ('k, 'v) btree \<Rightarrow> (btree_error + bool) \<times> ('k, 'v) btree" where
  "remove_with_alloc d fuel key s = remove_inner d fuel allocate_block key s"

end
