(* ===== verification/Btree_Shape.thy ===== *)
theory Btree_Shape
  imports Btree_Model
begin

text \<open>
  The trees that a B-tree image represents. A tree is a leaf or a node with a non-empty forest of subtrees and the
  separators between them, each with the block it is stored in. A path to a subtree is a list of frames, innermost
  first; \<open>plug\<close> puts a tree back into its frames. The \<open>cells\<close> of a tree are its leaves with the key range that the
  separators around each of them leave; what a tree means, and whether its keys are in order, is read off its cells.
\<close>

datatype ('k, 'v) tree = Lf nat "('k \<times> 'v) list" | Nd nat "('k, 'v) forest"
  and ('k, 'v) forest = One "('k, 'v) tree" | More "('k, 'v) tree" 'k "('k, 'v) forest"

fun root_of :: "('k, 'v) tree \<Rightarrow> nat" where
  "root_of (Lf b kvs) = b"
| "root_of (Nd b f) = b"

fun set_root :: "nat \<Rightarrow> ('k, 'v) tree \<Rightarrow> ('k, 'v) tree" where
  "set_root b (Lf _ kvs) = Lf b kvs"
| "set_root b (Nd _ f) = Nd b f"

fun first_root :: "('k, 'v) forest \<Rightarrow> nat" where
  "first_root (One t) = root_of t"
| "first_root (More t k f) = root_of t"

fun seps :: "('k, 'v) forest \<Rightarrow> ('k \<times> nat) list" where
  "seps (One t) = []"
| "seps (More t k f) = (k, first_root f) # seps f"

primrec blocks :: "('k, 'v) tree \<Rightarrow> nat list" and fblocks :: "('k, 'v) forest \<Rightarrow> nat list" where
  "blocks (Lf b kvs) = [b]"
| "blocks (Nd b f) = b # fblocks f"
| "fblocks (One t) = blocks t"
| "fblocks (More t k f) = blocks t @ fblocks f"

primrec leaf_blocks :: "('k, 'v) tree \<Rightarrow> nat list" and fleaf_blocks :: "('k, 'v) forest \<Rightarrow> nat list" where
  "leaf_blocks (Lf b kvs) = [b]"
| "leaf_blocks (Nd b f) = fleaf_blocks f"
| "fleaf_blocks (One t) = leaf_blocks t"
| "fleaf_blocks (More t k f) = leaf_blocks t @ fleaf_blocks f"

section \<open>Cells\<close>

type_synonym ('k, 'v) cell = "'k option \<times> ('k \<times> 'v) list \<times> 'k option"

primrec cells :: "'k option \<Rightarrow> ('k, 'v) tree \<Rightarrow> 'k option \<Rightarrow> ('k, 'v) cell list"
  and fcells :: "'k option \<Rightarrow> ('k, 'v) forest \<Rightarrow> 'k option \<Rightarrow> ('k, 'v) cell list" where
  "cells lo (Lf b kvs) hi = [(lo, kvs, hi)]"
| "cells lo (Nd b f) hi = fcells lo f hi"
| "fcells lo (One t) hi = cells lo t hi"
| "fcells lo (More t k f) hi = cells lo t (Some k) @ fcells (Some k) f hi"

fun above :: "'k::linorder option \<Rightarrow> 'k \<Rightarrow> bool" where
  "above None k \<longleftrightarrow> True"
| "above (Some a) k \<longleftrightarrow> a \<le> k"

fun below :: "'k::linorder \<Rightarrow> 'k option \<Rightarrow> bool" where
  "below k None \<longleftrightarrow> True"
| "below k (Some b) \<longleftrightarrow> k < b"

fun bounds_ok :: "'k::linorder option \<Rightarrow> 'k option \<Rightarrow> bool" where
  "bounds_ok (Some a) (Some b) \<longleftrightarrow> a < b"
| "bounds_ok _ _ \<longleftrightarrow> True"

fun cell_ok :: "('k::linorder, 'v) cell \<Rightarrow> bool" where
  "cell_ok (lo, kvs, hi) \<longleftrightarrow> bounds_ok lo hi \<and> sorted_wrt (<) (map fst kvs) \<and> (\<forall>k\<in>fst ` set kvs. above lo k \<and> below k hi)"

definition in_order :: "('k::linorder, 'v) tree \<Rightarrow> bool" where
  "in_order t \<longleftrightarrow> (\<forall>c\<in>set (cells None t None). cell_ok c)"

fun all_kvs :: "('k, 'v) cell list \<Rightarrow> ('k \<times> 'v) list" where
  "all_kvs [] = []"
| "all_kvs ((lo, kvs, hi) # cs) = kvs @ all_kvs cs"

definition kvs_of :: "('k, 'v) tree \<Rightarrow> ('k \<times> 'v) list" where
  "kvs_of t = all_kvs (cells None t None)"

section \<open>Frames\<close>

type_synonym ('k, 'v) frame = "nat \<times> (('k, 'v) tree \<times> 'k) list \<times> ('k \<times> ('k, 'v) forest) option"

fun with_tail :: "('k, 'v) tree \<Rightarrow> ('k \<times> ('k, 'v) forest) option \<Rightarrow> ('k, 'v) forest" where
  "with_tail t None = One t"
| "with_tail t (Some (k, f)) = More t k f"

fun with_front :: "(('k, 'v) tree \<times> 'k) list \<Rightarrow> ('k, 'v) forest \<Rightarrow> ('k, 'v) forest" where
  "with_front [] f = f"
| "with_front ((t, k) # ls) f = More t k (with_front ls f)"

fun plug :: "('k, 'v) frame list \<Rightarrow> ('k, 'v) tree \<Rightarrow> ('k, 'v) tree" where
  "plug [] t = t"
| "plug ((b, ls, ta) # fs) t = plug fs (Nd b (with_front ls (with_tail t ta)))"

fun frame_block :: "('k, 'v) frame \<Rightarrow> nat" where
  "frame_block (b, ls, ta) = b"

fun rightmost_frame :: "('k, 'v) frame \<Rightarrow> bool" where
  "rightmost_frame (b, ls, ta) \<longleftrightarrow> ta = None"

text \<open>The key range that the frames leave to the hole, and the cells around it.\<close>

fun front_lo :: "'k option \<Rightarrow> (('k, 'v) tree \<times> 'k) list \<Rightarrow> 'k option" where
  "front_lo lo [] = lo"
| "front_lo lo ((t, k) # ls) = front_lo (Some k) ls"

fun front_cells :: "'k option \<Rightarrow> (('k, 'v) tree \<times> 'k) list \<Rightarrow> ('k, 'v) cell list" where
  "front_cells lo [] = []"
| "front_cells lo ((t, k) # ls) = cells lo t (Some k) @ front_cells (Some k) ls"

fun tail_hi :: "('k \<times> ('k, 'v) forest) option \<Rightarrow> 'k option \<Rightarrow> 'k option" where
  "tail_hi None hi = hi"
| "tail_hi (Some (k, f)) hi = Some k"

fun tail_cells :: "('k \<times> ('k, 'v) forest) option \<Rightarrow> 'k option \<Rightarrow> ('k, 'v) cell list" where
  "tail_cells None hi = []"
| "tail_cells (Some (k, f)) hi = fcells (Some k) f hi"

fun hole :: "('k, 'v) frame list \<Rightarrow> ('k, 'v) cell list \<times> 'k option \<times> 'k option \<times> ('k, 'v) cell list" where
  "hole [] = ([], None, None, [])"
| "hole ((b, ls, ta) # fs) =
     (case hole fs of (pre, lo, hi, post) \<Rightarrow>
        (pre @ front_cells lo ls, front_lo lo ls, tail_hi ta hi, tail_cells ta hi @ post))"

lemma fcells_with_front: "fcells lo (with_front ls f) hi = front_cells lo ls @ fcells (front_lo lo ls) f hi"
  by (induction lo ls rule: front_lo.induct) simp_all

lemma fcells_with_tail: "fcells lo (with_tail t ta) hi = cells lo t (tail_hi ta hi) @ tail_cells ta hi"
  by (cases "(t, ta)" rule: with_tail.cases) auto

lemma cells_plug:
  "cells None (plug fs t) None = (case hole fs of (pre, lo, hi, post) \<Rightarrow> pre @ cells lo t hi @ post)"
  by (induction fs t rule: plug.induct) (auto simp: fcells_with_front fcells_with_tail split: prod.splits)

section \<open>Blocks of a plugged tree\<close>

fun front_blocks :: "(('k, 'v) tree \<times> 'k) list \<Rightarrow> nat list" where
  "front_blocks [] = []"
| "front_blocks ((t, k) # ls) = blocks t @ front_blocks ls"

fun tail_blocks :: "('k \<times> ('k, 'v) forest) option \<Rightarrow> nat list" where
  "tail_blocks None = []"
| "tail_blocks (Some (k, f)) = fblocks f"

fun frames_blocks :: "('k, 'v) frame list \<Rightarrow> nat list" where
  "frames_blocks [] = []"
| "frames_blocks ((b, ls, ta) # fs) = b # front_blocks ls @ tail_blocks ta @ frames_blocks fs"

lemma mset_fblocks_front: "mset (fblocks (with_front ls f)) = mset (front_blocks ls) + mset (fblocks f)"
  by (induction ls f rule: with_front.induct) simp_all

lemma mset_fblocks_tail: "mset (fblocks (with_tail t ta)) = mset (blocks t) + mset (tail_blocks ta)"
  by (cases "(t, ta)" rule: with_tail.cases) auto

lemma mset_blocks_plug: "mset (blocks (plug fs t)) = mset (frames_blocks fs) + mset (blocks t)"
  by (induction fs t rule: plug.induct) (simp_all add: mset_fblocks_front mset_fblocks_tail)

lemma set_blocks_plug: "set (blocks (plug fs t)) = set (frames_blocks fs) \<union> set (blocks t)"
  using mset_blocks_plug [of fs t] by (metis set_mset_mset set_mset_union)

lemma distinct_blocks_plug:
  "distinct (blocks (plug fs t)) \<longleftrightarrow> distinct (frames_blocks fs) \<and> distinct (blocks t) \<and> set (frames_blocks fs) \<inter> set (blocks t) = {}"
  using mset_blocks_plug [of fs t] by (metis distinct_append mset_append mset_eq_imp_distinct_iff)

section \<open>Leaf blocks\<close>

fun front_leaf_blocks :: "(('k, 'v) tree \<times> 'k) list \<Rightarrow> nat list" where
  "front_leaf_blocks [] = []"
| "front_leaf_blocks ((t, k) # ls) = leaf_blocks t @ front_leaf_blocks ls"

fun tail_leaf_blocks :: "('k \<times> ('k, 'v) forest) option \<Rightarrow> nat list" where
  "tail_leaf_blocks None = []"
| "tail_leaf_blocks (Some (k, f)) = fleaf_blocks f"

fun leaf_hole :: "('k, 'v) frame list \<Rightarrow> nat list \<times> nat list" where
  "leaf_hole [] = ([], [])"
| "leaf_hole ((b, ls, ta) # fs) =
     (case leaf_hole fs of (pre, post) \<Rightarrow> (pre @ front_leaf_blocks ls, tail_leaf_blocks ta @ post))"

lemma fleaf_blocks_front: "fleaf_blocks (with_front ls f) = front_leaf_blocks ls @ fleaf_blocks f"
  by (induction ls f rule: with_front.induct) simp_all

lemma fleaf_blocks_tail: "fleaf_blocks (with_tail t ta) = leaf_blocks t @ tail_leaf_blocks ta"
  by (cases "(t, ta)" rule: with_tail.cases) auto

lemma leaf_blocks_plug: "leaf_blocks (plug fs t) = (case leaf_hole fs of (pre, post) \<Rightarrow> pre @ leaf_blocks t @ post)"
  by (induction fs t rule: plug.induct) (auto simp: fleaf_blocks_front fleaf_blocks_tail split: prod.splits)

lemma leaf_blocks_ne: "leaf_blocks t \<noteq> []" and fleaf_blocks_ne: "fleaf_blocks f \<noteq> []"
  for t :: "('k, 'v) tree" and f :: "('k, 'v) forest"
  by (induction t and f) simp_all

lemma leaf_hole_post: "snd (leaf_hole fs) = [] \<longleftrightarrow> (\<forall>f\<in>set fs. rightmost_frame f)"
proof (induction fs rule: leaf_hole.induct)
  case (2 b ls ta fs)
  have "tail_leaf_blocks ta = [] \<longleftrightarrow> ta = None" by (cases ta) (auto simp: fleaf_blocks_ne)
  with 2 show ?case by (auto split: prod.splits)
qed simp


section \<open>The order of the cells\<close>

fun chained :: "'k option \<Rightarrow> ('k, 'v) cell list \<Rightarrow> 'k option \<Rightarrow> bool" where
  "chained lo [] hi \<longleftrightarrow> False"
| "chained lo [c] hi \<longleftrightarrow> fst c = lo \<and> snd (snd c) = hi"
| "chained lo (c # c' # cs) hi \<longleftrightarrow> fst c = lo \<and> snd (snd c) \<noteq> None \<and> chained (snd (snd c)) (c' # cs) hi"

lemma chained_Cons: "cs \<noteq> [] \<Longrightarrow> chained lo (c # cs) hi \<longleftrightarrow> fst c = lo \<and> snd (snd c) \<noteq> None \<and> chained (snd (snd c)) cs hi"
  by (cases cs) simp_all

lemma chained_hd: "chained lo (c # cs) hi \<Longrightarrow> fst c = lo"
  by (cases cs) simp_all

lemma chained_append:
  "xs \<noteq> [] \<Longrightarrow> ys \<noteq> [] \<Longrightarrow> chained lo (xs @ ys) hi \<longleftrightarrow> (\<exists>k. chained lo xs (Some k) \<and> chained (Some k) ys hi)"
proof (induction xs arbitrary: lo)
  case (Cons x xs)
  then show ?case by (cases "xs = []") (auto simp: chained_Cons)
qed simp

lemma cells_ne: "cells lo t hi \<noteq> []" and fcells_ne: "fcells lo f hi \<noteq> []"
  for t :: "('k, 'v) tree" and f :: "('k, 'v) forest"
  by (induction t and f arbitrary: lo hi and lo hi) simp_all

lemma cells_chained: "chained lo (cells lo t hi) hi" and fcells_chained: "chained lo (fcells lo f hi) hi"
  for t :: "('k, 'v) tree" and f :: "('k, 'v) forest"
  by (induction t and f arbitrary: lo hi and lo hi) (simp_all add: chained_append cells_ne fcells_ne, blast)

abbreviation cells_ok :: "('k::linorder, 'v) cell list \<Rightarrow> bool" where
  "cells_ok cs \<equiv> \<forall>c\<in>set cs. cell_ok c"

lemma all_kvs_append [simp]: "all_kvs (xs @ ys) = all_kvs xs @ all_kvs ys"
  by (induction xs rule: all_kvs.induct) simp_all

lemma chained_bounds: "chained lo cs hi \<Longrightarrow> cells_ok cs \<Longrightarrow> bounds_ok lo hi"
proof (induction lo cs hi rule: chained.induct)
  case (2 lo c hi)
  then show ?case by (cases c) auto
next
  case (3 lo c c' cs hi)
  then obtain a kvs k where c: "c = (a, kvs, Some k)" by (cases c) auto
  with 3 have "bounds_ok a (Some k)" "bounds_ok (Some k) hi" "lo = a" by auto
  then show ?case by (cases a; cases hi) auto
qed simp

lemma chained_keys:
  assumes "chained lo cs hi" "cells_ok cs" "k \<in> fst ` set (all_kvs cs)"
  shows "above lo k \<and> below k hi"
  using assms
proof (induction lo cs hi rule: chained.induct)
  case (2 lo c hi)
  then show ?case by (cases c) auto
next
  case (3 lo c c' cs hi)
  then obtain a kvs x where c: "c = (a, kvs, Some x)" by (cases c) auto
  have lo: "bounds_ok lo (Some x)" "lo = a" and hi: "bounds_ok (Some x) hi"
    using 3 c chained_bounds [of "Some x" "c' # cs" hi] by auto
  consider "k \<in> fst ` set kvs" | "k \<in> fst ` set (all_kvs (c' # cs))"
    using 3(4) c by auto
  then show ?case
  proof cases
    case 1
    then have "above a k" "k < x" using 3 c by auto
    then show ?thesis using lo hi by (cases hi) auto
  next
    case 2
    then have "x \<le> k" "below k hi" using 3 c by auto
    then show ?thesis using lo by (cases lo) auto
  qed
qed simp

lemma chained_split:
  assumes "chained lo (A @ (a, kvs, b) # B) hi" "cells_ok (A @ (a, kvs, b) # B)"
  shows "k \<in> fst ` set (all_kvs A) \<Longrightarrow> \<exists>x. a = Some x \<and> k < x"
    and "k \<in> fst ` set (all_kvs B) \<Longrightarrow> \<exists>x. b = Some x \<and> x \<le> k"
proof -
  have cB: "B = [] \<or> (\<exists>x. b = Some x \<and> chained (Some x) B hi)" and
    cA: "A = [] \<or> (\<exists>x. a = Some x \<and> chained lo A (Some x))"
    using assms(1) by (cases "A = []"; cases "B = []"; auto simp: chained_append chained_Cons)+
  show "\<exists>x. a = Some x \<and> k < x" if "k \<in> fst ` set (all_kvs A)"
    using cA that chained_keys [of lo A] assms(2) by fastforce
  show "\<exists>x. b = Some x \<and> x \<le> k" if "k \<in> fst ` set (all_kvs B)"
    using cB that chained_keys [of _ B hi] assms(2) by fastforce
qed

lemma chained_sorted:
  assumes "chained lo cs hi" "cells_ok cs"
  shows "sorted_wrt (<) (map fst (all_kvs cs))"
  using assms
proof (induction lo cs hi rule: chained.induct)
  case (2 lo c hi)
  then show ?case by (cases c) auto
next
  case (3 lo c c' cs hi)
  then obtain a kvs x where c: "c = (a, kvs, Some x)" by (cases c) auto
  have "\<forall>k\<in>fst ` set kvs. k < x" using 3 c by auto
  moreover have "\<forall>k\<in>fst ` set (all_kvs (c' # cs)). x \<le> k"
    using 3 c chained_keys [of "Some x" "c' # cs" hi] by auto
  moreover have "sorted_wrt (<) (map fst kvs)" using 3 c by simp
  ultimately show ?case using 3 c by (fastforce simp: sorted_wrt_append)
qed simp

lemma append_Cons_prefix: "length A < length A' \<Longrightarrow> A @ x # B = A' @ y # B' \<Longrightarrow> \<exists>Y. A' = A @ x # Y"
proof (induction A arbitrary: A')
  case Nil
  then show ?case by (cases A') auto
next
  case (Cons a A)
  then show ?case by (cases A') auto
qed

text \<open>A key lies in one cell only.\<close>

lemma cell_unique:
  assumes "chained lo (A @ (a, kvs, b) # B) hi" "cells_ok (A @ (a, kvs, b) # B)"
    "A @ (a, kvs, b) # B = A' @ (a', kvs', b') # B'"
    "above a k" "below k b" "above a' k" "below k b'"
  shows "A = A' \<and> kvs = kvs' \<and> B = B'"
proof -
  have step: False
    if c: "chained lo (X @ (x, p, y) # Y @ (z, q, w) # Z) hi" "cells_ok (X @ (x, p, y) # Y @ (z, q, w) # Z)"
      and k: "below k y" "above z k" for X x p y Y z q w Z
  proof -
    have "chained x ((x, p, y) # Y @ (z, q, w) # Z) hi" 
      using c(1) chained_hd by (cases "X = []") (fastforce simp: chained_append)+
    then obtain y' where y: "y = Some y'" "chained y (Y @ (z, q, w) # Z) hi" by (auto simp: chained_Cons)
    obtain z' where z: "z = Some z'" "y' \<le> z'"
    proof (cases "Y = []")
      case True
      then have "z = y" using y(2) by (cases Z) auto
      then show ?thesis using that y(1) by auto
    next
      case False
      then obtain z' where "z = Some z'" "chained y Y (Some z')" using y by (cases Z) (auto simp: chained_append)
      then show ?thesis using that chained_bounds [of y Y "Some z'"] c(2) y(1) by auto
    qed
    show False using k y(1) z by auto
  qed
  consider "length A < length A'" | "length A = length A'" | "length A' < length A" by linarith
  then show ?thesis
  proof cases
    case 1
    then obtain Y where "A' = A @ (a, kvs, b) # Y" using append_Cons_prefix assms(3) by metis
    then show ?thesis using step [of A a kvs b Y a' kvs' b' B'] assms by simp
  next
    case 2
    then show ?thesis using assms(3) by auto
  next
    case 3
    then obtain Y where "A = A' @ (a', kvs', b') # Y" using append_Cons_prefix assms(3) by metis
    then show ?thesis using step [of A' a' kvs' b' Y a kvs b B] assms by simp
  qed
qed

end
