(* ===== verification/Btree_Store.thy ===== *)
theory Btree_Store
  imports Btree_Shape
begin

text \<open>
  When an image holds a tree, and what the read operations return on it.
\<close>

section \<open>Sorted leaves\<close>

lemma sorted_split:
  fixes kvs :: "('k::linorder \<times> 'v) list"
  assumes "sorted_wrt (<) (map fst kvs)" "kvs = xs @ (k, v) # ys"
  shows "\<forall>x\<in>fst ` set xs. x < k" "\<forall>y\<in>fst ` set ys. k < y"
  using assms by (auto simp: sorted_wrt_append)

lemma search_found:
  assumes "binary_search key kvs = Inr i"
  obtains xs v ys where "kvs = xs @ (key, v) # ys" "i = length xs" "key \<notin> fst ` set xs"
proof -
  have i: "i < length kvs" "fst (kvs ! i) = key" "\<forall>j<i. fst (kvs ! j) \<noteq> key"
    using assms position_SomeD [of "\<lambda>kv. fst kv = key" kvs i] by (auto simp: binary_search_def split: option.splits)
  show ?thesis
  proof (rule that)
    show "kvs = take i kvs @ (key, snd (kvs ! i)) # drop (Suc i) kvs"
      using i(1,2) id_take_nth_drop [OF i(1)] by (metis prod.collapse)
    show "key \<notin> fst ` set (take i kvs)" using i by (fastforce simp: in_set_conv_nth)
  qed (use i in simp)
qed

lemma search_missing:
  assumes "binary_search key kvs = Inl i" "sorted_wrt (<) (map fst (kvs :: ('k::linorder \<times> 'v) list))"
  obtains xs ys where "kvs = xs @ ys" "i = length xs" "\<forall>x\<in>fst ` set xs. x < key" "\<forall>y\<in>fst ` set ys. key < y"
proof -
  have none: "key \<notin> fst ` set kvs" and i: "i = length (takeWhile (\<lambda>kv. fst kv < key) kvs)"
    using assms(1) by (auto simp: binary_search_def position_None_iff split: option.splits)
  let ?xs = "takeWhile (\<lambda>kv. fst kv < key) kvs" and ?ys = "dropWhile (\<lambda>kv. fst kv < key) kvs"
  have "\<forall>y\<in>fst ` set ?ys. key < y"
  proof (cases "?ys")
    case (Cons y ys)
    then have "\<not> fst y < key" by (metis hd_dropWhile list.distinct(1) list.sel(1))
    moreover have "fst y \<noteq> key" using none Cons by (metis image_eqI list.set_intros(1) set_dropWhileD)
    moreover have "sorted_wrt (<) (map fst ?xs @ map fst ?ys)"
      using assms(2) by (metis map_append takeWhile_dropWhile_id)
    ultimately show ?thesis using Cons by (auto simp: sorted_wrt_append)
  qed (simp only: list.set image_empty ball_empty)
  then show ?thesis using that [of ?xs ?ys] i by (fastforce dest: set_takeWhileD)
qed

lemma map_of_notin: "k \<notin> fst ` set xs \<Longrightarrow> map_of xs k = None"
  by (simp add: map_of_eq_None_iff)

lemma map_of_pick:
  assumes "k \<notin> fst ` set xs"
  shows "map_of (xs @ ys) k = map_of ys k" "map_of (ys @ xs) k = map_of ys k"
  using map_of_notin [OF assms] by (simp_all add: map_add_def split: option.splits)

lemma map_of_middle:
  assumes "key \<notin> fst ` set xs" "key \<notin> fst ` set zs"
  shows "map_of (xs @ ys @ zs) key = map_of ys key"
    and "map_of ys' = (map_of ys)(key := x) \<Longrightarrow> map_of (xs @ ys' @ zs) = (map_of (xs @ ys @ zs))(key := x)"
  using assms by (auto simp: fun_eq_iff map_of_pick map_of_notin map_add_def split: option.splits)

lemma leaf_put_props:
  fixes kvs :: "('k::linorder \<times> 'v) list"
  assumes "sorted_wrt (<) (map fst kvs)"
  shows "sorted_wrt (<) (map fst (leaf_put key v kvs))"
    and "fst ` set (leaf_put key v kvs) = Set.insert key (fst ` set kvs)"
    and "map_of (leaf_put key v kvs) = (map_of kvs)(key \<mapsto> v)"
    and "length (leaf_put key v kvs) \<le> Suc (length kvs)" and "leaf_put key v kvs \<noteq> []"
proof -
  have "sorted_wrt (<) (map fst (leaf_put key v kvs)) \<and>
    fst ` set (leaf_put key v kvs) = Set.insert key (fst ` set kvs) \<and>
    map_of (leaf_put key v kvs) = (map_of kvs)(key \<mapsto> v) \<and>
    length (leaf_put key v kvs) \<le> Suc (length kvs) \<and> leaf_put key v kvs \<noteq> []"
  proof (cases "binary_search key kvs")
    case (Inr i)
    then obtain xs v' ys where kvs: "kvs = xs @ (key, v') # ys" "i = length xs" "key \<notin> fst ` set xs"
      using search_found by blast
    then have p: "leaf_put key v kvs = xs @ (key, v) # ys" using Inr by (simp add: leaf_put_def list_update_append)
    have ys: "key \<notin> fst ` set ys" using sorted_split(2) [OF assms kvs(1)] by auto
    have "map_of (xs @ [(key, v)] @ ys) = (map_of (xs @ [(key, v')] @ ys))(key \<mapsto> v)"
      by (rule map_of_middle(2) [OF kvs(3) ys]) simp
    then show ?thesis using assms unfolding p by (auto simp: kvs(1) sorted_wrt_append)
  next
    case (Inl i)
    then obtain xs ys where kvs: "kvs = xs @ ys" "i = length xs" "\<forall>x\<in>fst ` set xs. x < key" "\<forall>y\<in>fst ` set ys. key < y"
      using search_missing [OF _ assms] by blast
    then have p: "leaf_put key v kvs = xs @ (key, v) # ys" using Inl by (simp add: leaf_put_def insert_at_def)
    have "key \<notin> fst ` set xs" "key \<notin> fst ` set ys" using kvs(3,4) by blast+
    then have "map_of (xs @ [(key, v)] @ ys) = (map_of (xs @ [] @ ys))(key \<mapsto> v)"
      by (rule map_of_middle(2)) simp
    then show ?thesis using assms kvs(3,4) unfolding p by (auto simp: kvs(1) sorted_wrt_append)
  qed
  then show "sorted_wrt (<) (map fst (leaf_put key v kvs))"
    "fst ` set (leaf_put key v kvs) = Set.insert key (fst ` set kvs)"
    "map_of (leaf_put key v kvs) = (map_of kvs)(key \<mapsto> v)"
    "length (leaf_put key v kvs) \<le> Suc (length kvs)" "leaf_put key v kvs \<noteq> []" by simp_all
qed

lemma remove_at_props:
  fixes kvs :: "('k::linorder \<times> 'v) list"
  assumes "sorted_wrt (<) (map fst kvs)" "binary_search key kvs = Inr i"
  shows "sorted_wrt (<) (map fst (remove_at i kvs))" and "set (remove_at i kvs) \<subseteq> set kvs"
    and "map_of (remove_at i kvs) = (map_of kvs)(key := None)" and "length (remove_at i kvs) < length kvs"
    and "map_of kvs key \<noteq> None"
proof -
  obtain xs v' ys where kvs: "kvs = xs @ (key, v') # ys" "i = length xs" "key \<notin> fst ` set xs"
    using search_found [OF assms(2)] by blast
  then have p: "remove_at i kvs = xs @ ys" by (simp add: remove_at_def)
  have ys: "key \<notin> fst ` set ys" using sorted_split(2) [OF assms(1) kvs(1)] by auto
  show "sorted_wrt (<) (map fst (remove_at i kvs))" "set (remove_at i kvs) \<subseteq> set kvs" "length (remove_at i kvs) < length kvs"
    "map_of kvs key \<noteq> None"
    unfolding p using assms(1) by (auto simp: kvs(1) sorted_wrt_append map_of_eq_None_iff)
  have "map_of (xs @ [] @ ys) = (map_of (xs @ [(key, v')] @ ys))(key := None)"
    by (rule map_of_middle(2) [OF kvs(3) ys]) simp
  then show "map_of (remove_at i kvs) = (map_of kvs)(key := None)" unfolding p by (simp add: kvs(1))
qed

lemma search_map_of:
  assumes "sorted_wrt (<) (map fst (kvs :: ('k::linorder \<times> 'v) list))"
  shows "(case binary_search key kvs of Inr i \<Rightarrow> Some (snd (kvs ! i)) | Inl _ \<Rightarrow> None) = map_of kvs key"
proof (cases "binary_search key kvs")
  case (Inr i)
  then obtain xs v ys where "kvs = xs @ (key, v) # ys" "i = length xs" "key \<notin> fst ` set xs"
    using search_found by blast
  then show ?thesis using Inr by (simp add: map_of_pick del: map_of_append)
next
  case (Inl i)
  then have "key \<notin> fst ` set kvs" by (auto simp: binary_search_def position_None_iff split: option.splits)
  then show ?thesis using Inl by (simp add: map_of_notin)
qed

section \<open>Changing one cell\<close>

lemma all_kvs_cell:
  fixes A :: "('k::linorder, 'v) cell list"
  assumes "chained lo (A @ (a, kvs, b) # B) hi" "cells_ok (A @ (a, kvs, b) # B)" "above a key" "below key b"
  shows "map_of (all_kvs (A @ (a, kvs, b) # B)) key = map_of kvs key"
proof -
  have "key \<notin> fst ` set (all_kvs A)" "key \<notin> fst ` set (all_kvs B)"
    using chained_split [OF assms(1,2), of key] assms(3,4) by fastforce+
  then show ?thesis using map_of_middle(1) [of key "all_kvs A" "all_kvs B" kvs] by simp
qed

lemma update_cell:
  fixes A :: "('k::linorder, 'v) cell list"
  assumes "chained lo (A @ (a, kvs, b) # B) hi" "cells_ok (A @ (a, kvs, b) # B)" "above a key" "below key b"
    "sorted_wrt (<) (map fst kvs')" "fst ` set kvs' \<subseteq> Set.insert key (fst ` set kvs)" "map_of kvs' = (map_of kvs)(key := x)"
  shows "cells_ok (A @ (a, kvs', b) # B)"
    and "map_of (all_kvs (A @ (a, kvs', b) # B)) = (map_of (all_kvs (A @ (a, kvs, b) # B)))(key := x)"
proof -
  have ok: "cell_ok (a, kvs, b)" using assms(2) by simp
  then have "above a k \<and> below k b" if "k \<in> Set.insert key (fst ` set kvs)" for k using that assms(3,4) by auto
  then have "cell_ok (a, kvs', b)" using ok assms(5,6) by auto
  then show "cells_ok (A @ (a, kvs', b) # B)" using assms(2) by simp
  have "key \<notin> fst ` set (all_kvs A)" "key \<notin> fst ` set (all_kvs B)"
    using chained_split [OF assms(1,2), of key] assms(3,4) by fastforce+
  then show "map_of (all_kvs (A @ (a, kvs', b) # B)) = (map_of (all_kvs (A @ (a, kvs, b) # B)))(key := x)"
    using map_of_middle(2) [OF _ _ assms(7), of "all_kvs A" "all_kvs B"] by simp
qed


section \<open>Trees held by an image\<close>

text \<open>
  \<open>stored d ty N h t\<close>: the nodes \<open>N\<close> hold the tree \<open>t\<close> of type \<open>ty\<close>, its leaves \<open>h\<close> levels below its root. Leaves and
  internal nodes are kept below their capacity by one, which is what the code maintains.
\<close>

definition leaf_at :: "dims \<Rightarrow> nat \<Rightarrow> (nat \<Rightarrow> ('k, 'v) bnode option) \<Rightarrow> nat \<Rightarrow> ('k \<times> 'v) list \<Rightarrow> bool" where
  "leaf_at d ty N b kvs \<longleftrightarrow>
     (\<exists>n. N b = Some n \<and> bn_type n = ty \<and> bn_level n = 0 \<and> bn_leaf n = kvs \<and> length kvs < max_leaf_items d)"

definition inner_at :: "dims \<Rightarrow> nat \<Rightarrow> (nat \<Rightarrow> ('k, 'v) bnode option) \<Rightarrow> nat \<Rightarrow> nat \<Rightarrow> nat \<Rightarrow> ('k \<times> nat) list \<Rightarrow> bool" where
  "inner_at d ty N b h p items \<longleftrightarrow>
     (\<exists>n. N b = Some n \<and> bn_type n = ty \<and> bn_level n = h \<and> 0 < h \<and> bn_leftmost n = p \<and> bn_items n = items \<and>
       length items < max_internal_items d)"

primrec stored :: "dims \<Rightarrow> nat \<Rightarrow> (nat \<Rightarrow> ('k, 'v) bnode option) \<Rightarrow> nat \<Rightarrow> ('k, 'v) tree \<Rightarrow> bool"
  and fstored :: "dims \<Rightarrow> nat \<Rightarrow> (nat \<Rightarrow> ('k, 'v) bnode option) \<Rightarrow> nat \<Rightarrow> ('k, 'v) forest \<Rightarrow> bool" where
  "stored d ty N h (Lf b kvs) \<longleftrightarrow> h = 0 \<and> leaf_at d ty N b kvs"
| "stored d ty N h (Nd b f) \<longleftrightarrow> inner_at d ty N b h (first_root f) (seps f) \<and> fstored d ty N (h - 1) f"
| "fstored d ty N h (One t) \<longleftrightarrow> stored d ty N h t"
| "fstored d ty N h (More t k f) \<longleftrightarrow> stored d ty N h t \<and> fstored d ty N h f"

fun hole_first :: "(('k, 'v) tree \<times> 'k) list \<Rightarrow> nat \<Rightarrow> nat" where
  "hole_first [] p = p"
| "hole_first ((t, k) # ls) p = root_of t"

fun front_seps :: "(('k, 'v) tree \<times> 'k) list \<Rightarrow> nat \<Rightarrow> ('k \<times> nat) list" where
  "front_seps [] p = []"
| "front_seps ((t, k) # ls) p = (k, hole_first ls p) # front_seps ls p"

fun tail_seps :: "('k \<times> ('k, 'v) forest) option \<Rightarrow> ('k \<times> nat) list" where
  "tail_seps None = []"
| "tail_seps (Some (k, f)) = (k, first_root f) # seps f"

fun front_stored :: "dims \<Rightarrow> nat \<Rightarrow> (nat \<Rightarrow> ('k, 'v) bnode option) \<Rightarrow> nat \<Rightarrow> (('k, 'v) tree \<times> 'k) list \<Rightarrow> bool" where
  "front_stored d ty N h [] \<longleftrightarrow> True"
| "front_stored d ty N h ((t, k) # ls) \<longleftrightarrow> stored d ty N h t \<and> front_stored d ty N h ls"

fun tail_stored :: "dims \<Rightarrow> nat \<Rightarrow> (nat \<Rightarrow> ('k, 'v) bnode option) \<Rightarrow> nat \<Rightarrow> ('k \<times> ('k, 'v) forest) option \<Rightarrow> bool" where
  "tail_stored d ty N h None \<longleftrightarrow> True"
| "tail_stored d ty N h (Some (k, f)) \<longleftrightarrow> fstored d ty N h f"

fun frames_stored :: "dims \<Rightarrow> nat \<Rightarrow> (nat \<Rightarrow> ('k, 'v) bnode option) \<Rightarrow> nat \<Rightarrow> ('k, 'v) frame list \<Rightarrow> nat \<Rightarrow> bool" where
  "frames_stored d ty N h [] p \<longleftrightarrow> True"
| "frames_stored d ty N h ((b, ls, ta) # fs) p \<longleftrightarrow>
     inner_at d ty N b (Suc h) (hole_first ls p) (front_seps ls p @ tail_seps ta) \<and>
     front_stored d ty N h ls \<and> tail_stored d ty N h ta \<and> frames_stored d ty N (Suc h) fs b"

lemma first_root_front: "first_root (with_front ls f) = hole_first ls (first_root f)"
  by (cases "(ls, f)" rule: with_front.cases) auto

lemma first_root_tail [simp]: "first_root (with_tail t ta) = root_of t"
  by (cases "(t, ta)" rule: with_tail.cases) auto

lemma seps_front: "seps (with_front ls f) = front_seps ls (first_root f) @ seps f"
  by (induction ls f rule: with_front.induct) (simp_all add: first_root_front)

lemma seps_tail [simp]: "seps (with_tail t ta) = tail_seps ta"
  by (cases "(t, ta)" rule: with_tail.cases) auto

lemma fstored_front: "fstored d ty N h (with_front ls f) \<longleftrightarrow> front_stored d ty N h ls \<and> fstored d ty N h f"
  by (induction ls f rule: with_front.induct) auto

lemma fstored_tail: "fstored d ty N h (with_tail t ta) \<longleftrightarrow> stored d ty N h t \<and> tail_stored d ty N h ta"
  by (cases "(t, ta)" rule: with_tail.cases) auto

lemma stored_plug: "stored d ty N (h + length fs) (plug fs t) \<longleftrightarrow> frames_stored d ty N h fs (root_of t) \<and> stored d ty N h t"
proof (induction fs t arbitrary: h rule: plug.induct)
  case (2 b ls ta fs t)
  from 2 [of "Suc h"] show ?case
    by (auto simp: first_root_front seps_front fstored_front fstored_tail)
qed simp

lemma stored_level_unique: "stored d ty N h t \<Longrightarrow> stored d ty N h' t \<Longrightarrow> h = h'"
  and fstored_level_unique: "fstored d ty N h f \<Longrightarrow> fstored d ty N h' f \<Longrightarrow> h = h'"
  for t :: "('k, 'v) tree" and f :: "('k, 'v) forest"
  by (induction t and f arbitrary: h h' and h h') (auto simp: inner_at_def)

subsection \<open>Only the content of the blocks of a tree matters\<close>

definition same_content :: "('k, 'v) bnode option \<Rightarrow> ('k, 'v) bnode option \<Rightarrow> bool" where
  "same_content x y \<longleftrightarrow> rel_option (\<lambda>n m. bn_type n = bn_type m \<and> bn_level n = bn_level m \<and> bn_leaf n = bn_leaf m \<and>
     bn_leftmost n = bn_leftmost m \<and> bn_items n = bn_items m) x y"

lemma same_content_refl [simp]: "same_content x x"
  by (simp add: same_content_def option.rel_refl)

lemma same_content_trans: "same_content x y \<Longrightarrow> same_content y z \<Longrightarrow> same_content x z"
  by (cases x; cases y; cases z) (auto simp: same_content_def)

lemma leaf_at_cong: "same_content (N b) (N' b) \<Longrightarrow> leaf_at d ty N b kvs \<longleftrightarrow> leaf_at d ty N' b kvs"
  by (cases "N b"; cases "N' b") (auto simp: leaf_at_def same_content_def)

lemma inner_at_cong: "same_content (N b) (N' b) \<Longrightarrow> inner_at d ty N b h p items \<longleftrightarrow> inner_at d ty N' b h p items"
  by (cases "N b"; cases "N' b") (auto simp: inner_at_def same_content_def)

lemma stored_cong: "(\<And>b. b \<in> set (blocks t) \<Longrightarrow> same_content (N b) (N' b)) \<Longrightarrow> stored d ty N h t \<longleftrightarrow> stored d ty N' h t"
  and fstored_cong: "(\<And>b. b \<in> set (fblocks f) \<Longrightarrow> same_content (N b) (N' b)) \<Longrightarrow> fstored d ty N h f \<longleftrightarrow> fstored d ty N' h f"
  for t :: "('k, 'v) tree" and f :: "('k, 'v) forest"
proof (induction t and f arbitrary: h and h)
  case (Lf b kvs)
  then show ?case using leaf_at_cong by fastforce
next
  case (Nd b f)
  then show ?case using inner_at_cong [of N b N'] by simp
qed simp_all

lemma front_stored_cong:
  "(\<And>b. b \<in> set (front_blocks ls) \<Longrightarrow> same_content (N b) (N' b)) \<Longrightarrow> front_stored d ty N h ls \<longleftrightarrow> front_stored d ty N' h ls"
proof (induction ls rule: front_blocks.induct)
  case (2 t k ls)
  then show ?case using stored_cong [of t N N'] by simp
qed simp

lemma tail_stored_cong:
  "(\<And>b. b \<in> set (tail_blocks ta) \<Longrightarrow> same_content (N b) (N' b)) \<Longrightarrow> tail_stored d ty N h ta \<longleftrightarrow> tail_stored d ty N' h ta"
  using fstored_cong by (cases ta rule: tail_blocks.cases) fastforce+

lemma frames_stored_cong:
  "(\<And>b. b \<in> set (frames_blocks fs) \<Longrightarrow> same_content (N b) (N' b)) \<Longrightarrow>
     frames_stored d ty N h fs p \<longleftrightarrow> frames_stored d ty N' h fs p"
proof (induction fs arbitrary: h p rule: frames_blocks.induct)
  case (2 b ls ta fs)
  then show ?case
    using inner_at_cong [of N b N'] front_stored_cong [of ls N N'] tail_stored_cong [of ta N N'] by simp
qed simp

section \<open>Reading a stored tree\<close>

lemma read_leaf:
  assumes "leaf_at d (bt_type s) (bt_nodes s) b kvs"
  obtains n where "read_node d b s = Inr n" "bt_nodes s b = Some n" "bn_type n = bt_type s" "bn_level n = 0" "bn_leaf n = kvs"
    "item_count n = length kvs" "length kvs < max_leaf_items d"
  using assms by (auto simp: leaf_at_def read_node_def item_count_def)

lemma read_inner:
  assumes "inner_at d (bt_type s) (bt_nodes s) b h p items"
  obtains n where "read_node d b s = Inr n" "bt_nodes s b = Some n" "bn_type n = bt_type s" "bn_level n = h" "0 < h"
    "bn_leftmost n = p" "bn_items n = items" "item_count n = length items" "length items < max_internal_items d"
  using assms by (auto simp: inner_at_def read_node_def item_count_def)

lemma read_stored:
  assumes "stored d (bt_type s) (bt_nodes s) h t"
  obtains n where "read_node d (root_of t) s = Inr n" "bt_nodes s (root_of t) = Some n"
  using assms by (cases t) (auto elim: read_leaf read_inner)

text \<open>One step of a descent: the child whose key range has the key.\<close>

lemma forest_step:
  assumes "above lo key" "below key hi"
  shows "\<exists>ls c ta. f = with_front ls (with_tail c ta) \<and> next_child key (first_root f) (seps f) = root_of c \<and>
    above (front_lo lo ls) key \<and> below key (tail_hi ta hi)"
  using assms
proof (induction f arbitrary: lo rule: seps.induct)
  case (1 t)
  then show ?case by (intro exI [of _ "[]"] exI [of _ t] exI [of _ None]) simp
next
  case (2 t k f)
  show ?case
  proof (cases "k \<le> key")
    case True
    with 2 obtain ls c ta where "f = with_front ls (with_tail c ta)" "next_child key (first_root f) (seps f) = root_of c"
      "above (front_lo (Some k) ls) key" "below key (tail_hi ta hi)" by (metis above.simps(2))
    with True show ?thesis by (intro exI [of _ "(t, k) # ls"] exI [of _ c] exI [of _ ta]) simp
  next
    case False
    then show ?thesis using 2 by (intro exI [of _ "[]"] exI [of _ t] exI [of _ "Some (k, f)"]) simp
  qed
qed

lemma seps_bounds:
  assumes "cells_ok (fcells lo f hi)" "k \<in> fst ` set (seps f)"
  shows "bounds_ok lo (Some k) \<and> bounds_ok (Some k) hi"
  using assms
proof (induction f arbitrary: lo rule: seps.induct)
  case (2 t x f)
  have lo: "bounds_ok lo (Some x)" using chained_bounds [OF cells_chained, of lo t "Some x"] 2 by simp
  have hi: "bounds_ok (Some x) hi" using chained_bounds [OF fcells_chained, of "Some x" f hi] 2 by simp
  show ?case
  proof (cases "k \<in> fst ` set (seps f)")
    case True
    have "cells_ok (fcells (Some x) f hi)" using 2(2) by (simp add: ball_Un)
    with 2(1) True have "bounds_ok (Some x) (Some k)" "bounds_ok (Some k) hi" by blast+
    then show ?thesis using lo by (cases lo) auto
  next
    case False
    then show ?thesis using 2 lo hi by auto
  qed
qed simp

lemma front_lo_ge: "cells_ok (front_cells (Some x) ls) \<Longrightarrow> \<exists>y. front_lo (Some x) ls = Some y \<and> x \<le> y"
proof (induction "Some x" ls arbitrary: x rule: front_lo.induct)
  case (2 t y ls)
  have "x < y" using chained_bounds [OF cells_chained, of "Some x" t "Some y"] 2(2) by (simp add: ball_Un)
  moreover obtain z where "front_lo (Some y) ls = Some z" "y \<le> z" using 2 by (auto simp: ball_Un)
  ultimately show ?case by auto
qed simp

lemma front_seps_bounds:
  assumes "cells_ok (front_cells lo ls)" "k \<in> fst ` set (front_seps ls p)"
  shows "\<exists>x. front_lo lo ls = Some x \<and> k \<le> x"
  using assms
proof (induction lo ls rule: front_lo.induct)
  case (2 lo t x ls)
  have ok: "cells_ok (front_cells (Some x) ls)" using 2(2) by (simp add: ball_Un)
  show ?case
  proof (cases "k \<in> fst ` set (front_seps ls p)")
    case True
    then show ?thesis using 2(1) ok by simp
  next
    case False
    then have "k = x" using 2(3) by auto
    then show ?thesis using front_lo_ge [OF ok] by simp
  qed
qed simp


lemma rightmost_step:
  assumes f: "f = with_front ls (with_tail c ta)" and ok: "cells_ok (fcells lo f hi)"
    and key: "above (front_lo lo ls) key" "below key (tail_hi ta hi)"
  shows "seps f \<noteq> [] \<and> key < fst (last (seps f)) \<longleftrightarrow> ta \<noteq> None"
proof (cases ta)
  case None
  have "\<not> key < fst (last (seps f))" if "seps f \<noteq> []"
  proof -
    have "fst (last (seps f)) \<in> fst ` set (front_seps ls (root_of c))" using that None by (simp add: f seps_front)
    moreover have "cells_ok (front_cells lo ls)" using ok by (simp add: f fcells_with_front ball_Un)
    ultimately obtain x where "front_lo lo ls = Some x" "fst (last (seps f)) \<le> x" using front_seps_bounds by blast
    then show ?thesis using key(1) by simp
  qed
  then show ?thesis using None by auto
next
  case (Some kg)
  then obtain k g where ta: "ta = Some (k, g)" by (cases kg) auto
  have last: "last (seps f) = last ((k, first_root g) # seps g)" by (simp add: f seps_front ta)
  have "cells_ok (fcells (Some k) g hi)" using ok by (simp add: f fcells_with_front fcells_with_tail ta ball_Un)
  then have "fst (last (seps f)) = k \<or> k < fst (last (seps f))"
    using seps_bounds [of "Some k" g hi "fst (last (seps g))"] last by (cases "seps g = []") auto
  then show ?thesis using key(2) by (auto simp: ta f seps_front)
qed

lemma plug_append: "plug (fs @ gs) t = plug gs (plug fs t)"
  by (induction fs t rule: plug.induct) simp_all

lemma descend_stored:
  assumes "stored d (bt_type s) (bt_nodes s) h t" "hole fs0 = (pre, lo, hi, post)" "cells_ok (cells lo t hi)"
    "above lo key" "below key hi" "h < fuel" "rm \<longleftrightarrow> (\<forall>f\<in>set fs0. rightmost_frame f)"
  shows "\<exists>fs lb n. t = plug fs (Lf lb (bn_leaf n)) \<and> length fs = h \<and>
    descend d fuel key (root_of t) path rm s = Inr (lb # map frame_block fs @ path, n, \<forall>f\<in>set (fs @ fs0). rightmost_frame f) \<and>
    bt_nodes s lb = Some n \<and> bn_type n = bt_type s \<and> bn_level n = 0 \<and>
    (case hole (fs @ fs0) of (_, lo', hi', _) \<Rightarrow> above lo' key \<and> below key hi')"
  using assms
proof (induction h arbitrary: t fs0 pre lo hi post fuel path rm)
  case 0
  then obtain b kvs where t: "t = Lf b kvs" by (cases t) (auto simp: inner_at_def)
  then obtain n where n: "read_node d b s = Inr n" "bt_nodes s b = Some n" "bn_type n = bt_type s" "bn_level n = 0" "bn_leaf n = kvs"
    using 0 by (auto elim: read_leaf)
  obtain fuel' where "fuel = Suc fuel'" using 0 by (cases fuel) auto
  then show ?case using 0 n t by (intro exI [of _ "[]"] exI [of _ b] exI [of _ n]) auto
next
  case (Suc h)
  then obtain b f where t: "t = Nd b f" by (cases t) auto
  obtain fuel' where fuel: "fuel = Suc fuel'" using Suc by (cases fuel) auto
  obtain n where n: "read_node d b s = Inr n" "bn_level n = Suc h" "bn_leftmost n = first_root f" "bn_items n = seps f"
    using Suc.prems(1) t by (auto elim: read_inner)
  obtain ls c ta where f: "f = with_front ls (with_tail c ta)" and c: "next_child key (first_root f) (seps f) = root_of c"
    and key: "above (front_lo lo ls) key" "below key (tail_hi ta hi)"
    using forest_step [OF Suc.prems(4,5), of f] by blast
  have ok: "cells_ok (fcells lo f hi)" using Suc.prems(3) t by simp
  have c_stored: "stored d (bt_type s) (bt_nodes s) h c" using Suc.prems(1) by (simp add: t f fstored_front fstored_tail)
  let ?fs0 = "(b, ls, ta) # fs0"
  have hole0: "hole ?fs0 = (pre @ front_cells lo ls, front_lo lo ls, tail_hi ta hi, tail_cells ta hi @ post)"
    using Suc.prems(2) by simp
  have c_ok: "cells_ok (cells (front_lo lo ls) c (tail_hi ta hi))"
    using ok by (simp add: f fcells_with_front fcells_with_tail ball_Un)
  have rm: "(if seps f \<noteq> [] \<and> key < fst (last (seps f)) then False else rm) \<longleftrightarrow> (\<forall>f\<in>set ?fs0. rightmost_frame f)"
    using rightmost_step [OF f ok key] Suc.prems(7) by auto
  have "h < fuel'" using Suc.prems(6) fuel by simp
  from Suc.IH [OF c_stored hole0 c_ok key this rm, of "b # path"]
  obtain fs lb m where "c = plug fs (Lf lb (bn_leaf m))" "length fs = h"
    "descend d fuel' key (root_of c) (b # path) (if seps f \<noteq> [] \<and> key < fst (last (seps f)) then False else rm) s =
       Inr (lb # map frame_block fs @ b # path, m, \<forall>f\<in>set (fs @ ?fs0). rightmost_frame f)"
    "bt_nodes s lb = Some m" "bn_type m = bt_type s" "bn_level m = 0"
    "case hole (fs @ ?fs0) of (_, lo', hi', _) \<Rightarrow> above lo' key \<and> below key hi'"
    by (elim exE conjE) (rule that; assumption)
  then show ?case using n c t f fuel
    by (intro exI [of _ "fs @ [(b, ls, ta)]"] exI [of _ lb] exI [of _ m]) (simp add: plug_append)
qed

section \<open>Lookups\<close>

text \<open>
  \<open>represents d h t s\<close>: the handle and image \<open>s\<close> hold the tree \<open>t\<close>, in order, no block of it used twice, handed out by the
  allocator, or the block zero.
\<close>

definition represents :: "dims \<Rightarrow> nat \<Rightarrow> ('k::linorder, 'v) tree \<Rightarrow> ('k, 'v) btree \<Rightarrow> bool" where
  "represents d h t s \<longleftrightarrow> stored d (bt_type s) (bt_nodes s) h t \<and> view_root s = root_of t \<and> in_order t \<and>
     distinct (blocks t @ bt_fresh s) \<and> 0 \<notin> set (blocks t @ bt_fresh s)"

text \<open>The leaf a descent for a key ends in, with its place in the tree.\<close>

definition lands :: "'k::linorder \<Rightarrow> ('k, 'v) tree \<Rightarrow> ('k, 'v) btree \<Rightarrow> ('k, 'v) frame list \<Rightarrow> nat \<Rightarrow> ('k, 'v) bnode \<Rightarrow>
    ('k, 'v) cell list \<Rightarrow> 'k option \<Rightarrow> 'k option \<Rightarrow> ('k, 'v) cell list \<Rightarrow> bool" where
  "lands key t s fs lb n pre lo hi post \<longleftrightarrow> t = plug fs (Lf lb (bn_leaf n)) \<and> bt_nodes s lb = Some n \<and>
     bn_type n = bt_type s \<and> bn_level n = 0 \<and> hole fs = (pre, lo, hi, post) \<and> above lo key \<and> below key hi \<and>
     cells None t None = pre @ (lo, bn_leaf n, hi) # post \<and> cells_ok (pre @ (lo, bn_leaf n, hi) # post)"

lemma landsD:
  assumes "lands key t s fs lb n pre lo hi post"
  shows "t = plug fs (Lf lb (bn_leaf n))" "bt_nodes s lb = Some n" "bn_type n = bt_type s" "bn_level n = 0"
    "hole fs = (pre, lo, hi, post)" "above lo key" "below key hi" "cells None t None = pre @ (lo, bn_leaf n, hi) # post"
    "cells_ok (pre @ (lo, bn_leaf n, hi) # post)" "chained None (pre @ (lo, bn_leaf n, hi) # post) None"
    "sorted_wrt (<) (map fst (bn_leaf n))" "item_count n = length (bn_leaf n)"
  using assms cells_chained [of None t None] by (auto simp: lands_def item_count_def)

lemma descend_represents:
  assumes "represents d h t s" "h < fuel"
  obtains fs lb n pre lo hi post where "lands key t s fs lb n pre lo hi post" "length fs = h"
    "descend d fuel key (root_of t) [] True s = Inr (lb # map frame_block fs, n, \<forall>f\<in>set fs. rightmost_frame f)"
proof -
  have "stored d (bt_type s) (bt_nodes s) h t" and ok: "cells_ok (cells None t None)"
    using assms(1) by (auto simp: represents_def in_order_def)
  from descend_stored [OF this(1) hole.simps(1) this(2), of key fuel True "[]"] assms(2)
  obtain fs lb n where d: "t = plug fs (Lf lb (bn_leaf n))" "length fs = h"
    "descend d fuel key (root_of t) [] True s = Inr (lb # map frame_block fs, n, \<forall>f\<in>set fs. rightmost_frame f)"
    "bt_nodes s lb = Some n" "bn_type n = bt_type s" "bn_level n = 0"
    "case hole fs of (_, lo', hi', _) \<Rightarrow> above lo' key \<and> below key hi'" by auto
  obtain pre lo hi post where h: "hole fs = (pre, lo, hi, post)" by (cases "hole fs")
  have "cells None t None = pre @ (lo, bn_leaf n, hi) # post" using d(1) h by (simp add: cells_plug)
  then have "lands key t s fs lb n pre lo hi post" using d h ok by (simp add: lands_def)
  then show ?thesis using that d(2,3) by blast
qed

text \<open>The read loops follow the same path as the descent.\<close>

lemma lookup_loop_descend:
  "descend d fuel key b path rm s = Inr (path', n, rm') \<Longrightarrow>
     lookup_loop d fuel key b s = Inr (case binary_search key (bn_leaf n) of Inr i \<Rightarrow> Some (snd (bn_leaf n ! i)) | Inl _ \<Rightarrow> None)"
  by (induction d fuel key b path rm s rule: descend.induct) (auto split: sum.splits if_splits)

lemma floor_loop_descend:
  "descend d fuel key b path rm s = Inr (path', n, rm') \<Longrightarrow>
     floor_loop d fuel key b s = Inr (case binary_search key (bn_leaf n) of Inr i \<Rightarrow> Some (bn_leaf n ! i)
       | Inl 0 \<Rightarrow> None | Inl (Suc i) \<Rightarrow> Some (bn_leaf n ! i))"
  by (induction d fuel key b path rm s rule: descend.induct) (auto split: sum.splits nat.splits if_splits)

lemma lookup_represents:
  assumes "represents d h t s" "h < fuel"
  shows "btree_lookup d fuel key s = Inr (map_of (kvs_of t) key)"
proof -
  obtain fs lb n pre lo hi post where l: "lands key t s fs lb n pre lo hi post" and "length fs = h"
    and desc: "descend d fuel key (root_of t) [] True s = Inr (lb # map frame_block fs, n, \<forall>f\<in>set fs. rightmost_frame f)"
    by (rule descend_represents [OF assms])
  note l = landsD [OF l]
  have "map_of (kvs_of t) key = map_of (bn_leaf n) key"
    using all_kvs_cell [OF l(10,9,6,7)] unfolding kvs_of_def l(8) .
  moreover have "view_root s = root_of t" using assms(1) by (simp add: represents_def)
  ultimately show ?thesis
    using lookup_loop_descend [OF desc] search_map_of [OF l(11), of key] by (simp only: btree_lookup_def)
qed

lemma collect_stored:
  "stored d (bt_type s) (bt_nodes s) h t \<Longrightarrow> h < fuel \<Longrightarrow> collect_pairs d fuel (root_of t) s = Inr (all_kvs (cells lo t hi))"
  and collect_fstored: "fstored d (bt_type s) (bt_nodes s) h f \<Longrightarrow> h < fuel \<Longrightarrow>
    collect_children d fuel (first_root f # map snd (seps f)) s = Inr (all_kvs (fcells lo f hi))"
  for t :: "('k, 'v) tree" and f :: "('k, 'v) forest"
proof (induction t and f arbitrary: h fuel lo hi and h fuel lo hi)
  case (Lf b kvs)
  then obtain n where "read_node d b s = Inr n" "bn_level n = 0" "bn_leaf n = kvs" by (auto elim: read_leaf)
  then show ?case using Lf by (cases fuel) auto
next
  case (Nd b f)
  then obtain n where "read_node d b s = Inr n" "bn_level n = h" "0 < h" "bn_leftmost n = first_root f" "bn_items n = seps f"
    by (auto elim: read_inner)
  moreover from this obtain fuel' where "fuel = Suc fuel'" "h - 1 < fuel'" using Nd.prems(2) by (cases fuel) auto
  moreover from this have "collect_children d fuel' (first_root f # map snd (seps f)) s = Inr (all_kvs (fcells lo f hi))"
    using Nd.prems(1) by (intro Nd.IH [of "h - 1"]) simp_all
  ultimately show ?case by simp
next
  case (One t)
  have "collect_pairs d fuel (root_of t) s = Inr (all_kvs (cells lo t hi))"
    using One.prems by (intro One.IH) simp_all
  then show ?case by simp
next
  case (More t k f)
  have "collect_pairs d fuel (root_of t) s = Inr (all_kvs (cells lo t (Some k)))"
    "collect_children d fuel (first_root f # map snd (seps f)) s = Inr (all_kvs (fcells (Some k) f hi))"
    using More.prems by (intro More.IH; simp)+
  then show ?case by simp
qed

end
