(* ===== verification/Btree_Split.thy ===== *)
theory Btree_Split
  imports Btree_Store
begin

text \<open>
  Splits keep the tree: the insertion of a new separator into the ancestors of a split node, up to the growth of the root,
  yields an image of a tree with the same cells around the two halves.
\<close>

section \<open>Writes\<close>

definition same_handle :: "('k, 'v) btree \<Rightarrow> ('k, 'v) btree \<Rightarrow> bool" where
  "same_handle s s' \<longleftrightarrow> bt_root s' = bt_root s \<and> bt_type s' = bt_type s \<and> bt_fast s' = bt_fast s \<and> bt_range s' = bt_range s \<and>
     bt_frozen_view s' = bt_frozen_view s \<and> bt_ctx s' = bt_ctx s \<and> bt_epoch s' = bt_epoch s"

lemma same_handle_refl [simp]: "same_handle s s"
  by (simp add: same_handle_def)

lemma same_handle_trans [trans]: "same_handle s s1 \<Longrightarrow> same_handle s1 s2 \<Longrightarrow> same_handle s s2"
  by (simp add: same_handle_def)

lemma same_handle_type: "same_handle s s' \<Longrightarrow> bt_type s' = bt_type s"
  by (simp add: same_handle_def)

lemma same_handle_view: "same_handle s s' \<Longrightarrow> view_root s' = view_root s"
  by (simp add: same_handle_def view_root_def)

lemma write_node_simps [simp]:
  "bt_nodes (write_node b n s) = (bt_nodes s)(b \<mapsto> n\<lparr>bn_gen := wrap_add (bt_gen s) 1\<rparr>)"
  "bt_fresh (write_node b n s) = bt_fresh s" "same_handle s (write_node b n s)" "bt_type (write_node b n s) = bt_type s"
  "bt_root (write_node b n s) = bt_root s" "bt_ctx (write_node b n s) = bt_ctx s"
  "bt_epoch (write_node b n s) = bt_epoch s" "bt_fast (write_node b n s) = bt_fast s" "bt_range (write_node b n s) = bt_range s"
  "bt_frozen_view (write_node b n s) = bt_frozen_view s"
  by (simp_all add: write_node_def Let_def same_handle_def)

lemma same_content_upd:
  "bn_type n = bn_type m \<Longrightarrow> bn_level n = bn_level m \<Longrightarrow> bn_leaf n = bn_leaf m \<Longrightarrow> bn_leftmost n = bn_leftmost m \<Longrightarrow>
     bn_items n = bn_items m \<Longrightarrow> same_content (Some n) (Some m)"
  by (simp add: same_content_def)

lemma read_node_same:
  assumes "read_node d b s = Inr n" "same_content (bt_nodes s b) (bt_nodes s' b)" "bt_type s' = bt_type s"
  obtains m where "read_node d b s' = Inr m" "same_content (Some n) (Some m)"
proof -
  have n: "bt_nodes s b = Some n" using assms(1) by (auto simp: read_node_def split: option.splits if_splits)
  then obtain m where m: "bt_nodes s' b = Some m" "same_content (Some n) (Some m)"
    using assms(2) by (cases "bt_nodes s' b") (auto simp: same_content_def)
  then have "read_node d b s' = Inr m"
    using assms(1,3) n by (auto simp: read_node_def same_content_def item_count_def split: if_splits)
  then show ?thesis using that m(2) by blast
qed

lemma read_nodeD: "read_node d b s = Inr n \<Longrightarrow> bt_nodes s b = Some n"
  by (auto simp: read_node_def split: option.splits if_splits)

lemma reparent_ok:
  assumes "\<forall>b\<in>set bs. \<exists>n. read_node d b s = Inr n"
  shows "\<exists>s'. reparent d guard new bs s = (Inr (), s') \<and> same_handle s s' \<and> bt_fresh s' = bt_fresh s \<and>
    (\<forall>b. same_content (bt_nodes s b) (bt_nodes s' b))"
  using assms
proof (induction bs arbitrary: s)
  case (Cons b bs)
  then obtain n where n: "read_node d b s = Inr n" by auto
  let ?s = "if guard (bn_parent n) then write_node b (n\<lparr>bn_parent := new\<rparr>) s else s"
  have c: "same_content (bt_nodes s x) (bt_nodes ?s x)" for x
    using read_nodeD [OF n] by (auto simp: same_content_upd)
  have t: "bt_type ?s = bt_type s" by simp
  have "\<exists>m. read_node d x ?s = Inr m" if x: "x \<in> set bs" for x
  proof -
    obtain n' where "read_node d x s = Inr n'" using Cons.prems x by auto
    from read_node_same [OF this c t] show ?thesis by blast
  qed
  then have "\<forall>b\<in>set bs. \<exists>n. read_node d b ?s = Inr n" by blast
  from Cons.IH [OF this] obtain s' where s': "reparent d guard new bs ?s = (Inr (), s')" "same_handle ?s s'" "bt_fresh s' = bt_fresh ?s"
    "\<forall>b. same_content (bt_nodes ?s b) (bt_nodes s' b)" by blast
  have "same_handle s ?s" "bt_fresh ?s = bt_fresh s" by simp_all
  then have "same_handle s s'" "bt_fresh s' = bt_fresh s" using s'(2,3) same_handle_trans [of s ?s s'] by simp_all
  moreover have "\<forall>b. same_content (bt_nodes s b) (bt_nodes s' b)"
    using c s'(4) same_content_trans by blast
  ultimately show ?case using s'(1) n by auto
qed simp

lemma fstored_roots:
  assumes "fstored d (bt_type s) (bt_nodes s) h f"
  shows "\<forall>b\<in>set (first_root f # map snd (seps f)). \<exists>n. read_node d b s = Inr n"
  using assms
proof (induction f rule: seps.induct)
  case (1 t)
  then show ?case using read_stored [of d s h t] by auto
next
  case (2 t k f)
  then show ?case using read_stored [of d s h t] by auto
qed

section \<open>Moving a root\<close>

fun inner_blocks :: "('k, 'v) tree \<Rightarrow> nat list" where
  "inner_blocks (Lf b kvs) = []"
| "inner_blocks (Nd b f) = fblocks f"

lemma blocks_root: "blocks t = root_of t # inner_blocks t"
  by (cases t) simp_all

lemma set_root_simps [simp]:
  "root_of (set_root b t) = b" "inner_blocks (set_root b t) = inner_blocks t" "cells lo (set_root b t) hi = cells lo t hi"
  "set_root (root_of t) t = t"
  by (cases t; simp)+

lemma blocks_set_root: "blocks (set_root b t) = b # inner_blocks t"
  by (simp add: blocks_root)

lemma stored_set_root:
  assumes "stored d ty N h t" "same_content (N (root_of t)) (N' b)" "\<And>x. x \<in> set (inner_blocks t) \<Longrightarrow> same_content (N x) (N' x)"
  shows "stored d ty N' h (set_root b t)"
proof (cases t)
  case (Lf c kvs)
  then show ?thesis using assms(1,2) by (cases "N c"; cases "N' b") (auto simp: leaf_at_def same_content_def)
next
  case (Nd c f)
  have "inner_at d ty N' b h (first_root f) (seps f)"
    using assms(1,2) Nd by (cases "N c"; cases "N' b") (auto simp: inner_at_def same_content_def)
  then show ?thesis using assms(1,3) Nd fstored_cong [of f N N'] by simp
qed

text \<open>The two halves before the root grows: the right one, and the children of an internal left one, learn their new parent.\<close>

lemma grow_relink:
  assumes l: "stored d (bt_type s) (bt_nodes s) h l" and ln: "bt_nodes s (root_of l) = Some ln" and rn: "bt_nodes s (root_of r) = Some rn"
  obtains s2 where "(if bn_level ln = 0
      then (Inr (), write_node (root_of r) (rn\<lparr>bn_parent := root_of l, bn_prev := (if bn_prev rn = root_of l then m else bn_prev rn)\<rparr>) (s\<lparr>bt_fresh := rest\<rparr>))
      else reparent d (\<lambda>p. p = root_of l) m (bn_leftmost ln # map snd (bn_items ln)) (write_node (root_of r) (rn\<lparr>bn_parent := root_of l\<rparr>) (s\<lparr>bt_fresh := rest\<rparr>)))
        = (Inr (), s2)"
    "same_handle s s2" "bt_fresh s2 = rest" "\<forall>x. same_content (bt_nodes s x) (bt_nodes s2 x)"
proof -
  let ?s1 = "s\<lparr>bt_fresh := rest\<rparr>"
  show ?thesis
  proof (cases l)
    case (Lf b kvs)
    let ?w = "write_node (root_of r) (rn\<lparr>bn_parent := root_of l, bn_prev := (if bn_prev rn = root_of l then m else bn_prev rn)\<rparr>) ?s1"
    have "bn_level ln = 0" using l ln Lf by (auto simp: leaf_at_def)
    moreover have "same_handle s ?w" by (simp add: same_handle_def)
    moreover have "same_content (bt_nodes s x) (bt_nodes ?w x)" for x using rn by (auto simp: same_content_upd)
    ultimately show ?thesis using that [of ?w] by simp
  next
    case (Nd b f)
    let ?w = "write_node (root_of r) (rn\<lparr>bn_parent := root_of l\<rparr>) ?s1"
    have w: "same_content (bt_nodes s x) (bt_nodes ?w x)" for x using rn by (auto simp: same_content_upd)
    have ln': "bn_level ln \<noteq> 0" "bn_leftmost ln = first_root f" "bn_items ln = seps f"
      using l ln Nd by (auto simp: inner_at_def)
    have "fstored d (bt_type ?w) (bt_nodes ?w) (h - 1) f"
      using l Nd w fstored_cong [of f "bt_nodes s" "bt_nodes ?w"] by simp
    from reparent_ok [OF fstored_roots [OF this], of "\<lambda>p. p = root_of l" m]
    obtain s2 where "reparent d (\<lambda>p. p = root_of l) m (first_root f # map snd (seps f)) ?w = (Inr (), s2)" "same_handle ?w s2"
      "bt_fresh s2 = bt_fresh ?w" "\<forall>b. same_content (bt_nodes ?w b) (bt_nodes s2 b)" by blast
    then show ?thesis using that [of s2] w ln' same_content_trans by (auto simp: same_handle_def) blast+
  qed
qed

lemma grow_root_ok:
  assumes l: "stored d (bt_type s) (bt_nodes s) h l" and r: "stored d (bt_type s) (bt_nodes s) h r"
    and fresh: "bt_fresh s = m # rest" "distinct (blocks l @ blocks r @ m # rest)"
    and cap: "2 \<le> max_internal_items d" "Suc h < 2 ^ 16"
  shows "\<exists>s'. grow_root d (root_of l) key (root_of r) s = (Inr None, s') \<and> same_handle s s' \<and> bt_fresh s' = rest \<and>
    stored d (bt_type s) (bt_nodes s') (Suc h) (Nd (root_of l) (More (set_root m l) key (One r)))"
proof -
  let ?s1 = "s\<lparr>bt_fresh := rest\<rparr>"
  have rd: "read_node d x ?s1 = read_node d x s" for x by (simp add: read_node_def cong: option.case_cong)
  obtain ln where ln: "read_node d (root_of l) s = Inr ln" "bt_nodes s (root_of l) = Some ln" using read_stored [OF l] .
  obtain rn where rn: "read_node d (root_of r) s = Inr rn" "bt_nodes s (root_of r) = Some rn" using read_stored [OF r] .
  have h: "bn_level ln = h" using l ln(2) by (cases l) (auto simp: leaf_at_def inner_at_def)
  obtain s2 where s2: "(if bn_level ln = 0
      then (Inr (), write_node (root_of r) (rn\<lparr>bn_parent := root_of l, bn_prev := (if bn_prev rn = root_of l then m else bn_prev rn)\<rparr>) ?s1)
      else reparent d (\<lambda>p. p = root_of l) m (bn_leftmost ln # map snd (bn_items ln)) (write_node (root_of r) (rn\<lparr>bn_parent := root_of l\<rparr>) ?s1)) = (Inr (), s2)"
    "same_handle s s2" "bt_fresh s2 = rest" "\<forall>x. same_content (bt_nodes s x) (bt_nodes s2 x)"
    by (rule grow_relink [OF l ln(2) rn(2)])
  let ?mv = "ln\<lparr>bn_parent := root_of l\<rparr>"
  let ?rt = "(node_new ((h + 1) mod 2 ^ 16) (bt_type s))\<lparr>bn_leftmost := m, bn_items := [(key, root_of r)]\<rparr>"
  let ?s3 = "write_node (root_of l) ?rt (write_node m ?mv s2)"
  have run: "grow_root d (root_of l) key (root_of r) s = (Inr None, ?s3)"
    using s2(1) h by (simp add: grow_root_def fresh(1) rd ln(1) rn(1) Let_def del: reparent.simps split del: if_split cong: if_cong)
  have dj: "m \<noteq> root_of l" "m \<noteq> root_of r" "m \<notin> set (inner_blocks l)" "root_of l \<notin> set (inner_blocks l)"
    "m \<notin> set (blocks r)" "root_of l \<notin> set (blocks r)"
    using fresh(2) by (auto simp: blocks_root)
  have "stored d (bt_type s) (bt_nodes ?s3) h (set_root m l)"
  proof (rule stored_set_root [OF l])
    show "same_content (bt_nodes s (root_of l)) (bt_nodes ?s3 m)" using dj ln(2) by (simp add: same_content_upd)
    show "same_content (bt_nodes s x) (bt_nodes ?s3 x)" if "x \<in> set (inner_blocks l)" for x
      using that dj s2(4) by auto
  qed
  moreover have "stored d (bt_type s) (bt_nodes ?s3) h r"
  proof -
    have "same_content (bt_nodes s x) (bt_nodes ?s3 x)" if "x \<in> set (blocks r)" for x using that dj s2(4) by auto
    then show ?thesis using stored_cong [of r "bt_nodes s" "bt_nodes ?s3"] r by blast
  qed
  moreover have "inner_at d (bt_type s) (bt_nodes ?s3) (root_of l) (Suc h) m [(key, root_of r)]"
    using cap by (simp add: inner_at_def node_new_def)
  ultimately have "stored d (bt_type s) (bt_nodes ?s3) (Suc h) (Nd (root_of l) (More (set_root m l) key (One r)))" by simp
  moreover have "same_handle s ?s3" using s2(2) by (meson same_handle_trans write_node_simps(3))
  ultimately show ?thesis using run s2(3) by auto
qed


section \<open>A new separator in an internal node\<close>

lemma forest_split:
  assumes "mid < length (seps F)"
  obtains F1 k F2 where "first_root F1 = first_root F" "seps F1 = take mid (seps F)" "seps F ! mid = (k, first_root F2)"
    "seps F2 = drop (Suc mid) (seps F)" "\<forall>lo hi. fcells lo F hi = fcells lo F1 (Some k) @ fcells (Some k) F2 hi"
    "fblocks F = fblocks F1 @ fblocks F2" "\<forall>d ty N h. fstored d ty N h F \<longleftrightarrow> fstored d ty N h F1 \<and> fstored d ty N h F2"
proof -
  have "\<exists>F1 k F2. first_root F1 = first_root F \<and> seps F1 = take mid (seps F) \<and> seps F ! mid = (k, first_root F2) \<and>
    seps F2 = drop (Suc mid) (seps F) \<and> (\<forall>lo hi. fcells lo F hi = fcells lo F1 (Some k) @ fcells (Some k) F2 hi) \<and>
    fblocks F = fblocks F1 @ fblocks F2 \<and> (\<forall>d ty N h. fstored d ty N h F \<longleftrightarrow> fstored d ty N h F1 \<and> fstored d ty N h F2)"
    using assms
  proof (induction F arbitrary: mid rule: seps.induct)
    case (2 t x f)
    show ?case
    proof (cases mid)
      case 0
      then show ?thesis by (intro exI [of _ "One t"] exI [of _ x] exI [of _ f]) simp
    next
      case (Suc m)
      then have "m < length (seps f)" using 2(2) by simp
      from 2(1) [OF this] obtain F1 k F2 where "first_root F1 = first_root f" "seps F1 = take m (seps f)" "seps f ! m = (k, first_root F2)"
        "seps F2 = drop (Suc m) (seps f)" "\<forall>lo hi. fcells lo f hi = fcells lo F1 (Some k) @ fcells (Some k) F2 hi"
        "fblocks f = fblocks F1 @ fblocks F2" "\<forall>d ty N h. fstored d ty N h f \<longleftrightarrow> fstored d ty N h F1 \<and> fstored d ty N h F2" by blast
      then show ?thesis using Suc by (intro exI [of _ "More t x F1"] exI [of _ k] exI [of _ F2]) simp
    qed
  qed simp
  then show ?thesis using that by blast
qed

lemma separator_place:
  fixes key :: "'k::linorder"
  assumes "cells_ok (front_cells lo ls)" "bounds_ok (front_lo lo ls) (Some key)"
    "bounds_ok (Some key) (tail_hi ta hi)" "cells_ok (tail_cells ta hi)"
  shows "binary_search key (front_seps ls p @ tail_seps ta) = Inl (length (front_seps ls p))"
proof -
  have front: "fst x < key" if "x \<in> set (front_seps ls p)" for x
  proof -
    from that have "fst x \<in> fst ` set (front_seps ls p)" by simp
    from front_seps_bounds [OF assms(1) this] obtain y where "front_lo lo ls = Some y" "fst x \<le> y" by blast
    then show ?thesis using assms(2) by simp
  qed
  have tail: "key < fst x" if x: "x \<in> set (tail_seps ta)" for x
  proof (cases ta)
    case (Some kf)
    obtain k f where kf: "kf = (k, f)" by (cases kf)
    have "fst x = k \<or> k < fst x"
      using x Some kf seps_bounds [of "Some k" f hi "fst x"] assms(4) by auto
    then show ?thesis using assms(3) Some kf by auto
  qed (use x in simp)
  have "position (\<lambda>kv. fst kv = key) (front_seps ls p @ tail_seps ta) = None"
    using front tail by (auto simp: position_None_iff)
  moreover have "takeWhile (\<lambda>kv. fst kv < key) (tail_seps ta) = []"
  proof (cases "tail_seps ta")
    case (Cons x xs)
    then show ?thesis using tail [of x] by auto
  qed simp
  then have "takeWhile (\<lambda>kv. fst kv < key) (front_seps ls p @ tail_seps ta) = front_seps ls p"
    using front by (simp add: takeWhile_append2)
  ultimately show ?thesis by (simp add: binary_search_def)
qed

lemma root_plug: "root_of (plug fs t) = (if fs = [] then root_of t else frame_block (last fs))"
  by (induction fs t rule: plug.induct) simp_all

text \<open>The parent of a frame list, as \<open>path.pop().unwrap_or(0)\<close> gives it.\<close>

fun parent_of :: "('k, 'v) frame list \<Rightarrow> nat" where
  "parent_of [] = 0"
| "parent_of (f # fs) = frame_block f"

lemma insert_into_parent_root [simp]: "insert_into_parent d 0 left key right path s = grow_root d left key right s"
  by simp

declare insert_into_parent.simps [simp del]

definition split_done :: "dims \<Rightarrow> nat \<Rightarrow> ('k, 'v) cell list \<Rightarrow> nat set \<Rightarrow> nat \<Rightarrow> nat \<Rightarrow> ('k, 'v) btree \<Rightarrow>
    (btree_error + nat option) \<times> ('k, 'v) btree \<Rightarrow> bool" where
  "split_done d r cs B u hmax s res \<longleftrightarrow> (\<exists>s' t' h'. res = (Inr None, s') \<and> same_handle s s' \<and>
     stored d (bt_type s) (bt_nodes s') h' t' \<and> root_of t' = r \<and> cells None t' None = cs \<and> distinct (blocks t' @ bt_fresh s') \<and>
     set (blocks t' @ bt_fresh s') \<subseteq> B \<and> h' \<le> hmax \<and> u \<le> length (bt_fresh s'))"


text \<open>The children of a frame's node once its hole holds two trees.\<close>

definition two_in_frame :: "(('k, 'v) tree \<times> 'k) list \<Rightarrow> ('k, 'v) tree \<Rightarrow> 'k \<Rightarrow> ('k, 'v) tree \<Rightarrow> ('k \<times> ('k, 'v) forest) option \<Rightarrow> ('k, 'v) forest" where
  "two_in_frame ls l key r ta = with_front ls (More l key (with_tail r ta))"

lemma two_in_frame_simps:
  "first_root (two_in_frame ls l key r ta) = hole_first ls (root_of l)"
  "seps (two_in_frame ls l key r ta) = front_seps ls (root_of l) @ (key, root_of r) # tail_seps ta"
  "fcells lo (two_in_frame ls l key r ta) hi =
     front_cells lo ls @ cells (front_lo lo ls) l (Some key) @ cells (Some key) r (tail_hi ta hi) @ tail_cells ta hi"
  "fstored d ty N h (two_in_frame ls l key r ta) \<longleftrightarrow>
     front_stored d ty N h ls \<and> stored d ty N h l \<and> stored d ty N h r \<and> tail_stored d ty N h ta"
  "mset (fblocks (two_in_frame ls l key r ta)) = mset (front_blocks ls @ blocks l @ blocks r @ tail_blocks ta)"
  by (simp_all add: two_in_frame_def first_root_front seps_front fcells_with_front fcells_with_tail fstored_front fstored_tail
      mset_fblocks_front mset_fblocks_tail)

lemma parent_items:
  assumes "inner_at d (bt_type s) (bt_nodes s) b (Suc h) (hole_first ls (root_of l)) (front_seps ls (root_of l) @ tail_seps ta)"
    "cells_ok (fcells lo (two_in_frame ls l key r ta) hi)"
  obtains pn where "read_node d b s = Inr pn" "bn_type pn = bt_type s" "bn_level pn = Suc h"
    "bn_leftmost pn = first_root (two_in_frame ls l key r ta)" "item_count pn = length (bn_items pn)"
    "Suc (length (bn_items pn)) = length (seps (two_in_frame ls l key r ta))" "length (bn_items pn) < max_internal_items d"
    "insert_at (case binary_search key (bn_items pn) of Inr i \<Rightarrow> i + 1 | Inl i \<Rightarrow> i) (key, root_of r) (bn_items pn) =
       seps (two_in_frame ls l key r ta)"
proof -
  let ?items = "front_seps ls (root_of l) @ tail_seps ta"
  obtain pn where pn: "read_node d b s = Inr pn" "bt_nodes s b = Some pn" "bn_type pn = bt_type s" "bn_level pn = Suc h" "0 < Suc h"
    "bn_leftmost pn = hole_first ls (root_of l)" "bn_items pn = ?items" "item_count pn = length ?items"
    "length ?items < max_internal_items d" by (rule read_inner [OF assms(1)])
  have ok: "cells_ok (front_cells lo ls)" "cells_ok (cells (front_lo lo ls) l (Some key))"
    "cells_ok (cells (Some key) r (tail_hi ta hi))" "cells_ok (tail_cells ta hi)"
    using assms(2) by (simp_all add: two_in_frame_simps ball_Un)
  have "binary_search key (bn_items pn) = Inl (length (front_seps ls (root_of l)))"
    unfolding pn(7) by (rule separator_place [OF ok(1) chained_bounds [OF cells_chained ok(2)] chained_bounds [OF cells_chained ok(3)] ok(4)])
  then have "insert_at (case binary_search key (bn_items pn) of Inr i \<Rightarrow> i + 1 | Inl i \<Rightarrow> i) (key, root_of r) (bn_items pn) =
       seps (two_in_frame ls l key r ta)"
    by (simp add: insert_at_def two_in_frame_simps pn(7))
  then show ?thesis using pn by (intro that [of pn]) (simp_all add: two_in_frame_simps)
qed

lemma ip_room:
  assumes "read_node d b s = Inr pn" "b \<noteq> 0" "item_count pn = length (bn_items pn)" "Suc (length (bn_items pn)) < max_internal_items d"
    "insert_at (case binary_search key (bn_items pn) of Inr i \<Rightarrow> i + 1 | Inl i \<Rightarrow> i) (key, right) (bn_items pn) = items"
  shows "insert_into_parent d b left key right path s = (Inr None, write_node b (pn\<lparr>bn_items := items\<rparr>) s)"
proof -
  have "\<not> max_internal_items d - 1 \<le> item_count pn" using assms(3,4) by simp
  then show ?thesis using assms by (subst insert_into_parent.simps) (simp add: Let_def)
qed

lemma ip_full:
  assumes "read_node d b s = Inr pn" "b \<noteq> 0" "item_count pn = length (bn_items pn)" "max_internal_items d \<le> Suc (length (bn_items pn))"
    "insert_at (case binary_search key (bn_items pn) of Inr i \<Rightarrow> i + 1 | Inl i \<Rightarrow> i) (key, right) (bn_items pn) = items"
    "bt_fresh s = rb # rest" "mid = Suc (length (bn_items pn)) div 2" "items ! mid = (k, p)"
    "rn = (node_new (bn_level pn) (bt_type s))\<lparr>bn_parent := bn_parent pn, bn_leftmost := p, bn_items := drop (Suc mid) items\<rparr>"
    "reparent d (\<lambda>_. True) rb (p # map snd (drop (Suc mid) items))
       (write_node b (pn\<lparr>bn_items := take mid items\<rparr>) (write_node rb rn (s\<lparr>bt_fresh := rest\<rparr>))) = (Inr (), s3)"
  shows "insert_into_parent d b left key right (map frame_block fs) s =
    insert_into_parent d (parent_of fs) b k rb (map frame_block (tl fs)) s3"
proof -
  have "max_internal_items d - 1 \<le> item_count pn" using assms(3,4) by simp
  then show ?thesis using assms
    by (subst insert_into_parent.simps) (cases fs; simp add: Let_def del: reparent.simps)
qed


lemma split_done_weaken:
  assumes "split_done d r cs B u hmax s1 res" "same_handle s s1" "B = B'" "u = u'" "hmax = hmax'"
  shows "split_done d r cs B' u' hmax' s res"
proof -
  obtain s' t' h' where "res = (Inr None, s')" "same_handle s1 s'" "stored d (bt_type s1) (bt_nodes s') h' t'" "root_of t' = r"
    "cells None t' None = cs" "distinct (blocks t' @ bt_fresh s')" "set (blocks t' @ bt_fresh s') \<subseteq> B" "h' \<le> hmax" "u \<le> length (bt_fresh s')"
    using assms(1) unfolding split_done_def by blast
  then show ?thesis using assms(2-5) same_handle_trans [of s s1 s'] same_handle_type [of s s1] unfolding split_done_def by auto
qed

lemma blocks_two:
  assumes "fblocks (two_in_frame ls l key r ta) = fblocks F1 @ fblocks F2"
  shows "mset (frames_blocks fs @ (b # fblocks F1) @ (rb # fblocks F2) @ rest) =
    mset (frames_blocks ((b, ls, ta) # fs) @ blocks l @ blocks r @ rb # rest)"
proof -
  have "mset (fblocks F1) + mset (fblocks F2) = mset (front_blocks ls @ blocks l @ blocks r @ tail_blocks ta)"
    using two_in_frame_simps(5) [of ls l key r ta] unfolding assms by simp
  then show ?thesis by (simp add: union_ac)
qed

lemma stored_upd_other:
  "x \<notin> set (blocks t) \<Longrightarrow> stored d ty (N(x \<mapsto> n)) h t \<longleftrightarrow> stored d ty N h t"
  "x \<notin> set (fblocks f) \<Longrightarrow> fstored d ty (N(x \<mapsto> n)) h f \<longleftrightarrow> fstored d ty N h f"
  "x \<notin> set (frames_blocks fs) \<Longrightarrow> frames_stored d ty (N(x \<mapsto> n)) h fs p \<longleftrightarrow> frames_stored d ty N h fs p"
  by (rule stored_cong fstored_cong frames_stored_cong; auto)+

lemma stored_write_inner:
  assumes "fstored d ty N h F" "b \<notin> set (fblocks F)" "length (seps F) < max_internal_items d"
    "bn_type n = ty" "bn_level n = Suc h" "bn_leftmost n = first_root F" "bn_items n = seps F"
  shows "stored d ty (N(b \<mapsto> n)) (Suc h) (Nd b F)"
  using assms by (simp add: stored_upd_other inner_at_def)

lemma split_inner_ok:
  assumes "fstored d (bt_type s) (bt_nodes s) h F" "frames_stored d (bt_type s) (bt_nodes s) (Suc h) fs b"
    "bt_fresh s = rb # rest" "distinct (b # rb # frames_blocks fs @ fblocks F)"
    "bn_type pn = bt_type s" "bn_level pn = Suc h" "bn_leftmost pn = first_root F"
    "length (seps F) \<le> max_internal_items d" "2 \<le> max_internal_items d" "mid = length (seps F) div 2" "seps F \<noteq> []"
    "rn = (node_new (bn_level pn) (bt_type s))\<lparr>bn_parent := pp, bn_leftmost := snd (seps F ! mid), bn_items := drop (Suc mid) (seps F)\<rparr>"
    "s2 = write_node b (pn\<lparr>bn_items := take mid (seps F)\<rparr>) (write_node rb rn (s\<lparr>bt_fresh := rest\<rparr>))"
  obtains F1 k F2 s3 where "seps F ! mid = (k, first_root F2)" "\<forall>lo hi. fcells lo F hi = fcells lo F1 (Some k) @ fcells (Some k) F2 hi"
    "fblocks F = fblocks F1 @ fblocks F2" "same_handle s s3" "bt_fresh s3 = rest"
    "reparent d (\<lambda>_. True) rb (first_root F2 # map snd (drop (Suc mid) (seps F))) s2 = (Inr (), s3)"
    "frames_stored d (bt_type s) (bt_nodes s3) (Suc h) fs b"
    "stored d (bt_type s) (bt_nodes s3) (Suc h) (Nd b F1)" "stored d (bt_type s) (bt_nodes s3) (Suc h) (Nd rb F2)"
proof -
  have mid: "mid < length (seps F)" using assms(10,11) by (cases "seps F") auto
  obtain F1 k F2 where F: "first_root F1 = first_root F" "seps F1 = take mid (seps F)" "seps F ! mid = (k, first_root F2)"
    "seps F2 = drop (Suc mid) (seps F)" "\<forall>lo hi. fcells lo F hi = fcells lo F1 (Some k) @ fcells (Some k) F2 hi"
    "fblocks F = fblocks F1 @ fblocks F2" "\<forall>d ty N h. fstored d ty N h F \<longleftrightarrow> fstored d ty N h F1 \<and> fstored d ty N h F2"
    by (rule forest_split [OF mid])
  have cap: "length (seps F1) < max_internal_items d" "length (seps F2) < max_internal_items d"
    using assms(8,9,10,11) F(2,4) by auto
  have st: "stored d (bt_type s) (bt_nodes s2) (Suc h) (Nd b F1)" "stored d (bt_type s) (bt_nodes s2) (Suc h) (Nd rb F2)"
    "frames_stored d (bt_type s) (bt_nodes s2) (Suc h) fs b" "fstored d (bt_type s2) (bt_nodes s2) h F2"
    using assms(1,2,4-7,12) F cap unfolding assms(13) by (simp_all add: stored_upd_other inner_at_def node_new_def)
  have "same_handle s s2" "bt_fresh s2 = rest" by (simp_all add: assms(13) same_handle_def)
  from reparent_ok [OF fstored_roots [OF st(4)], of "\<lambda>_. True" rb] F(4)
  obtain s3 where s3: "reparent d (\<lambda>_. True) rb (first_root F2 # map snd (drop (Suc mid) (seps F))) s2 = (Inr (), s3)"
    "same_handle s2 s3" "bt_fresh s3 = bt_fresh s2" "\<forall>b. same_content (bt_nodes s2 b) (bt_nodes s3 b)" by auto
  have "same_handle s s3" "bt_fresh s3 = rest"
    using s3(2,3) \<open>same_handle s s2\<close> \<open>bt_fresh s2 = rest\<close> same_handle_trans by auto
  moreover have "frames_stored d (bt_type s) (bt_nodes s3) (Suc h) fs b" "stored d (bt_type s) (bt_nodes s3) (Suc h) (Nd b F1)"
    "stored d (bt_type s) (bt_nodes s3) (Suc h) (Nd rb F2)"
    using st(1-3) s3(4) stored_cong [of _ "bt_nodes s2" "bt_nodes s3"] frames_stored_cong [of fs "bt_nodes s2" "bt_nodes s3"] by blast+
  ultimately show ?thesis using that F(3,5,6) s3(1) by blast
qed

lemma parent_room_ok:
  assumes "fstored d (bt_type s) (bt_nodes s) h F" "frames_stored d (bt_type s) (bt_nodes s) (Suc h) fs b"
    "distinct (frames_blocks fs @ (b # fblocks F) @ bt_fresh s)" "length (seps F) < max_internal_items d"
    "bn_type pn = bt_type s" "bn_level pn = Suc h" "bn_leftmost pn = first_root F" "hole fs = (pre, lo, hi, post)"
  shows "split_done d (root_of (plug fs (Nd b F))) (pre @ fcells lo F hi @ post) (set (frames_blocks fs @ (b # fblocks F) @ bt_fresh s))
    (length (bt_fresh s) - u) (Suc h + length fs + w) s (Inr None, write_node b (pn\<lparr>bn_items := seps F\<rparr>) s)"
proof -
  let ?s = "write_node b (pn\<lparr>bn_items := seps F\<rparr>) s" and ?t = "plug fs (Nd b F)"
  have dj: "b \<notin> set (fblocks F)" "b \<notin> set (frames_blocks fs)" using assms(3) by auto
  have "stored d (bt_type s) (bt_nodes ?s) (Suc h) (Nd b F)"
    using stored_write_inner [OF assms(1) dj(1) assms(4)] assms(5-7) by simp
  moreover have "frames_stored d (bt_type s) (bt_nodes ?s) (Suc h) fs b" using assms(2) dj(2) by (simp add: stored_upd_other)
  ultimately have "stored d (bt_type s) (bt_nodes ?s) (Suc h + length fs) ?t" by (simp only: stored_plug root_of.simps)
  moreover have m: "mset (blocks ?t @ bt_fresh s) = mset (frames_blocks fs @ (b # fblocks F) @ bt_fresh s)" by (simp add: mset_blocks_plug)
  have "distinct (blocks ?t @ bt_fresh ?s)" "set (blocks ?t @ bt_fresh ?s) = set (frames_blocks fs @ (b # fblocks F) @ bt_fresh s)"
    using assms(3) mset_eq_imp_distinct_iff [OF m] mset_eq_setD [OF m] by simp_all
  ultimately show ?thesis unfolding split_done_def using assms(8)
    by (intro exI [of _ ?s] exI [of _ ?t] exI [of _ "Suc h + length fs"]) (simp add: cells_plug)
qed

lemma insert_into_parent_ok:
  assumes "frames_stored d (bt_type s) (bt_nodes s) h fs (root_of l)"
    "stored d (bt_type s) (bt_nodes s) h l" "stored d (bt_type s) (bt_nodes s) h r"
    "distinct (frames_blocks fs @ blocks l @ blocks r @ bt_fresh s)" "0 \<notin> set (frames_blocks fs)"
    "length fs < length (bt_fresh s)" "2 \<le> max_internal_items d" "h + length fs + 1 < 2 ^ 16"
    "hole fs = (pre, lo, hi, post)" "cs = pre @ cells lo l (Some key) @ cells (Some key) r hi @ post" "cells_ok cs"
  shows "split_done d (root_of (plug fs l)) cs (set (frames_blocks fs @ blocks l @ blocks r @ bt_fresh s))
    (length (bt_fresh s) - (length fs + 1)) (h + length fs + 1) s
    (insert_into_parent d (parent_of fs) (root_of l) key (root_of r) (map frame_block (tl fs)) s)"
  using assms
proof (induction fs arbitrary: h l key r s pre lo hi post)
  case Nil
  obtain m rest where fresh: "bt_fresh s = m # rest" using Nil.prems(6) by (cases "bt_fresh s") auto
  have "distinct (blocks l @ blocks r @ m # rest)" using Nil.prems(4) fresh by simp
  from grow_root_ok [OF Nil.prems(2,3) fresh this Nil.prems(7), of key] Nil.prems(8)
  obtain s' where s': "grow_root d (root_of l) key (root_of r) s = (Inr None, s')" "same_handle s s'" "bt_fresh s' = rest"
    "stored d (bt_type s) (bt_nodes s') (Suc h) (Nd (root_of l) (More (set_root m l) key (One r)))" by auto
  then show ?case using Nil.prems(4,9,10) fresh unfolding split_done_def
    by (intro exI [of _ s'] exI [of _ "Nd (root_of l) (More (set_root m l) key (One r))"] exI [of _ "Suc h"])
      (auto simp: blocks_set_root blocks_root [of l])
next
  case (Cons fr fs)
  obtain b ls ta where fr: "fr = (b, ls, ta)" by (cases fr)
  obtain pre0 lo0 hi0 post0 where h0: "hole fs = (pre0, lo0, hi0, post0)" by (cases "hole fs")
  let ?F = "two_in_frame ls l key r ta"
  have cs: "cs = pre0 @ fcells lo0 ?F hi0 @ post0" using Cons.prems(9,10) h0 fr by (auto simp: two_in_frame_simps)
  then have F_ok: "cells_ok (fcells lo0 ?F hi0)" using Cons.prems(11) by simp
  have st: "inner_at d (bt_type s) (bt_nodes s) b (Suc h) (hole_first ls (root_of l)) (front_seps ls (root_of l) @ tail_seps ta)"
    "fstored d (bt_type s) (bt_nodes s) h ?F" "frames_stored d (bt_type s) (bt_nodes s) (Suc h) fs b"
    using Cons.prems(1-3) fr by (simp_all add: two_in_frame_simps)
  obtain pn where pn: "read_node d b s = Inr pn" "bn_type pn = bt_type s" "bn_level pn = Suc h" "bn_leftmost pn = first_root ?F"
    "item_count pn = length (bn_items pn)" "Suc (length (bn_items pn)) = length (seps ?F)" "length (bn_items pn) < max_internal_items d"
    "insert_at (case binary_search key (bn_items pn) of Inr i \<Rightarrow> i + 1 | Inl i \<Rightarrow> i) (key, root_of r) (bn_items pn) = seps ?F"
    by (rule parent_items [OF st(1) F_ok])
  have b0: "b \<noteq> 0" using Cons.prems(5) fr by auto
  show ?case
  proof (cases "Suc (length (bn_items pn)) < max_internal_items d")
    case True
    have run: "insert_into_parent d (parent_of (fr # fs)) (root_of l) key (root_of r) (map frame_block (tl (fr # fs))) s =
        (Inr None, write_node b (pn\<lparr>bn_items := seps ?F\<rparr>) s)"
      using ip_room [OF pn(1) b0 pn(5) True pn(8)] fr by simp
    have m: "mset (frames_blocks fs @ (b # fblocks ?F) @ bt_fresh s) = mset (frames_blocks (fr # fs) @ blocks l @ blocks r @ bt_fresh s)"
      by (simp add: two_in_frame_simps(5) fr)
    have "distinct (frames_blocks fs @ (b # fblocks ?F) @ bt_fresh s)" using Cons.prems(4) mset_eq_imp_distinct_iff [OF m] by simp
    from parent_room_ok [OF st(2,3) this _ pn(2-4) h0, of "length (fr # fs) + 1" 1] True pn(6)
    show ?thesis unfolding run cs using mset_eq_setD [OF m] by (simp add: root_plug fr split del: if_split cong: if_cong)
  next
    case False
    obtain rb rest where fresh: "bt_fresh s = rb # rest" using Cons.prems(6) by (cases "bt_fresh s") auto
    let ?mid = "length (seps ?F) div 2"
    let ?rn = "(node_new (bn_level pn) (bt_type s))\<lparr>bn_parent := bn_parent pn, bn_leftmost := snd (seps ?F ! ?mid), bn_items := drop (Suc ?mid) (seps ?F)\<rparr>"
    have dj: "distinct (b # rb # frames_blocks fs @ fblocks ?F)"
      using Cons.prems(4) fr fresh mset_eq_imp_distinct_iff [OF two_in_frame_simps(5) [of ls l key r ta]]
        mset_eq_setD [OF two_in_frame_simps(5) [of ls l key r ta]] by auto
    have full: "length (seps ?F) \<le> max_internal_items d" "seps ?F \<noteq> []" "max_internal_items d \<le> Suc (length (bn_items pn))"
      using pn(6,7) False by auto
    obtain F1 k F2 s3 where F: "seps ?F ! ?mid = (k, first_root F2)" "\<forall>lo hi. fcells lo ?F hi = fcells lo F1 (Some k) @ fcells (Some k) F2 hi"
      "fblocks ?F = fblocks F1 @ fblocks F2" "same_handle s s3" "bt_fresh s3 = rest"
      "reparent d (\<lambda>_. True) rb (first_root F2 # map snd (drop (Suc ?mid) (seps ?F)))
         (write_node b (pn\<lparr>bn_items := take ?mid (seps ?F)\<rparr>) (write_node rb ?rn (s\<lparr>bt_fresh := rest\<rparr>))) = (Inr (), s3)"
      "frames_stored d (bt_type s) (bt_nodes s3) (Suc h) fs b"
      "stored d (bt_type s) (bt_nodes s3) (Suc h) (Nd b F1)" "stored d (bt_type s) (bt_nodes s3) (Suc h) (Nd rb F2)"
      by (rule split_inner_ok [OF st(2,3) fresh dj pn(2,3,4) full(1) Cons.prems(7) refl full(2) refl refl])
    have run: "insert_into_parent d (parent_of (fr # fs)) (root_of l) key (root_of r) (map frame_block (tl (fr # fs))) s =
        insert_into_parent d (parent_of fs) b k rb (map frame_block (tl fs)) s3"
      using ip_full [OF pn(1) b0 pn(5) full(3) pn(8) fresh _ F(1) _ F(6)] pn(6) F(1) fr by simp
    note m = blocks_two [OF F(3), of fs b rb rest]
    have "split_done d (root_of (plug fs (Nd b F1))) cs (set (frames_blocks fs @ blocks (Nd b F1) @ blocks (Nd rb F2) @ bt_fresh s3))
      (length (bt_fresh s3) - (length fs + 1)) (Suc h + length fs + 1) s3
      (insert_into_parent d (parent_of fs) (root_of (Nd b F1)) k (root_of (Nd rb F2)) (map frame_block (tl fs)) s3)"
    proof (rule Cons.IH [OF _ _ _ _ _ _ Cons.prems(7) _ h0])
      show "distinct (frames_blocks fs @ blocks (Nd b F1) @ blocks (Nd rb F2) @ bt_fresh s3)"
        using mset_eq_imp_distinct_iff [OF m] Cons.prems(4) fr fresh F(5) by simp
      show "cs = pre0 @ cells lo0 (Nd b F1) (Some k) @ cells (Some k) (Nd rb F2) hi0 @ post0" using cs F(2) by simp
    qed (use F Cons.prems fr fresh same_handle_type [OF F(4)] in auto)
    moreover have "set (frames_blocks fs @ blocks (Nd b F1) @ blocks (Nd rb F2) @ rest) =
        set (frames_blocks (fr # fs) @ blocks l @ blocks r @ bt_fresh s)"
      using mset_eq_setD [OF m] fr fresh by simp
    moreover have "root_of (plug (fr # fs) l) = root_of (plug fs (Nd b F1))" by (simp add: root_plug fr)
    ultimately show ?thesis unfolding run using split_done_weaken [OF _ F(4)] F(5) fresh by simp
  qed
qed

end
