(* ===== verification/Btree_Cow.thy ===== *)
theory Btree_Cow
  imports Btree_Split
begin

text \<open>
  The path copies in front of a mutation keep the tree: each copied node is reached through its copy, and nothing but the
  blocks of the nodes on the path changes.
\<close>

section \<open>Frames that differ only in their blocks\<close>

lemma hole_blocks_irrelevant:
  "map snd fs' = map snd fs \<Longrightarrow> hole fs' = hole fs \<and> leaf_hole fs' = leaf_hole fs"
proof (induction fs' fs rule: list_induct2')
  case (4 f' fs' f fs)
  obtain b ls ta where f: "f = (b, ls, ta)" by (cases f)
  moreover obtain b' where "f' = (b', ls, ta)" using 4 f by (cases f') auto
  ultimately show ?case using 4 by simp
qed simp_all

lemma rightmost_blocks_irrelevant:
  assumes "map snd fs' = map snd fs"
  shows "(\<forall>f\<in>set fs'. rightmost_frame f) \<longleftrightarrow> (\<forall>f\<in>set fs. rightmost_frame f)"
proof -
  have r: "rightmost_frame f \<longleftrightarrow> snd (snd f) = None" for f :: "('a, 'b) frame" by (cases f) simp
  have "(\<forall>f\<in>set fs'. snd (snd f) = None) \<longleftrightarrow> (\<forall>x\<in>set (map snd fs'). snd x = None)" for fs' :: "('a, 'b) frame list" by auto
  from this [of fs'] this [of fs] show ?thesis unfolding r assms by blast
qed

lemma cells_set_block: "map snd fs' = map snd fs \<Longrightarrow> cells None (plug fs' (Lf b' kvs)) None = cells None (plug fs (Lf b kvs)) None"
  using hole_blocks_irrelevant [of fs' fs] by (auto simp: cells_plug split: prod.splits)

lemma stored_plug_level:
  assumes "stored d ty N h (plug fs t)"
  obtains h0 where "h = h0 + length fs" "frames_stored d ty N h0 fs (root_of t)" "stored d ty N h0 t"
proof -
  have "\<exists>h0. h = h0 + length fs" using assms
  proof (induction fs t arbitrary: h rule: plug.induct)
    case (2 b ls ta fs t)
    then obtain h0 where h0: "h = h0 + length fs" by auto
    then have "stored d ty N h0 (Nd b (with_front ls (with_tail t ta)))" using 2(2) stored_plug [of d ty N h0 fs] by simp
    then have "0 < h0" by (auto simp: inner_at_def)
    then show ?case using h0 by (intro exI [of _ "h0 - 1"]) simp
  qed simp
  then show ?thesis using that assms stored_plug by blast
qed

section \<open>One copy\<close>

lemma front_seps_replace:
  assumes "orig \<notin> set (front_blocks ls)"
  shows "map (\<lambda>(k, p). (k, if p = orig then copy else p)) (front_seps ls orig) = front_seps ls copy"
    and "(if hole_first ls orig = orig then copy else hole_first ls orig) = hole_first ls copy"
  using assms
proof (induction ls rule: front_blocks.induct)
  case (2 t k ls)
  { case 1
    have "root_of t \<noteq> orig" using 1 blocks_root [of t] by auto
    then show ?case using 2 1 by (cases ls rule: front_blocks.cases) auto
  next
    case 2
    then show ?case using blocks_root [of t] by auto
  }
qed simp_all

lemma length_front_seps [simp]: "length (front_seps ls p) = length ls"
  by (induction ls p rule: front_seps.induct) simp_all

lemma fblocks_first: "first_root f \<in> set (fblocks f)"
  by (cases f) (auto simp: blocks_root)

lemma seps_in_blocks: "snd ` set (seps f) \<subseteq> set (fblocks f)"
  by (induction f rule: seps.induct) (use fblocks_first in auto)

lemma tail_seps_replace:
  assumes "orig \<notin> set (tail_blocks ta)"
  shows "map (\<lambda>(k, p). (k, if p = orig then copy else p)) (tail_seps ta) = tail_seps ta"
proof (cases ta)
  case (Some kf)
  obtain k f where kf: "kf = (k, f)" by (cases kf)
  have "p \<noteq> orig" if "(x, p) \<in> set (tail_seps ta)" for x p
    using that assms seps_in_blocks [of f] fblocks_first [of f] Some kf by force
  then show ?thesis by (auto intro!: map_idI)
qed simp

lemma frames_replace:
  assumes "frames_stored d ty N h ((pb, ls, ta) # gs) orig" "N pb = Some pn"
    "orig \<notin> set (frames_blocks ((pb, ls, ta) # gs))" "distinct (frames_blocks ((pb, ls, ta) # gs))"
    "N' pb = Some ((replace_child_ptr orig copy pn)\<lparr>bn_gen := g\<rparr>)"
    "\<And>x. x \<in> set (frames_blocks ((pb, ls, ta) # gs)) \<Longrightarrow> x \<noteq> pb \<Longrightarrow> same_content (N x) (N' x)"
  shows "frames_stored d ty N' h ((pb, ls, ta) # gs) copy"
proof -
  have "inner_at d ty N' pb (Suc h) (hole_first ls copy) (front_seps ls copy @ tail_seps ta)"
    using assms(1,2,3,5) front_seps_replace [of orig ls copy] tail_seps_replace [of orig ta copy]
    by (auto simp: inner_at_def replace_child_ptr_def)
  moreover have sc: "same_content (N x) (N' x)" if "x \<in> set (front_blocks ls @ tail_blocks ta @ frames_blocks gs)" for x
    using that assms(4,6) by auto
  have "front_stored d ty N h ls \<longleftrightarrow> front_stored d ty N' h ls" "tail_stored d ty N h ta \<longleftrightarrow> tail_stored d ty N' h ta"
    "frames_stored d ty N (Suc h) gs pb \<longleftrightarrow> frames_stored d ty N' (Suc h) gs pb"
    by (rule front_stored_cong tail_stored_cong frames_stored_cong; rule sc; simp)+
  ultimately show ?thesis using assms(1) by simp
qed


lemma view_root_moved:
  "view_root (s\<lparr>bt_root := r, bt_ctx := set_root_cell (bt_type s) r (bt_ctx s)\<rparr>) = r"
  by (simp add: view_root_def effective_root_set)

text \<open>The image after the node at the root of a subtree has been copied.\<close>

lemma copy_root:
  assumes "stored d ty N h t" "bt_nodes s (root_of t) = Some n" "N = bt_nodes s" "copy \<notin> set (blocks t)"
  shows "stored d ty (bt_nodes (write_node copy n s)) h (set_root copy t)"
proof (rule stored_set_root [OF assms(1)])
  show "same_content (N (root_of t)) (bt_nodes (write_node copy n s) copy)" using assms(2,3) by (simp add: same_content_upd)
  show "same_content (N x) (bt_nodes (write_node copy n s) x)" if "x \<in> set (inner_blocks t)" for x
    using that assms(3,4) by (auto simp: blocks_root)
qed

text \<open>\<open>holds d h t s\<close>: as \<open>represents\<close>, without the order of the keys.\<close>

definition holds :: "dims \<Rightarrow> nat \<Rightarrow> ('k, 'v) tree \<Rightarrow> ('k, 'v) btree \<Rightarrow> bool" where
  "holds d h t s \<longleftrightarrow> stored d (bt_type s) (bt_nodes s) h t \<and> view_root s = root_of t \<and>
     distinct (blocks t @ bt_fresh s) \<and> 0 \<notin> set (blocks t @ bt_fresh s)"

lemma represents_holds: "represents d h t s \<longleftrightarrow> holds d h t s \<and> in_order t"
  by (auto simp: represents_def holds_def)

lemma cow_root_ok:
  assumes "holds d h t s" "bt_nodes s (root_of t) = Some n" "bt_fresh s = copy # rest"
    "s2 = write_node copy n (s\<lparr>bt_fresh := rest\<rparr>)"
  shows "holds d h (set_root copy t) (s2\<lparr>bt_root := copy, bt_ctx := set_root_cell (bt_type s2) copy (bt_ctx s2)\<rparr>)"
proof -
  let ?s3 = "s2\<lparr>bt_root := copy, bt_ctx := set_root_cell (bt_type s2) copy (bt_ctx s2)\<rparr>"
  have h: "stored d (bt_type s) (bt_nodes s) h t" "distinct ((root_of t # inner_blocks t) @ copy # rest)"
    "0 \<notin> set ((root_of t # inner_blocks t) @ copy # rest)"
    using assms(1,3) unfolding holds_def blocks_root by simp_all
  have "stored d (bt_type s) (bt_nodes (write_node copy n (s\<lparr>bt_fresh := rest\<rparr>))) h (set_root copy t)"
    by (rule copy_root [OF h(1)]) (use assms(2) h(2) in \<open>auto simp: blocks_root\<close>)
  moreover have "view_root ?s3 = copy" by (rule view_root_moved)
  ultimately show ?thesis using h(2,3) by (simp add: holds_def blocks_set_root assms(4))
qed

lemma cow_inner_ok:
  assumes "holds d h (plug G t) s" "bt_nodes s (root_of t) = Some n" "bt_fresh s = copy # rest" "G = (pb, ls, ta) # gs"
    "s2 = write_node copy (n\<lparr>bn_parent := pb\<rparr>) (s\<lparr>bt_fresh := rest\<rparr>)"
  shows "\<exists>pn. read_node d pb s2 = Inr pn \<and>
    holds d h (plug G (set_root copy t)) (write_node pb (replace_child_ptr (root_of t) copy pn) s2)"
proof -
  obtain h0 where h0: "h = h0 + length G" "frames_stored d (bt_type s) (bt_nodes s) h0 G (root_of t)"
    "stored d (bt_type s) (bt_nodes s) h0 t"
    using stored_plug_level assms(1) unfolding holds_def by blast
  have dj: "distinct (frames_blocks G @ (root_of t # inner_blocks t) @ copy # rest)"
    "0 \<notin> set (frames_blocks G @ (root_of t # inner_blocks t) @ copy # rest)"
    using assms(1,3) unfolding holds_def set_append set_blocks_plug distinct_append distinct_blocks_plug blocks_root [of t] by auto
  have pb: "pb \<in> set (frames_blocks G)" by (simp add: assms(4))
  have "inner_at d (bt_type s2) (bt_nodes s2) pb (Suc h0) (hole_first ls (root_of t)) (front_seps ls (root_of t) @ tail_seps ta)"
    using h0(2) dj(1) pb by (auto simp: assms(4,5) inner_at_def)
  then obtain pn where pn: "read_node d pb s2 = Inr pn" "bt_nodes s2 pb = Some pn" by (rule read_inner)
  let ?s3 = "write_node pb (replace_child_ptr (root_of t) copy pn) s2"
  have s2: "bt_nodes s2 x = bt_nodes s x" if "x \<noteq> copy" for x using that by (simp add: assms(5))
  have "pb \<noteq> copy" using dj(1) pb by auto
  then have np: "bt_nodes s pb = Some pn" using s2 [of pb] pn(2) by simp
  have sc: "same_content (bt_nodes s x) (bt_nodes ?s3 x)" if "x \<in> set (frames_blocks G)" "x \<noteq> pb" for x
  proof -
    have "x \<noteq> copy" using that(1) dj(1) by auto
    then show ?thesis using that(2) s2 by simp
  qed
  have "frames_stored d (bt_type s) (bt_nodes ?s3) h0 ((pb, ls, ta) # gs) copy"
    by (rule frames_replace [OF h0(2) [unfolded assms(4)] np _ _ _ sc [unfolded assms(4)]])
      (use dj(1) in \<open>auto simp: assms(4)\<close>)
  then have "frames_stored d (bt_type s) (bt_nodes ?s3) h0 G copy" by (simp only: assms(4))
  moreover have "stored d (bt_type s) (bt_nodes s2) h0 (set_root copy t)"
    unfolding assms(5) by (rule stored_set_root [OF h0(3)]) (use assms(2) dj in \<open>auto simp: same_content_upd\<close>)
  then have "stored d (bt_type s) (bt_nodes ?s3) h0 (set_root copy t)"
    using dj(1) pb by (subst write_node_simps, subst stored_upd_other) (auto simp: blocks_set_root)
  ultimately have "stored d (bt_type s) (bt_nodes ?s3) h (plug G (set_root copy t))"
    using stored_plug [of d "bt_type s" "bt_nodes ?s3" h0 G "set_root copy t"] h0(1) by simp
  moreover have "view_root ?s3 = root_of (plug G (set_root copy t))"
  proof -
    have "view_root ?s3 = view_root s" by (simp add: view_root_def assms(5))
    also have "\<dots> = root_of (plug G t)" using assms(1) unfolding holds_def by blast
    finally show ?thesis unfolding root_plug assms(4) by simp
  qed
  moreover have "distinct (blocks (plug G (set_root copy t)) @ rest)" "0 \<notin> set (blocks (plug G (set_root copy t)) @ rest)"
    using dj(1,2) unfolding set_append set_blocks_plug distinct_append distinct_blocks_plug blocks_set_root by auto
  ultimately show ?thesis using pn(1) by (simp add: holds_def assms(5))
qed


section \<open>The copies along a path\<close>

definition cow_done :: "dims \<Rightarrow> nat \<Rightarrow> ('k, 'v) frame list \<Rightarrow> ('k, 'v) frame list \<Rightarrow> ('k \<times> 'v) list \<Rightarrow> ('k, 'v) btree \<Rightarrow>
    (btree_error + nat list) \<times> ('k, 'v) btree \<Rightarrow> bool" where
  "cow_done d h gs fs kvs s res \<longleftrightarrow> (\<exists>fs' lb' s'. res = (Inr (lb' # map frame_block fs' @ map frame_block gs), s') \<and>
     map snd fs' = map snd fs \<and> holds d h (plug gs (plug fs' (Lf lb' kvs))) s' \<and> bt_type s' = bt_type s \<and>
     bt_fast s' = bt_fast s \<and> bt_range s' = bt_range s \<and> bt_epoch s' = bt_epoch s \<and> bt_frozen_view s' = bt_frozen_view s \<and>
     length (bt_fresh s) - (length fs + 1) \<le> length (bt_fresh s'))"

text \<open>The state after the loop has handled the root of the remaining subtree, and the block it then uses for it.\<close>

lemma cow_one:
  assumes "holds d h (plug gs t) s" "bt_fresh s \<noteq> []"
  obtains b s' where "holds d h (plug gs (set_root b t)) s'"
    "cow_loop d allocate_block barrier (map frame_block gs) (root_of t # rest) s =
       cow_loop d allocate_block barrier (b # map frame_block gs) rest s'"
    "bt_type s' = bt_type s" "bt_fast s' = bt_fast s" "bt_range s' = bt_range s" "bt_epoch s' = bt_epoch s"
    "bt_frozen_view s' = bt_frozen_view s" "length (bt_fresh s) - 1 \<le> length (bt_fresh s')"
proof -
  obtain copy fr where fresh: "bt_fresh s = copy # fr" using assms(2) by (cases "bt_fresh s") auto
  obtain h0 where "stored d (bt_type s) (bt_nodes s) h0 t"
    using stored_plug_level assms(1) unfolding holds_def by blast
  then obtain n where n: "read_node d (root_of t) s = Inr n" "bt_nodes s (root_of t) = Some n" by (rule read_stored)
  show ?thesis
  proof (cases "barrier < bn_gen n")
    case True
    then show ?thesis using assms(1) n(1) by (intro that [of "root_of t" s]) simp_all
  next
    case False
    show ?thesis
    proof (cases gs)
      case Nil
      let ?s2 = "write_node copy n (s\<lparr>bt_fresh := fr\<rparr>)"
      let ?s3 = "?s2\<lparr>bt_root := copy, bt_ctx := set_root_cell (bt_type ?s2) copy (bt_ctx ?s2)\<rparr>"
      have "holds d h (plug gs (set_root copy t)) ?s3" using cow_root_ok [OF _ n(2) fresh refl] assms(1) Nil by simp
      then show ?thesis using Nil False n(1) fresh by (intro that [of copy ?s3]) (simp_all add: Let_def)
    next
      case (Cons g gs')
      obtain pb ls ta where g: "gs = (pb, ls, ta) # gs'" using Cons by (cases g) auto
      let ?s2 = "write_node copy (n\<lparr>bn_parent := pb\<rparr>) (s\<lparr>bt_fresh := fr\<rparr>)"
      obtain pn where pn: "read_node d pb ?s2 = Inr pn"
        "holds d h (plug gs (set_root copy t)) (write_node pb (replace_child_ptr (root_of t) copy pn) ?s2)"
        using cow_inner_ok [OF assms(1) n(2) fresh g refl] by blast
      then show ?thesis using g False n(1) fresh
        by (intro that [of copy "write_node pb (replace_child_ptr (root_of t) copy pn) ?s2"]) (simp_all add: Let_def)
    qed
  qed
qed

lemma cow_loop_ok:
  assumes "holds d h (plug gs (plug fs (Lf lb kvs))) s" "length fs < length (bt_fresh s)"
  shows "cow_done d h gs fs kvs s (cow_loop d allocate_block barrier (map frame_block gs) (rev (lb # map frame_block fs)) s)"
  using assms
proof (induction fs arbitrary: gs s rule: rev_induct)
  case Nil
  have "bt_fresh s \<noteq> []" "holds d h (plug gs (Lf lb kvs)) s" using Nil by auto
  from cow_one [OF this(2,1), of barrier "[]"] obtain b s' where "holds d h (plug gs (Lf b kvs)) s'"
    "cow_loop d allocate_block barrier (map frame_block gs) [lb] s = (Inr (b # map frame_block gs), s')"
    "bt_type s' = bt_type s" "bt_fast s' = bt_fast s" "bt_range s' = bt_range s" "bt_epoch s' = bt_epoch s"
    "bt_frozen_view s' = bt_frozen_view s" "length (bt_fresh s) - 1 \<le> length (bt_fresh s')" by auto
  then show ?case unfolding cow_done_def by (intro exI [of _ "[]"] exI [of _ b] exI [of _ s']) simp
next
  case (snoc f fs)
  obtain b ls ta where f: "f = (b, ls, ta)" by (cases f)
  let ?sub = "plug fs (Lf lb kvs)"
  let ?t = "Nd b (with_front ls (with_tail ?sub ta))"
  have "holds d h (plug gs ?t) s" "bt_fresh s \<noteq> []" using snoc.prems f by (auto simp: plug_append)
  from cow_one [OF this, of barrier "rev (lb # map frame_block fs)"] obtain b' s' where
    s': "holds d h (plug ((b', ls, ta) # gs) ?sub) s'"
    "cow_loop d allocate_block barrier (map frame_block gs) (b # rev (lb # map frame_block fs)) s =
       cow_loop d allocate_block barrier (map frame_block ((b', ls, ta) # gs)) (rev (lb # map frame_block fs)) s'"
    "bt_type s' = bt_type s" "bt_fast s' = bt_fast s" "bt_range s' = bt_range s" "bt_epoch s' = bt_epoch s"
    "bt_frozen_view s' = bt_frozen_view s" "length (bt_fresh s) - 1 \<le> length (bt_fresh s')" by auto
  have "length fs < length (bt_fresh s')" using s'(8) snoc.prems(2) by simp
  from snoc.IH [OF s'(1) this] obtain fs' lb' s'' where
    "cow_loop d allocate_block barrier (map frame_block ((b', ls, ta) # gs)) (rev (lb # map frame_block fs)) s' =
       (Inr (lb' # map frame_block fs' @ map frame_block ((b', ls, ta) # gs)), s'')"
    "map snd fs' = map snd fs" "holds d h (plug ((b', ls, ta) # gs) (plug fs' (Lf lb' kvs))) s''"
    "bt_type s'' = bt_type s'" "bt_fast s'' = bt_fast s'" "bt_range s'' = bt_range s'" "bt_epoch s'' = bt_epoch s'"
    "bt_frozen_view s'' = bt_frozen_view s'" "length (bt_fresh s') - (length fs + 1) \<le> length (bt_fresh s'')"
    unfolding cow_done_def by blast
  then show ?case using s' f unfolding cow_done_def
    by (intro exI [of _ "fs' @ [(b', ls, ta)]"] exI [of _ lb'] exI [of _ s'']) (simp add: plug_append)
qed

lemma cow_path_ok:
  assumes "holds d h (plug fs (Lf lb kvs)) s" "length fs < length (bt_fresh s)"
  shows "cow_done d h [] fs kvs s (cow_path d allocate_block (lb # map frame_block fs) s)"
proof (cases "0 < cow_barrier_of s \<and> is_frozen_tree (bt_type s)")
  case True
  then show ?thesis using cow_loop_ok [of d h "[]" fs lb kvs s "cow_barrier_of s"] assms
    by (simp add: cow_path_def cow_descent_path_def)
next
  case False
  then show ?thesis using assms unfolding cow_done_def
    by (intro exI [of _ fs] exI [of _ lb] exI [of _ s]) (auto simp: cow_path_def)
qed

end
