(* ===== verification/Btree_Insert.thy ===== *)
theory Btree_Insert
  imports Btree_Cow
begin

text \<open>
  Inserts and removals on an image that holds a tree: both fast paths of an insert, the insertion into a leaf, the split of a
  full one, and the removal.
\<close>

section \<open>Writing a leaf\<close>

lemma write_leaf_ok:
  assumes "holds d h (plug fs (Lf lb kvs)) s" "bn_type n = bt_type s" "bn_level n = 0" "bn_leaf n = kvs'" "length kvs' < max_leaf_items d"
  shows "holds d h (plug fs (Lf lb kvs')) (write_node lb n s)"
proof -
  obtain h0 where h0: "h = h0 + length fs" "frames_stored d (bt_type s) (bt_nodes s) h0 fs lb" "stored d (bt_type s) (bt_nodes s) h0 (Lf lb kvs)"
    using stored_plug_level assms(1) unfolding holds_def by (metis root_of.simps(1))
  have b: "set (blocks (plug fs (Lf lb kvs'))) = set (blocks (plug fs (Lf lb kvs)))"
    "distinct (blocks (plug fs (Lf lb kvs'))) \<longleftrightarrow> distinct (blocks (plug fs (Lf lb kvs)))"
    by (simp_all add: set_blocks_plug distinct_blocks_plug)
  have "lb \<notin> set (frames_blocks fs)" using assms(1) by (auto simp: holds_def distinct_blocks_plug)
  then have "frames_stored d (bt_type s) (bt_nodes (write_node lb n s)) h0 fs lb" using h0(2) by (simp add: stored_upd_other)
  moreover have "stored d (bt_type s) (bt_nodes (write_node lb n s)) h0 (Lf lb kvs')" using h0(3) assms(2-5) by (simp add: leaf_at_def)
  ultimately have "stored d (bt_type s) (bt_nodes (write_node lb n s)) h (plug fs (Lf lb kvs'))"
    using stored_plug [of d "bt_type s" "bt_nodes (write_node lb n s)" h0 fs "Lf lb kvs'"] h0(1) by simp
  moreover have "root_of (plug fs (Lf lb kvs')) = root_of (plug fs (Lf lb kvs))" by (simp add: root_plug)
  ultimately show ?thesis using assms(1) b same_handle_view [of s "write_node lb n s"] by (simp add: holds_def)
qed

text \<open>The leaves of a tree by their blocks.\<close>

lemma leaf_block_frames:
  "b \<in> set (leaf_blocks t) \<Longrightarrow> \<exists>fs kvs. t = plug fs (Lf b kvs)"
  and fleaf_block_frames: "b \<in> set (fleaf_blocks f) \<Longrightarrow> \<exists>ls fs kvs ta. f = with_front ls (with_tail (plug fs (Lf b kvs)) ta)"
  for t :: "('k, 'v) tree" and f :: "('k, 'v) forest"
proof (induction t and f)
  case (Lf c kvs)
  then show ?case by (intro exI [of _ "[]"] exI [of _ kvs]) simp
next
  case (Nd c f)
  then obtain ls fs kvs ta where "f = with_front ls (with_tail (plug fs (Lf b kvs)) ta)" by auto
  then show ?case by (intro exI [of _ "fs @ [(c, ls, ta)]"] exI [of _ kvs]) (simp add: plug_append)
next
  case (One t)
  then obtain fs kvs where "t = plug fs (Lf b kvs)" by auto
  then show ?case by (intro exI [of _ "[]"] exI [of _ fs] exI [of _ kvs] exI [of _ None]) simp
next
  case (More t k f)
  show ?case
  proof (cases "b \<in> set (leaf_blocks t)")
    case True
    then obtain fs kvs where "t = plug fs (Lf b kvs)" using More by auto
    then show ?thesis by (intro exI [of _ "[]"] exI [of _ fs] exI [of _ kvs] exI [of _ "Some (k, f)"]) simp
  next
    case False
    then obtain ls fs kvs ta where "f = with_front ls (with_tail (plug fs (Lf b kvs)) ta)" using More by auto
    then show ?thesis by (intro exI [of _ "(t, k) # ls"] exI [of _ fs] exI [of _ kvs] exI [of _ ta]) simp
  qed
qed

lemma last_leaf_frames:
  "\<exists>fs kvs. t = plug fs (Lf (last (leaf_blocks t)) kvs) \<and> (\<forall>f\<in>set fs. rightmost_frame f)"
  and last_fleaf_frames: "\<exists>ls fs kvs. f = with_front ls (One (plug fs (Lf (last (fleaf_blocks f)) kvs))) \<and> (\<forall>f\<in>set fs. rightmost_frame f)"
  for t :: "('k, 'v) tree" and f :: "('k, 'v) forest"
proof (induction t and f)
  case (Lf c kvs)
  then show ?case by (intro exI [of _ "[]"] exI [of _ kvs]) simp
next
  case (Nd c f)
  then obtain ls fs kvs where "f = with_front ls (One (plug fs (Lf (last (fleaf_blocks f)) kvs)))" "\<forall>f\<in>set fs. rightmost_frame f" by auto
  then show ?case by (intro exI [of _ "fs @ [(c, ls, None)]"] exI [of _ kvs]) (auto simp: plug_append)
next
  case (One t)
  then obtain fs kvs where "t = plug fs (Lf (last (leaf_blocks t)) kvs)" "\<forall>f\<in>set fs. rightmost_frame f" by auto
  then show ?case by (intro exI [of _ "[]"] exI [of _ fs] exI [of _ kvs]) simp
next
  case (More t k f)
  then obtain ls fs kvs where "f = with_front ls (One (plug fs (Lf (last (fleaf_blocks f)) kvs)))" "\<forall>f\<in>set fs. rightmost_frame f" by auto
  then show ?case by (intro exI [of _ "(t, k) # ls"] exI [of _ fs] exI [of _ kvs]) (auto simp: fleaf_blocks_ne)
qed

lemma rightmost_hole: "\<forall>f\<in>set fs. rightmost_frame f \<Longrightarrow> fst (snd (snd (hole fs))) = None"
proof (induction fs rule: hole.induct)
  case (2 b ls ta fs)
  then show ?case by (auto split: prod.splits)
qed simp

section \<open>What an update keeps\<close>

definition cache_ok :: "('k, 'v) tree \<Rightarrow> ('k, 'v) btree \<Rightarrow> bool" where
  "cache_ok t s \<longleftrightarrow>
     (\<forall>fl. bt_fast s = Some fl \<longrightarrow> fl_epoch fl = bt_epoch s \<longrightarrow> fl_block fl = last (leaf_blocks t)) \<and>
     (\<forall>rl. bt_range s = Some rl \<longrightarrow> rl_epoch rl = bt_epoch s \<longrightarrow> rl_block rl \<in> set (leaf_blocks t))"

text \<open>A tree is tight when every leaf but the leftmost starts at its separator.\<close>

definition tight_cell :: "('k, 'v) cell \<Rightarrow> bool" where
  "tight_cell c \<longleftrightarrow> (case c of (None, _, _) \<Rightarrow> True | (Some a, kvs, _) \<Rightarrow> kvs \<noteq> [] \<and> fst (hd kvs) = a)"

definition tight :: "('k, 'v) tree \<Rightarrow> bool" where
  "tight t \<longleftrightarrow> (\<forall>c\<in>set (cells None t None). tight_cell c)"

lemma leaf_put_hd:
  fixes kvs :: "('k::linorder \<times> 'v) list"
  assumes "sorted_wrt (<) (map fst kvs)" "kvs \<noteq> []" "fst (hd kvs) \<le> key"
  shows "fst (hd (leaf_put key v kvs)) = fst (hd kvs)"
proof (cases "binary_search key kvs")
  case (Inr i)
  then obtain xs v' ys where "kvs = xs @ (key, v') # ys" "i = length xs" by (rule search_found)
  then show ?thesis using Inr by (cases xs) (simp_all add: leaf_put_def)
next
  case (Inl i)
  then obtain xs ys where kvs: "kvs = xs @ ys" "i = length xs" "\<forall>x\<in>fst ` set xs. x < key" "\<forall>y\<in>fst ` set ys. key < y"
    using search_missing [OF _ assms(1)] by blast
  moreover from this have "xs \<noteq> []" using assms(2,3) by (cases ys) auto
  ultimately show ?thesis using Inl by (cases xs) (simp_all add: leaf_put_def insert_at_def)
qed

text \<open>The keys of one leaf changed: at most \<open>key\<close> is new, and its binding becomes \<open>x\<close>.\<close>

lemma leaf_update_ok:
  fixes kvs :: "('k::linorder \<times> 'v) list"
  assumes "hole fs = (pre, lo, hi, post)" "in_order (plug fs (Lf lb kvs))" "above lo key" "below key hi"
    "sorted_wrt (<) (map fst kvs')" "fst ` set kvs' \<subseteq> Set.insert key (fst ` set kvs)" "map_of kvs' = (map_of kvs)(key := x)"
    "map snd fs' = map snd fs"
  shows "in_order (plug fs' (Lf lb' kvs'))"
    and "map_of (kvs_of (plug fs' (Lf lb' kvs'))) = (map_of (kvs_of (plug fs (Lf lb kvs))))(key := x)"
proof -
  have c: "cells None (plug fs (Lf lb kvs)) None = pre @ (lo, kvs, hi) # post"
    "cells None (plug fs' (Lf lb' kvs')) None = pre @ (lo, kvs', hi) # post"
    using assms(1) hole_blocks_irrelevant [OF assms(8)] by (simp_all add: cells_plug)
  have ch: "chained None (pre @ (lo, kvs, hi) # post) None" using cells_chained [of None "plug fs (Lf lb kvs)" None] c(1) by simp
  have ok: "cells_ok (pre @ (lo, kvs, hi) # post)" using assms(2) c(1) by (simp add: in_order_def)
  show "in_order (plug fs' (Lf lb' kvs'))"
    using update_cell(1) [OF ch ok assms(3-7)] unfolding in_order_def c(2) .
  show "map_of (kvs_of (plug fs' (Lf lb' kvs'))) = (map_of (kvs_of (plug fs (Lf lb kvs))))(key := x)"
    using update_cell(2) [OF ch ok assms(3-7)] unfolding kvs_of_def c .
qed

lemma leaf_put_ok:
  fixes kvs :: "('k::linorder \<times> 'v) list"
  assumes "hole fs = (pre, lo, hi, post)" "in_order (plug fs (Lf lb kvs))" "above lo key" "below key hi" "map snd fs' = map snd fs"
  shows "in_order (plug fs' (Lf lb' (leaf_put key v kvs)))"
    and "map_of (kvs_of (plug fs' (Lf lb' (leaf_put key v kvs)))) = (map_of (kvs_of (plug fs (Lf lb kvs))))(key \<mapsto> v)"
    and "tight (plug fs (Lf lb kvs)) \<Longrightarrow> tight (plug fs' (Lf lb' (leaf_put key v kvs)))"
proof -
  have "cells_ok (cells None (plug fs (Lf lb kvs)) None)" using assms(2) by (simp add: in_order_def)
  then have s: "sorted_wrt (<) (map fst kvs)" using assms(1) by (simp add: cells_plug)
  note p = leaf_put_props [OF s, of key v]
  show "in_order (plug fs' (Lf lb' (leaf_put key v kvs)))"
    "map_of (kvs_of (plug fs' (Lf lb' (leaf_put key v kvs)))) = (map_of (kvs_of (plug fs (Lf lb kvs))))(key \<mapsto> v)"
    using leaf_update_ok [OF assms(1-4) p(1) _ p(3) assms(5)] p(2) by simp_all
  show "tight (plug fs' (Lf lb' (leaf_put key v kvs)))" if "tight (plug fs (Lf lb kvs))"
    using that assms(1,3) hole_blocks_irrelevant [OF assms(5)] p(5) leaf_put_hd [OF s, of key v]
    by (auto simp: tight_def cells_plug tight_cell_def split: option.splits)
qed


section \<open>The fast paths\<close>

text \<open>\<open>put_done d key v t s\<close>: the tree \<open>t\<close> with \<open>key\<close> bound to \<open>v\<close> is held by \<open>s\<close>.\<close>

definition put_done :: "dims \<Rightarrow> nat \<Rightarrow> 'k::linorder \<Rightarrow> 'v \<Rightarrow> ('k, 'v) tree \<Rightarrow> ('k, 'v) btree \<Rightarrow> bool" where
  "put_done d h key v t s \<longleftrightarrow> (\<exists>t'. represents d h t' s \<and> cache_ok t' s \<and> map_of (kvs_of t') = (map_of (kvs_of t))(key \<mapsto> v) \<and>
     (tight t \<longrightarrow> tight t'))"

lemma represents_leaf:
  assumes "represents d h (plug fs (Lf lb kvs)) s"
  obtains n where "read_node d lb s = Inr n" "bt_nodes s lb = Some n" "bn_type n = bt_type s" "bn_level n = 0" "bn_leaf n = kvs"
    "item_count n = length kvs" "length kvs < max_leaf_items d" "sorted_wrt (<) (map fst kvs)"
proof -
  obtain h0 where "stored d (bt_type s) (bt_nodes s) h0 (Lf lb kvs)"
    using stored_plug_level assms unfolding represents_def by blast
  then have "leaf_at d (bt_type s) (bt_nodes s) lb kvs" by simp
  then obtain n where n: "read_node d lb s = Inr n" "bt_nodes s lb = Some n" "bn_type n = bt_type s" "bn_level n = 0" "bn_leaf n = kvs"
    "item_count n = length kvs" "length kvs < max_leaf_items d" by (rule read_leaf)
  have "cells_ok (cells None (plug fs (Lf lb kvs)) None)" using assms by (simp add: represents_def in_order_def)
  then have "sorted_wrt (<) (map fst kvs)" by (cases "hole fs") (simp add: cells_plug)
  then show ?thesis using that n by blast
qed

lemma leaf_put_write:
  assumes "represents d h (plug fs (Lf lb kvs)) s" "hole fs = (pre, lo, hi, post)" "above lo key" "below key hi"
    "bn_type n = bt_type s" "bn_level n = 0" "bn_leaf n = leaf_put key v kvs" "length (leaf_put key v kvs) < max_leaf_items d"
    "cache_ok (plug fs (Lf lb kvs)) s"
  shows "put_done d h key v (plug fs (Lf lb kvs)) (write_node lb n s)"
proof -
  let ?t = "plug fs (Lf lb (leaf_put key v kvs))"
  have "holds d h (plug fs (Lf lb kvs)) s" and o: "in_order (plug fs (Lf lb kvs))" using assms(1) by (simp_all add: represents_holds)
  from write_leaf_ok [OF this(1) assms(5-8)] leaf_put_ok [OF assms(2) o assms(3,4) refl, of lb v]
  have "represents d h ?t (write_node lb n s)" "map_of (kvs_of ?t) = (map_of (kvs_of (plug fs (Lf lb kvs))))(key \<mapsto> v)"
    "tight (plug fs (Lf lb kvs)) \<longrightarrow> tight ?t" by (simp_all add: represents_holds)
  moreover have "cache_ok ?t (write_node lb n s)" using assms(9) by (simp add: cache_ok_def leaf_blocks_plug split: prod.splits)
  ultimately show ?thesis unfolding put_done_def by blast
qed

lemma represents_drop_cache [simp]:
  "represents d h t (s\<lparr>bt_range := x\<rparr>) \<longleftrightarrow> represents d h t s" "represents d h t (s\<lparr>bt_fast := y\<rparr>) \<longleftrightarrow> represents d h t s"
  by (simp_all add: represents_def view_root_def)

lemma view_root_simps [simp]:
  "view_root (s\<lparr>bt_range := x\<rparr>) = view_root s" "view_root (s\<lparr>bt_fast := y\<rparr>) = view_root s"
  "view_root (write_node b n s) = view_root s"
  by (simp_all add: view_root_def)

lemma range_update_ok:
  assumes "represents d h t s" "cache_ok t s" "range_update d key v s = (b, s')"
  shows "bt_fresh s' = bt_fresh s \<and> (if b then put_done d h key v t s' else represents d h t s' \<and> cache_ok t s')"
proof (cases b)
  case True
  then obtain rl n i where rl: "bt_range s = Some rl" "rl_epoch rl = bt_epoch s" "read_node d (rl_block rl) s = Inr n" "bn_level n = 0"
    "binary_search key (bn_leaf n) = Inr i" and s': "s' = write_node (rl_block rl) (n\<lparr>bn_leaf := (bn_leaf n)[i := (key, v)]\<rparr>) s"
    using assms(3) by (auto simp: range_update_def split: option.splits if_splits sum.splits)
  have "rl_block rl \<in> set (leaf_blocks t)" using assms(2) rl by (simp add: cache_ok_def)
  then obtain fs kvs where t: "t = plug fs (Lf (rl_block rl) kvs)" using leaf_block_frames by blast
  obtain m where m: "read_node d (rl_block rl) s = Inr m" "bt_nodes s (rl_block rl) = Some m" "bn_type m = bt_type s" "bn_level m = 0"
    "bn_leaf m = kvs" "item_count m = length kvs" "length kvs < max_leaf_items d" "sorted_wrt (<) (map fst kvs)"
    by (rule represents_leaf [OF assms(1) [unfolded t]])
  have n: "n = m" using m(1) rl(3) by simp
  obtain pre lo hi post where hole: "hole fs = (pre, lo, hi, post)" by (cases "hole fs")
  obtain xs v' ys where kvs: "kvs = xs @ (key, v') # ys" "i = length xs" using search_found rl(5) n m(5) by metis
  have "cells_ok (cells None t None)" using assms(1) by (simp add: represents_def in_order_def)
  then have "above lo key" "below key hi" using hole kvs(1) by (simp_all add: t cells_plug)
  moreover have "leaf_put key v kvs = kvs[i := (key, v)]" using rl(5) n m(5) by (simp add: leaf_put_def)
  ultimately show ?thesis using leaf_put_write [OF assms(1) [unfolded t] hole, of key "n\<lparr>bn_leaf := kvs[i := (key, v)]\<rparr>" v] True
      assms(2) m n by (simp add: s' t)
next
  case False
  then have "s' = s \<or> s' = s\<lparr>bt_range := None\<rparr>"
    using assms(3) by (auto simp: range_update_def split: option.splits if_splits sum.splits)
  then show ?thesis using assms(1,2) False by (auto simp: cache_ok_def)
qed

lemma leaf_put_append:
  fixes kvs :: "('k::linorder \<times> 'v) list"
  assumes "sorted_wrt (<) (map fst kvs)" "kvs \<noteq> []" "fst (last kvs) < key"
  shows "leaf_put key v kvs = kvs @ [(key, v)]"
proof -
  obtain ys a b where kvs: "kvs = ys @ [(a, b)]" using assms(2) by (cases kvs rule: rev_cases) auto
  have "fst x < key" if "x \<in> set kvs" for x
    using that sorted_split(1) [OF assms(1), of ys a b "[]"] assms(3) by (fastforce simp: kvs)
  then have p: "position (\<lambda>kv. fst kv = key) kvs = None" and w: "takeWhile (\<lambda>kv. fst kv < key) kvs = kvs"
    by (auto simp: position_None_iff)
  show ?thesis by (simp only: leaf_put_def binary_search_def insert_at_def p w) simp
qed


lemma fast_append_ok:
  assumes "represents d h t s" "cache_ok t s" "fast_append d key v s = (b, s')"
  shows "bt_fresh s' = bt_fresh s \<and> (if b then put_done d h key v t s' else represents d h t s' \<and> cache_ok t s')"
proof (cases b)
  case True
  then obtain fl n where fl: "bt_fast s = Some fl" "fl_epoch fl = bt_epoch s" "read_node d (fl_block fl) s = Inr n" "fl_last_key fl < key"
    "0 < fl_count fl" "fl_count fl < max_leaf_items d - 1" "item_count n = fl_count fl" "fst (bn_leaf n ! (fl_count fl - 1)) = fl_last_key fl"
    and s': "s' = (write_node (fl_block fl) (n\<lparr>bn_leaf := bn_leaf n @ [(key, v)]\<rparr>) s)\<lparr>bt_fast := Some \<lparr>fl_block = fl_block fl,
      fl_last_key = key, fl_count = fl_count fl + 1, fl_epoch = fl_epoch fl\<rparr>\<rparr>"
    using assms(3) by (auto simp: fast_append_def Let_def split: option.splits if_splits sum.splits)
  have b: "fl_block fl = last (leaf_blocks t)" using assms(2) fl by (simp add: cache_ok_def)
  then obtain fs kvs where t: "t = plug fs (Lf (fl_block fl) kvs)" and right: "\<forall>f\<in>set fs. rightmost_frame f"
    using last_leaf_frames [of t] by auto
  obtain m where m: "read_node d (fl_block fl) s = Inr m" "bt_nodes s (fl_block fl) = Some m" "bn_type m = bt_type s" "bn_level m = 0"
    "bn_leaf m = kvs" "item_count m = length kvs" "length kvs < max_leaf_items d" "sorted_wrt (<) (map fst kvs)"
    by (rule represents_leaf [OF assms(1) [unfolded t]])
  have n: "n = m" using m(1) fl(3) by simp
  have len: "length kvs = fl_count fl" using fl(7) n m(6) by simp
  then have ne: "kvs \<noteq> []" using fl(5) by auto
  then have "last kvs = bn_leaf n ! (fl_count fl - 1)" using len n m(5) by (simp add: last_conv_nth)
  then have kvs: "kvs \<noteq> []" "fst (last kvs) < key" using fl(4,8) ne by simp_all
  obtain pre lo hi post where hole: "hole fs = (pre, lo, hi, post)" by (cases "hole fs")
  have "cells_ok (cells None t None)" using assms(1) by (simp add: represents_def in_order_def)
  then have "above lo (fst (last kvs))" using hole kvs(1) by (simp add: t cells_plug)
  then have "above lo key" "below key hi" using kvs(2) rightmost_hole [OF right] hole by (cases lo; simp)+
  moreover have "leaf_put key v kvs = kvs @ [(key, v)]" by (rule leaf_put_append [OF m(8) kvs])
  ultimately have "put_done d h key v t (write_node (fl_block fl) (n\<lparr>bn_leaf := bn_leaf n @ [(key, v)]\<rparr>) s)"
    using leaf_put_write [OF assms(1) [unfolded t] hole, of key "n\<lparr>bn_leaf := bn_leaf n @ [(key, v)]\<rparr>" v] assms(2) m n fl(6,7)
    by (simp add: t)
  then obtain t' where t': "represents d h t' (write_node (fl_block fl) (n\<lparr>bn_leaf := bn_leaf n @ [(key, v)]\<rparr>) s)"
    "cache_ok t' (write_node (fl_block fl) (n\<lparr>bn_leaf := bn_leaf n @ [(key, v)]\<rparr>) s)"
    "map_of (kvs_of t') = (map_of (kvs_of t))(key \<mapsto> v)" "tight t \<longrightarrow> tight t'" unfolding put_done_def by blast
  then have "cache_ok t' s'" using fl(1,2) by (simp add: cache_ok_def s')
  then show ?thesis using t' True unfolding put_done_def by (auto simp: s')
next
  case False
  then have "s' = s \<or> s' = s\<lparr>bt_fast := None\<rparr>"
    using assms(3) by (auto simp: fast_append_def Let_def split: option.splits if_splits sum.splits)
  then show ?thesis using assms(1,2) False by (auto simp: cache_ok_def)
qed

section \<open>The descent\<close>

lemma put_in_leaf_fresh [simp]: "bt_fresh (put_in_leaf b n rm key v s) = bt_fresh s"
  by (simp add: put_in_leaf_def Let_def refresh_fast_leaf_if_rightmost_def)

lemma put_in_leaf_ok:
  assumes "holds d h (plug fs' (Lf lb' kvs)) s" "in_order (plug fs (Lf lb kvs))" "hole fs = (pre, lo, hi, post)" "above lo key" "below key hi"
    "map snd fs' = map snd fs" "bn_type n = bt_type s" "bn_level n = 0" "bn_leaf n = kvs" "length kvs + 1 < max_leaf_items d"
    "cache_ok (plug fs (Lf lb kvs)) s" "rm \<longleftrightarrow> (\<forall>f\<in>set fs. rightmost_frame f)"
  shows "put_done d h key v (plug fs (Lf lb kvs)) (put_in_leaf lb' n rm key v s)"
proof -
  let ?t = "plug fs' (Lf lb' (leaf_put key v kvs))" and ?s = "put_in_leaf lb' n rm key v s"
  have "sorted_wrt (<) (map fst kvs)" using assms(2,3) by (simp add: in_order_def cells_plug)
  then have len: "length (leaf_put key v kvs) < max_leaf_items d" using leaf_put_props(4) [of kvs key v] assms(10) by simp
  have "holds d h ?t (write_node lb' (n\<lparr>bn_leaf := leaf_put key v kvs\<rparr>) s)"
    using write_leaf_ok [OF assms(1) _ _ _ len] assms(7,8) by simp
  then have "holds d h ?t ?s"
    using assms(9) by (simp add: put_in_leaf_def Let_def holds_def refresh_fast_leaf_if_rightmost_def)
  moreover obtain lpre lpost where lh: "leaf_hole fs = (lpre, lpost)" by (cases "leaf_hole fs")
  have lb: "leaf_blocks ?t = lpre @ lb' # lpost" "leaf_blocks (plug fs (Lf lb kvs)) = lpre @ lb # lpost"
    using lh hole_blocks_irrelevant [OF assms(6)] by (simp_all add: leaf_blocks_plug)
  have "rm \<longleftrightarrow> lpost = []" using leaf_hole_post [of fs] lh assms(12) by simp
  then have "cache_ok ?t ?s" using assms(11) lb
    by (auto simp: cache_ok_def put_in_leaf_def Let_def refresh_fast_leaf_if_rightmost_def)
  moreover note leaf_put_ok [OF assms(3,2,4,5,6), of lb' v]
  ultimately show ?thesis unfolding put_done_def represents_holds by blast
qed

lemma split_cell_ok:
  fixes xs ys :: "('k::linorder \<times> 'v) list"
  assumes "cell_ok (lo, xs @ ys, hi)" "xs \<noteq> []" "ys \<noteq> []"
  shows "cell_ok (lo, xs, Some (fst (hd ys)))" "cell_ok (Some (fst (hd ys)), ys, hi)"
    "tight_cell (lo, xs @ ys, hi) \<Longrightarrow> tight_cell (lo, xs, Some (fst (hd ys))) \<and> tight_cell (Some (fst (hd ys)), ys, hi)"
proof -
  obtain key v ys' where y: "ys = (key, v) # ys'" using assms(3) by (cases ys) auto
  obtain a x xs' where x: "xs = (a, x) # xs'" using assms(2) by (cases xs) auto
  have ok: "sorted_wrt (<) (map fst xs)" "sorted_wrt (<) (map fst ys)" "\<forall>p\<in>set xs. fst p < key"
    "\<forall>k\<in>fst ` set xs. above lo k \<and> below k hi" "\<forall>k\<in>fst ` set ys. above lo k \<and> below k hi"
    using assms(1) by (auto simp: sorted_wrt_append y)
  have "above lo a" "a < key" "below key hi" using ok(3-5) by (simp_all add: x y)
  then have b: "bounds_ok lo (Some key)" "bounds_ok (Some key) hi" by (cases lo; cases hi; simp)+
  show "cell_ok (lo, xs, Some (fst (hd ys)))" using ok(1,3,4) b by (simp add: y)
  show "cell_ok (Some (fst (hd ys)), ys, hi)" using ok(2,5) b by (auto simp: y)
  show "tight_cell (lo, xs, Some (fst (hd ys))) \<and> tight_cell (Some (fst (hd ys)), ys, hi)" if "tight_cell (lo, xs @ ys, hi)"
    using that by (cases lo) (simp_all add: tight_cell_def x y)
qed

end
