(* ===== verification/Btree_Ops.thy ===== *)
theory Btree_Ops
  imports Btree_Insert
begin

text \<open>
  The operations of the B-tree as a map: the split of a full leaf, the insert with its one retry, the removal, the traversal and
  the floor lookup.
\<close>

section \<open>The split of a leaf\<close>

lemma relink_next_ok:
  "same_handle s (relink_next d lb rb nx s)" "bt_fresh (relink_next d lb rb nx s) = bt_fresh s"
  "same_content (bt_nodes s b) (bt_nodes (relink_next d lb rb nx s) b)"
  by (auto simp: relink_next_def same_content_upd dest: read_nodeD split: sum.splits)

lemma split_leaf_run:
  assumes "bt_fresh s = rb # rest" "bn_level n = 0" "2 \<le> length (bn_leaf n)" "mid = length (bn_leaf n) div 2"
    "s2 = relink_next d lb rb (bn_next n) ((bump_epoch s)\<lparr>bt_fast := None, bt_range := None, bt_fresh := rest\<rparr>)"
    "s3 = write_node lb (n\<lparr>bn_next := rb, bn_leaf := take mid (bn_leaf n)\<rparr>)
       (write_node rb ((node_new 0 (bt_type s))\<lparr>bn_next := bn_next n, bn_prev := lb, bn_leaf := drop mid (bn_leaf n)\<rparr>) s2)"
  shows "split_leaf d lb n (map frame_block fs) s =
    insert_into_parent d (parent_of fs) lb (fst (hd (drop mid (bn_leaf n)))) rb (map frame_block (tl fs)) s3"
proof -
  have "drop mid (bn_leaf n) \<noteq> []" using assms(3,4) by simp
  then show ?thesis using assms(1,2,4) unfolding assms(5,6)
    by (cases fs) (simp_all add: split_leaf_def Let_def bump_epoch_def item_count_def del: drop_eq_Nil)
qed

lemma split_leaf_ok:
  assumes "holds d h (plug fs (Lf lb kvs)) s" "in_order (plug fs (Lf lb kvs))" "hole fs = (pre, lo, hi, post)"
    "bn_type n = bt_type s" "bn_level n = 0" "bn_leaf n = kvs" "2 \<le> length kvs" "length fs + 1 < length (bt_fresh s)"
    "2 \<le> max_internal_items d" "h + 1 < 2 ^ 16" "xs = take (length kvs div 2) kvs" "ys = drop (length kvs div 2) kvs"
  obtains t' h' s' where "split_leaf d lb n (map frame_block fs) s = (Inr None, s')" "represents d h' t' s'" "h' \<le> h + 1"
    "cells None t' None = pre @ (lo, xs, Some (fst (hd ys))) # (Some (fst (hd ys)), ys, hi) # post"
    "bt_fast s' = None" "bt_range s' = None" "bt_type s' = bt_type s" "length (bt_fresh s) - (length fs + 2) \<le> length (bt_fresh s')"
proof -
  obtain rb rest where fresh: "bt_fresh s = rb # rest" using assms(8) by (cases "bt_fresh s") auto
  let ?s1 = "(bump_epoch s)\<lparr>bt_fast := None, bt_range := None, bt_fresh := rest\<rparr>"
  define s2 where "s2 = relink_next d lb rb (bn_next n) ?s1"
  define s3 where "s3 = write_node lb (n\<lparr>bn_next := rb, bn_leaf := xs\<rparr>)
    (write_node rb ((node_new 0 (bt_type s))\<lparr>bn_next := bn_next n, bn_prev := lb, bn_leaf := ys\<rparr>) s2)"
  let ?key = "fst (hd ys)" and ?cs = "pre @ (lo, xs, Some (fst (hd ys))) # (Some (fst (hd ys)), ys, hi) # post"
  have run: "split_leaf d lb n (map frame_block fs) s = insert_into_parent d (parent_of fs) lb ?key rb (map frame_block (tl fs)) s3"
    using split_leaf_run [OF fresh assms(5) _ _ s2_def, of "length kvs div 2" s3 fs] assms(6,7,11,12) by (simp add: s3_def)
  obtain h0 where "h = h0 + length fs" "frames_stored d (bt_type s) (bt_nodes s) h0 fs lb" "stored d (bt_type s) (bt_nodes s) h0 (Lf lb kvs)"
    using stored_plug_level assms(1) unfolding holds_def by (metis root_of.simps(1))
  then have h: "h = length fs" "frames_stored d (bt_type s) (bt_nodes s) 0 fs lb" and len: "length kvs < max_leaf_items d" by (auto simp: leaf_at_def)
  have dj: "distinct (frames_blocks fs @ [lb] @ [rb] @ rest)" "0 \<notin> set (frames_blocks fs @ [lb] @ [rb] @ rest)"
    using assms(1) by (auto simp: holds_def fresh distinct_blocks_plug set_blocks_plug)
  have s3: "same_handle ?s1 s3" "bt_fresh s3 = rest"
    using relink_next_ok(1) [where s = ?s1 and d = d and lb = lb and rb = rb and nx = "bn_next n"] relink_next_ok(2) [where s = ?s1 and d = d and lb = lb and rb = rb and nx = "bn_next n"] unfolding s3_def s2_def by (meson same_handle_trans write_node_simps(3), simp)
  have c: "same_content (bt_nodes s b) (bt_nodes s3 b)" if "b \<in> set (frames_blocks fs)" for b
    using relink_next_ok(3) [where s = ?s1 and b = b and d = d and lb = lb and rb = rb and nx = "bn_next n"] that dj(1) by (auto simp: s3_def s2_def bump_epoch_def)
  have ty: "bt_type s3 = bt_type s" using same_handle_type [OF s3(1)] by (simp add: bump_epoch_def)
  have st: "frames_stored d (bt_type s3) (bt_nodes s3) 0 fs lb" using h(2) frames_stored_cong [of fs "bt_nodes s" "bt_nodes s3"] c ty by simp
  have lr: "stored d (bt_type s3) (bt_nodes s3) 0 (Lf lb xs)" "stored d (bt_type s3) (bt_nodes s3) 0 (Lf rb ys)"
    using dj(1) assms(4,5,11,12) len ty by (auto simp: leaf_at_def s3_def node_new_def)
  have kvs: "kvs = xs @ ys" "xs \<noteq> []" "ys \<noteq> []" using assms(7,11,12) by auto
  have "cells_ok (pre @ (lo, xs @ ys, hi) # post)" using assms(2,3) kvs by (simp add: in_order_def cells_plug)
  then have ok: "cells_ok ?cs" using split_cell_ok(1,2) [OF _ kvs(2,3), of lo hi] by simp
  have "split_done d (root_of (plug fs (Lf lb xs))) ?cs (set (frames_blocks fs @ [lb] @ [rb] @ rest)) (length rest - (length fs + 1)) (h + 1) s3
    (split_leaf d lb n (map frame_block fs) s)"
    using insert_into_parent_ok [of d s3 0 fs "Lf lb xs" "Lf rb ys" pre lo hi post ?cs ?key] st lr dj assms(3,8-10) ok h(1) fresh
    unfolding run by (simp add: s3(2))
  then obtain s' t' h' where s': "split_leaf d lb n (map frame_block fs) s = (Inr None, s')" "same_handle s3 s'"
    "stored d (bt_type s3) (bt_nodes s') h' t'" "root_of t' = root_of (plug fs (Lf lb xs))" "cells None t' None = ?cs"
    "distinct (blocks t' @ bt_fresh s')" "set (blocks t' @ bt_fresh s') \<subseteq> set (frames_blocks fs @ [lb] @ [rb] @ rest)" "h' \<le> h + 1"
    "length rest - (length fs + 1) \<le> length (bt_fresh s')" unfolding split_done_def by blast
  have sh: "same_handle ?s1 s'" using s3(1) s'(2) same_handle_trans by blast
  then have f: "bt_fast s' = None" "bt_range s' = None" "bt_type s' = bt_type s" "view_root s' = view_root s"
    using same_handle_view [OF sh] by (simp_all add: same_handle_def bump_epoch_def view_root_def)
  have "represents d h' t' s'"
    using s'(3-7) f(3,4) ty dj(2) assms(1) ok by (auto simp: represents_def holds_def in_order_def root_plug)
  then show ?thesis using that [OF s'(1) _ s'(8,5) f(1-3)] s'(9) fresh by simp
qed

section \<open>Inserts\<close>

text \<open>An insert once both fast paths have passed.\<close>

definition insert_slow :: "dims \<Rightarrow> nat \<Rightarrow> 'k::linorder \<Rightarrow> 'v \<Rightarrow> ('k, 'v) btree \<Rightarrow> (btree_error + unit) \<times> ('k, 'v) btree" where
  "insert_slow d fuel key v s =
     (case descend d (Suc fuel) key (view_root s) [] True s of Inl e \<Rightarrow> (Inl e, s)
      | Inr (path, n, rightmost) \<Rightarrow>
          (case cow_path d allocate_block path s of (Inl e, s4) \<Rightarrow> (Inl e, s4)
           | (Inr path', s4) \<Rightarrow>
               if max_leaf_items d - 1 \<le> item_count n
               then (case split_leaf d (hd path') n (tl path') s4 of
                       (Inl e, s5) \<Rightarrow> (Inl e, s5)
                     | (Inr new_root, s5) \<Rightarrow>
                         btree_insert d fuel key v (case new_root of Some r \<Rightarrow> s5\<lparr>bt_root := r\<rparr> | None \<Rightarrow> s5))
               else (Inr (), put_in_leaf (hd path') n rightmost key v s4)))"

lemma view_root_sync [simp]: "view_root (s\<lparr>bt_root := view_root s\<rparr>) = view_root s"
  by (simp add: view_root_def effective_root_def split: option.splits)

lemma sync_root [simp]:
  "represents d h t (s\<lparr>bt_root := view_root s\<rparr>) \<longleftrightarrow> represents d h t s" "cache_ok t (s\<lparr>bt_root := r\<rparr>) \<longleftrightarrow> cache_ok t s"
  by (simp_all add: represents_def cache_ok_def)

lemma insert_fast_paths:
  assumes "represents d h t s" "cache_ok t s"
  shows "(\<exists>s'. btree_insert d (Suc fuel) key v s = (Inr (), s') \<and> put_done d h key v t s' \<and> bt_fresh s' = bt_fresh s) \<or>
    (\<exists>s3. btree_insert d (Suc fuel) key v s = insert_slow d fuel key v s3 \<and> represents d h t s3 \<and> cache_ok t s3 \<and> bt_fresh s3 = bt_fresh s)"
proof -
  obtain b1 s1 where r: "range_update d key v s = (b1, s1)" by (cases "range_update d key v s")
  obtain b2 s2 where f: "fast_append d key v s1 = (b2, s2)" by (cases "fast_append d key v s1")
  show ?thesis
  proof (cases "b1 \<or> b2")
    case True
    then show ?thesis using range_update_ok [OF assms r] fast_append_ok [OF _ _ f, of h t] r f by (cases b1) auto
  next
    case False
    then have "represents d h t s1" "cache_ok t s1" "bt_fresh s1 = bt_fresh s" using range_update_ok [OF assms r] by auto
    moreover from this have "represents d h t s2" "cache_ok t s2" "bt_fresh s2 = bt_fresh s"
      using fast_append_ok [OF _ _ f, of h t] False by auto
    moreover let ?s3 = "s2\<lparr>bt_root := view_root s2\<rparr>"
    have "btree_insert d (Suc fuel) key v s = insert_slow d fuel key v ?s3"
      using False r f by (simp add: insert_slow_def Let_def del: descend.simps)
    ultimately show ?thesis by (intro disjI2 exI [of _ ?s3]) (simp del: btree_insert.simps)
  qed
qed

declare btree_insert.simps [simp del]

text \<open>The state an insert is in after the descent and the copies, and what it does from there.\<close>

definition at_leaf :: "dims \<Rightarrow> nat \<Rightarrow> nat \<Rightarrow> 'k::linorder \<Rightarrow> 'v \<Rightarrow> ('k, 'v) tree \<Rightarrow> ('k, 'v) btree \<Rightarrow> ('k, 'v) frame list \<Rightarrow> nat \<Rightarrow>
    ('k, 'v) bnode \<Rightarrow> ('k, 'v) frame list \<Rightarrow> nat \<Rightarrow> ('k, 'v) btree \<Rightarrow> bool" where
  "at_leaf d h fuel key v t s fs lb n fs' lb' s4 \<longleftrightarrow>
     map snd fs' = map snd fs \<and> length fs = h \<and> holds d h (plug fs' (Lf lb' (bn_leaf n))) s4 \<and> cache_ok t s4 \<and>
     bt_type s4 = bt_type s \<and> length (bt_fresh s) - (h + 1) \<le> length (bt_fresh s4) \<and>
     insert_slow d fuel key v s =
      (if length (bn_leaf n) + 1 < max_leaf_items d
       then (Inr (), put_in_leaf lb' n (\<forall>f\<in>set fs. rightmost_frame f) key v s4)
       else (case split_leaf d lb' n (map frame_block fs') s4 of
               (Inl e, s5) \<Rightarrow> (Inl e, s5)
             | (Inr new_root, s5) \<Rightarrow> btree_insert d fuel key v (case new_root of Some r \<Rightarrow> s5\<lparr>bt_root := r\<rparr> | None \<Rightarrow> s5)))"

lemma insert_descent:
  assumes "represents d h t s" "cache_ok t s" "h < Suc fuel" "h < length (bt_fresh s)"
  obtains fs lb n pre lo hi post fs' lb' s4 where "lands key t s fs lb n pre lo hi post" "at_leaf d h fuel key v t s fs lb n fs' lb' s4"
proof -
  obtain fs lb n pre lo hi post where l: "lands key t s fs lb n pre lo hi post" "length fs = h"
    and run: "descend d (Suc fuel) key (root_of t) [] True s = Inr (lb # map frame_block fs, n, \<forall>f\<in>set fs. rightmost_frame f)"
    by (rule descend_represents [OF assms(1,3)])
  have "holds d h (plug fs (Lf lb (bn_leaf n))) s" using assms(1) landsD(1) [OF l(1)] by (simp add: represents_holds)
  from cow_path_ok [OF this] assms(4) l(2)
  obtain fs' lb' s4 where c: "cow_path d allocate_block (lb # map frame_block fs) s = (Inr (lb' # map frame_block fs'), s4)"
    "map snd fs' = map snd fs" "holds d h (plug fs' (Lf lb' (bn_leaf n))) s4" "bt_type s4 = bt_type s" "bt_fast s4 = bt_fast s"
    "bt_range s4 = bt_range s" "bt_epoch s4 = bt_epoch s" "length (bt_fresh s) - (h + 1) \<le> length (bt_fresh s4)"
    unfolding cow_done_def by auto
  have "view_root s = root_of t" using assms(1) by (simp add: represents_def)
  moreover have "max_leaf_items d - 1 \<le> length (bn_leaf n) \<longleftrightarrow> \<not> length (bn_leaf n) + 1 < max_leaf_items d" by arith
  ultimately have "at_leaf d h fuel key v t s fs lb n fs' lb' s4"
    using run c assms(2) l(2) landsD(12) [OF l(1)] unfolding at_leaf_def insert_slow_def by (simp add: cache_ok_def del: descend.simps)
  then show ?thesis using that l(1) by blast
qed

text \<open>Room for one more item in the leaf of a key.\<close>

definition roomy :: "dims \<Rightarrow> 'k::linorder \<Rightarrow> ('k, 'v) tree \<Rightarrow> bool" where
  "roomy d key t \<longleftrightarrow> (\<forall>A lo kvs hi B. cells None t None = A @ (lo, kvs, hi) # B \<longrightarrow> above lo key \<longrightarrow> below key hi \<longrightarrow>
     length kvs + 1 < max_leaf_items d)"

lemma slow_put:
  assumes "lands key t s fs lb n pre lo hi post" "at_leaf d h fuel key v t s fs lb n fs' lb' s4" "in_order t"
    "length (bn_leaf n) + 1 < max_leaf_items d"
  shows "\<exists>s'. insert_slow d fuel key v s = (Inr (), s') \<and> put_done d h key v t s' \<and> length (bt_fresh s) - (h + 1) \<le> length (bt_fresh s')"
proof -
  have a: "map snd fs' = map snd fs" "holds d h (plug fs' (Lf lb' (bn_leaf n))) s4" "cache_ok t s4" "bt_type s4 = bt_type s" "length (bt_fresh s) - (h + 1) \<le> length (bt_fresh s4)"
    "insert_slow d fuel key v s = (Inr (), put_in_leaf lb' n (\<forall>f\<in>set fs. rightmost_frame f) key v s4)"
    using assms(2,4) by (simp_all add: at_leaf_def)
  have "put_done d h key v t (put_in_leaf lb' n (\<forall>f\<in>set fs. rightmost_frame f) key v s4)"
    using put_in_leaf_ok [OF a(2) _ landsD(5-7) [OF assms(1)] a(1), of lb n "\<forall>f\<in>set fs. rightmost_frame f" v]
      assms(3,4) a(3,4) landsD(1,3,4) [OF assms(1)] by simp
  then show ?thesis using a(5,6) by simp
qed

lemma insert_roomy:
  assumes "represents d h t s" "cache_ok t s" "h < Suc fuel" "h < length (bt_fresh s)" "roomy d key t"
  shows "\<exists>s'. btree_insert d (Suc fuel) key v s = (Inr (), s') \<and> put_done d h key v t s' \<and> length (bt_fresh s) - (h + 1) \<le> length (bt_fresh s')"
  using insert_fast_paths [OF assms(1,2), of fuel key v]
proof (elim disjE exE conjE)
  fix s3 assume s3: "btree_insert d (Suc fuel) key v s = insert_slow d fuel key v s3" "represents d h t s3" "cache_ok t s3" "bt_fresh s3 = bt_fresh s"
  have fr: "h < length (bt_fresh s3)" using assms(4) s3(4) by simp
  obtain fs lb n pre lo hi post fs' lb' s4 where l: "lands key t s3 fs lb n pre lo hi post" "at_leaf d h fuel key v t s3 fs lb n fs' lb' s4"
    by (rule insert_descent [OF s3(2,3) assms(3) fr])
  have "length (bn_leaf n) + 1 < max_leaf_items d" using assms(5) landsD(6-8) [OF l(1)] unfolding roomy_def by blast
  then show ?thesis using slow_put [OF l] assms(1) s3(1,4) by (simp add: represents_def)
next
  fix s' assume "btree_insert d (Suc fuel) key v s = (Inr (), s')" "put_done d h key v t s'" "bt_fresh s' = bt_fresh s"
  then show ?thesis by simp
qed

lemma split_roomy:
  fixes kvs :: "('k::linorder \<times> 'v) list"
  assumes "cells None t' None = pre @ (lo, xs, Some k) # (Some k, ys, hi) # post" "in_order t'" "above lo key" "below key hi"
    "length xs + 1 < max_leaf_items d" "length ys + 1 < max_leaf_items d"
  shows "roomy d key t'"
  unfolding roomy_def
proof (intro allI impI)
  fix A lo' kvs hi' B
  assume c: "cells None t' None = A @ (lo', kvs, hi') # B" and k: "above lo' key" "below key hi'"
  have ch: "chained None (A @ (lo', kvs, hi') # B) None" "cells_ok (A @ (lo', kvs, hi') # B)"
    using cells_chained [of None t' None] assms(2) c by (simp_all add: in_order_def)
  show "length kvs + 1 < max_leaf_items d"
  proof (cases "key < k")
    case True
    have "A @ (lo', kvs, hi') # B = pre @ (lo, xs, Some k) # ((Some k, ys, hi) # post)" using c assms(1) by simp
    from cell_unique [OF ch this k assms(3)] True assms(5) show ?thesis by simp
  next
    case False
    have "A @ (lo', kvs, hi') # B = (pre @ [(lo, xs, Some k)]) @ (Some k, ys, hi) # post" using c assms(1) by simp
    from cell_unique [OF ch this k _ assms(4)] False assms(6) show ?thesis by simp
  qed
qed

lemma insert_split:
  assumes "lands key t s fs lb n pre lo hi post" "at_leaf d h (Suc f) key v t s fs lb n fs' lb' s4" "represents d h t s"
    "max_leaf_items d \<le> length (bn_leaf n) + 1" "3 \<le> max_leaf_items d" "2 \<le> max_internal_items d" "h + 1 < 2 ^ 16"
    "h < f" "3 * h + 5 \<le> length (bt_fresh s)"
  shows "\<exists>h' s'. insert_slow d (Suc f) key v s = (Inr (), s') \<and> h' \<le> h + 1 \<and> put_done d h' key v t s' \<and>
    length (bt_fresh s) - (3 * h + 5) \<le> length (bt_fresh s')"
proof -
  let ?xs = "take (length (bn_leaf n) div 2) (bn_leaf n)" and ?ys = "drop (length (bn_leaf n) div 2) (bn_leaf n)"
  have a: "map snd fs' = map snd fs" "length fs = h" "holds d h (plug fs' (Lf lb' (bn_leaf n))) s4" "bt_type s4 = bt_type s"
    "length (bt_fresh s) - (h + 1) \<le> length (bt_fresh s4)"
    using assms(2) by (simp_all add: at_leaf_def)
  have len: "length fs' = h" using a(1,2) by (metis length_map)
  note l = landsD [OF assms(1)]
  have hole: "hole fs' = (pre, lo, hi, post)" using l(5) hole_blocks_irrelevant [OF a(1)] by simp
  have o: "in_order (plug fs' (Lf lb' (bn_leaf n)))" using l(9) hole by (simp add: in_order_def cells_plug)
  have ll: "2 \<le> length (bn_leaf n)" "length fs' + 1 < length (bt_fresh s4)" "bn_type n = bt_type s4" using assms(4,5,9) a(4,5) l(3) len by simp_all
  obtain t' h' s5 where s5: "split_leaf d lb' n (map frame_block fs') s4 = (Inr None, s5)" "represents d h' t' s5" "h' \<le> h + 1"
    "cells None t' None = pre @ (lo, ?xs, Some (fst (hd ?ys))) # (Some (fst (hd ?ys)), ?ys, hi) # post"
    "bt_fast s5 = None" "bt_range s5 = None" "bt_type s5 = bt_type s4" "length (bt_fresh s4) - (length fs' + 2) \<le> length (bt_fresh s5)"
    by (rule split_leaf_ok [OF a(3) o hole ll(3) l(4) refl ll(1,2) assms(6,7) refl refl])
  have c: "cache_ok t' s5" using s5(5,6) by (simp add: cache_ok_def)
  have max: "length (bn_leaf n) < max_leaf_items d"
    using represents_leaf [OF assms(3) [unfolded l(1)]] by blast
  have kv: "kvs_of t' = kvs_of t" using s5(4) l(8) by (simp add: kvs_of_def)
  have "cell_ok (lo, ?xs @ ?ys, hi)" "?xs \<noteq> []" "?ys \<noteq> []" using l(9) ll(1) by auto
  from split_cell_ok(3) [OF this] have tg: "tight t'" if "tight t" using that l(8) by (simp add: tight_def s5(4))
  have "roomy d key t'"
    using split_roomy [OF s5(4) _ l(6,7), of d] s5(2) max assms(5) by (simp add: represents_def)
  moreover have "h' < Suc f" "h' < length (bt_fresh s5)" using s5(3,8) a(5) assms(8,9) len by linarith+
  ultimately obtain s' where "btree_insert d (Suc f) key v s5 = (Inr (), s')" "put_done d h' key v t' s'"
    "length (bt_fresh s5) - (h' + 1) \<le> length (bt_fresh s')" using insert_roomy [OF s5(2) c] by blast
  moreover from this(3) have "length (bt_fresh s) - (3 * h + 5) \<le> length (bt_fresh s')" using s5(3,8) a(5) len by linarith
  ultimately show ?thesis using assms(2,4) s5(1,3) kv tg unfolding at_leaf_def by (intro exI [of _ h'] exI [of _ s']) (auto simp: put_done_def)
qed

lemma insert_ok:
  assumes "represents d h t s" "cache_ok t s" "3 \<le> max_leaf_items d" "2 \<le> max_internal_items d" "h + 1 < 2 ^ 16"
    "h + 2 < fuel" "3 * h + 5 \<le> length (bt_fresh s)"
  shows "\<exists>h' s'. btree_insert d fuel key v s = (Inr (), s') \<and> h' \<le> h + 1 \<and> put_done d h' key v t s' \<and>
    length (bt_fresh s) - (3 * h + 5) \<le> length (bt_fresh s')"
proof -
  define f where "f = fuel - 2"
  have fuel: "fuel = Suc (Suc f)" "h < f" using assms(6) by (simp_all add: f_def)
  from insert_fast_paths [OF assms(1,2), of "Suc f" key v] show ?thesis
  proof (elim disjE exE conjE)
    fix s3 assume s3: "btree_insert d (Suc (Suc f)) key v s = insert_slow d (Suc f) key v s3" "represents d h t s3" "cache_ok t s3" "bt_fresh s3 = bt_fresh s"
    have fr: "h < length (bt_fresh s3)" "h < Suc (Suc f)" "3 * h + 5 \<le> length (bt_fresh s3)" using assms(7) s3(4) fuel by simp_all
    obtain fs lb n pre lo hi post fs' lb' s4 where l: "lands key t s3 fs lb n pre lo hi post" "at_leaf d h (Suc f) key v t s3 fs lb n fs' lb' s4"
      by (rule insert_descent [OF s3(2,3) fr(2,1)])
    show ?thesis
    proof (cases "length (bn_leaf n) + 1 < max_leaf_items d")
      case True
      then show ?thesis using slow_put [OF l] assms(1) s3(1,4) fuel by (fastforce simp: represents_def)
    next
      case False
      then show ?thesis using insert_split [OF l s3(2) _ assms(3-5) fuel(2) fr(3)] s3(1,4) fuel by simp
    qed
  next
    fix s' assume "btree_insert d (Suc (Suc f)) key v s = (Inr (), s')" "put_done d h key v t s'" "bt_fresh s' = bt_fresh s"
    then show ?thesis using fuel by (intro exI [of _ h] exI [of _ s']) simp
  qed
qed

section \<open>Removals\<close>

definition removed :: "dims \<Rightarrow> nat \<Rightarrow> nat \<Rightarrow> 'k::linorder \<Rightarrow> ('k, 'v) tree \<Rightarrow> (btree_error + bool) \<times> ('k, 'v) btree \<Rightarrow> bool" where
  "removed d h u key t res \<longleftrightarrow> (\<exists>t' s'. res = (Inr (map_of (kvs_of t) key \<noteq> None), s') \<and> represents d h t' s' \<and> cache_ok t' s' \<and>
     map_of (kvs_of t') = (map_of (kvs_of t))(key := None) \<and> u \<le> length (bt_fresh s'))"

lemma leaf_remove_ok:
  assumes "lands key t s fs lb n pre lo hi post" "map snd fs' = map snd fs" "holds d h (plug fs' (Lf lb' (bn_leaf n))) s4"
    "bt_type s4 = bt_type s" "in_order t" "bt_fast s4 = None" "bt_range s4 = None"
  shows "removed d h (length (bt_fresh s4)) key t
    (case binary_search key (bn_leaf n) of
       Inr i \<Rightarrow> (Inr True, write_node lb' (n\<lparr>bn_leaf := remove_at i (bn_leaf n)\<rparr>) s4) | Inl _ \<Rightarrow> (Inr False, s4))"
proof -
  note l = landsD [OF assms(1)]
  have m: "map_of (kvs_of t) key = map_of (bn_leaf n) key"
    using all_kvs_cell [OF l(10,9,6,7)] unfolding kvs_of_def l(8) .
  have o: "in_order (plug fs (Lf lb (bn_leaf n)))" using assms(5) l(1) by simp
  show ?thesis
  proof (cases "binary_search key (bn_leaf n)")
    case (Inl i)
    then have "map_of (bn_leaf n) key = None" using search_map_of [OF l(11), of key] by simp
    moreover have "in_order (plug fs' (Lf lb' (bn_leaf n)))" "kvs_of (plug fs' (Lf lb' (bn_leaf n))) = kvs_of t"
      using l(5,8,9) hole_blocks_irrelevant [OF assms(2)] by (simp_all add: in_order_def kvs_of_def cells_plug)
    ultimately show ?thesis using Inl assms(3,6,7) m unfolding removed_def
      by (intro exI [of _ "plug fs' (Lf lb' (bn_leaf n))"] exI [of _ s4]) (auto simp: represents_holds cache_ok_def)
  next
    case (Inr i)
    note r = remove_at_props [OF l(11) Inr]
    obtain h0 where "stored d (bt_type s4) (bt_nodes s4) h0 (Lf lb' (bn_leaf n))" using stored_plug_level assms(3) unfolding holds_def by blast
    then have len: "length (remove_at i (bn_leaf n)) < max_leaf_items d" using r(4) by (auto simp: leaf_at_def)
    let ?s = "write_node lb' (n\<lparr>bn_leaf := remove_at i (bn_leaf n)\<rparr>) s4" and ?t = "plug fs' (Lf lb' (remove_at i (bn_leaf n)))"
    have "holds d h ?t ?s" using write_leaf_ok [OF assms(3) _ _ _ len] l(3,4) assms(4) by simp
    moreover have "fst ` set (remove_at i (bn_leaf n)) \<subseteq> Set.insert key (fst ` set (bn_leaf n))" using r(2) by auto
    note leaf_update_ok [OF l(5) o l(6,7) r(1) this r(3) assms(2), of lb']
    ultimately show ?thesis using Inr assms(6,7) m r(5) l(1) unfolding removed_def
      by (intro exI [of _ ?t] exI [of _ ?s]) (auto simp: represents_holds cache_ok_def)
  qed
qed

lemma remove_inner_ok:
  assumes "represents d h t s" "h < fuel"
    and "\<And>fs lb kvs s. holds d h (plug fs (Lf lb kvs)) s \<Longrightarrow> length fs = h \<Longrightarrow> P s \<Longrightarrow> cow_done d h [] fs kvs s (cow_path d alloc (lb # map frame_block fs) s)"
    and "P (s\<lparr>bt_epoch := wrap_add (bt_epoch s) 1, bt_fast := None, bt_range := None, bt_root := view_root s\<rparr>)"
  shows "removed d h (length (bt_fresh s) - (h + 1)) key t (remove_inner d fuel alloc key s)"
proof -
  let ?s = "s\<lparr>bt_epoch := wrap_add (bt_epoch s) 1, bt_fast := None, bt_range := None, bt_root := view_root s\<rparr>"
  have v: "view_root ((bump_epoch s)\<lparr>bt_fast := None, bt_range := None\<rparr>) = view_root s" by (simp add: view_root_def bump_epoch_def)
  have "view_root ?s = view_root s" by (simp add: view_root_def effective_root_def split: option.splits)
  then have rep: "represents d h t ?s" using assms(1) by (simp add: represents_def)
  obtain fs lb n pre lo hi post where l: "lands key t ?s fs lb n pre lo hi post" "length fs = h"
    and run: "descend d fuel key (root_of t) [] True ?s = Inr (lb # map frame_block fs, n, \<forall>f\<in>set fs. rightmost_frame f)"
    by (rule descend_represents [OF rep assms(2)])
  have "holds d h (plug fs (Lf lb (bn_leaf n))) ?s" using rep landsD(1) [OF l(1)] by (simp add: represents_holds)
  from assms(3) [OF this l(2) assms(4)]
  obtain fs' lb' s4 where c: "cow_path d alloc (lb # map frame_block fs) ?s = (Inr (lb' # map frame_block fs'), s4)"
    "map snd fs' = map snd fs" "holds d h (plug fs' (Lf lb' (bn_leaf n))) s4" "bt_type s4 = bt_type ?s" "bt_fast s4 = None" "bt_range s4 = None"
    "length (bt_fresh s) - (h + 1) \<le> length (bt_fresh s4)"
    unfolding cow_done_def by (auto simp: l(2))
  have "view_root s = root_of t" using assms(1) by (simp add: represents_def)
  then have "remove_inner d fuel alloc key s = (case binary_search key (bn_leaf n) of
       Inr i \<Rightarrow> (Inr True, write_node lb' (n\<lparr>bn_leaf := remove_at i (bn_leaf n)\<rparr>) s4) | Inl _ \<Rightarrow> (Inr False, s4))"
    using run c(1) v by (simp add: remove_inner_def Let_def bump_epoch_def cong: sum.case_cong)
  moreover have "in_order t" using rep by (simp add: represents_def)
  ultimately show ?thesis using leaf_remove_ok [OF l(1) c(2-4) _ c(5,6)] c(7) by (auto simp: removed_def)
qed

lemma remove_with_alloc_ok:
  assumes "represents d h t s" "h < fuel" "h < length (bt_fresh s)"
  shows "removed d h (length (bt_fresh s) - (h + 1)) key t (remove_with_alloc d fuel key s)"
  unfolding remove_with_alloc_def
  by (rule remove_inner_ok [OF assms(1,2), where P = "\<lambda>s. h < length (bt_fresh s)"]) (use assms(3) cow_path_ok in auto)

lemma btree_remove_ok:
  assumes "represents d h t s" "h < fuel" "cow_barrier_of s = 0 \<or> \<not> is_frozen_tree (bt_type s)"
  shows "removed d h (length (bt_fresh s) - (h + 1)) key t (btree_remove d fuel key s)"
  unfolding btree_remove_def
proof (rule remove_inner_ok [OF assms(1,2), where P = "\<lambda>s. cow_barrier_of s = 0 \<or> \<not> is_frozen_tree (bt_type s)"])
  show "cow_done d h [] fs kvs s (cow_path d no_alloc (lb # map frame_block fs) s)"
    if "holds d h (plug fs (Lf lb kvs)) s" "cow_barrier_of s = 0 \<or> \<not> is_frozen_tree (bt_type s)" for fs lb kvs s
    using that unfolding cow_done_def by (intro exI [of _ fs] exI [of _ lb] exI [of _ s]) (auto simp: cow_path_def)
qed (use assms(3) in \<open>auto simp: cow_barrier_of_def\<close>)

section \<open>Reads\<close>

lemma iter_all_ok:
  assumes "represents d h t s" "h < fuel"
  shows "iter_all d fuel s = Inr (kvs_of t)" "sorted_wrt (<) (map fst (kvs_of t))"
  using assms collect_stored [of d s h t fuel None None] chained_sorted [OF cells_chained [of None t None]]
  by (simp_all add: represents_def iter_all_def kvs_of_def in_order_def)

text \<open>What \<open>lookup_floor\<close> promises: the last pair, in key order, whose key is at most the one asked for.\<close>

definition floor_kv :: "'k::linorder \<Rightarrow> ('k \<times> 'v) list \<Rightarrow> ('k \<times> 'v) option" where
  "floor_kv key kvs = (let ys = filter (\<lambda>kv. fst kv \<le> key) kvs in if ys = [] then None else Some (last ys))"

lemma search_floor:
  fixes kvs :: "('k::linorder \<times> 'v) list"
  assumes "sorted_wrt (<) (map fst kvs)"
  shows "(case binary_search key kvs of Inr i \<Rightarrow> Some (kvs ! i) | Inl 0 \<Rightarrow> None | Inl (Suc i) \<Rightarrow> Some (kvs ! i)) = floor_kv key kvs"
proof (cases "binary_search key kvs")
  case (Inr i)
  then obtain xs v ys where k: "kvs = xs @ (key, v) # ys" "i = length xs" by (rule search_found)
  have "filter (\<lambda>kv. fst kv \<le> key) ys = []" using sorted_split(2) [OF assms k(1)] by (force simp: filter_empty_conv)
  then show ?thesis using Inr k by (simp add: floor_kv_def Let_def)
next
  case (Inl i)
  then obtain xs ys where k: "kvs = xs @ ys" "i = length xs" "\<forall>x\<in>fst ` set xs. x < key" "\<forall>y\<in>fst ` set ys. key < y"
    using search_missing [OF _ assms] by blast
  then have "filter (\<lambda>kv. fst kv \<le> key) ys = []" "filter (\<lambda>kv. fst kv \<le> key) xs = xs"
    by (force simp: filter_empty_conv filter_id_conv)+
  then have "filter (\<lambda>kv. fst kv \<le> key) kvs = xs" by (simp only: k(1) filter_append append_Nil2)
  then show ?thesis using Inl k(1,2) by (cases xs rule: rev_cases) (simp_all add: floor_kv_def Let_def nth_append)
qed

lemma lookup_floor_ok:
  assumes "represents d h t s" "h < fuel" "tight t"
  shows "lookup_floor d fuel key s = Inr (floor_kv key (kvs_of t))"
proof -
  obtain fs lb n pre lo hi post where l: "lands key t s fs lb n pre lo hi post" and "length fs = h"
    and desc: "descend d fuel key (root_of t) [] True s = Inr (lb # map frame_block fs, n, \<forall>f\<in>set fs. rightmost_frame f)"
    by (rule descend_represents [OF assms(1,2)])
  note l = landsD [OF l]
  note sp = chained_split [OF l(10,9)]
  have "view_root s = root_of t" using assms(1) by (simp add: represents_def)
  then have run: "lookup_floor d fuel key s = Inr (floor_kv key (bn_leaf n))"
    using floor_loop_descend [OF desc] search_floor [OF l(11), of key] by (simp only: lookup_floor_def)
  have p: "filter (\<lambda>kv. fst kv \<le> key) (all_kvs post) = []" using sp(2) l(7) by (fastforce simp: filter_empty_conv)
  have q: "filter (\<lambda>kv. fst kv \<le> key) (bn_leaf n) \<noteq> []" if "lo = Some a" for a
  proof -
    have "bn_leaf n \<noteq> []" "fst (hd (bn_leaf n)) = a" using assms(3) l(8) that by (simp_all add: tight_def tight_cell_def)
    then show ?thesis using l(6) that by (cases "bn_leaf n") auto
  qed
  have "all_kvs pre = []" if "lo = None" using sp(1) that by (cases "all_kvs pre") force+
  then have "floor_kv key (kvs_of t) = floor_kv key (bn_leaf n)"
    using p q by (cases lo) (simp_all add: floor_kv_def kvs_of_def l(8) Let_def)
  then show ?thesis using run by simp
qed

lemma validate_stored:
  "stored d (bt_type s) (bt_nodes s) h t \<Longrightarrow> h < fuel \<Longrightarrow> 0 \<notin> set (blocks t) \<Longrightarrow> validate_node d fuel (root_of t) s = Inr (length (blocks t))"
  and validate_fstored: "fstored d (bt_type s) (bt_nodes s) h f \<Longrightarrow> h < fuel \<Longrightarrow> 0 \<notin> set (fblocks f) \<Longrightarrow>
    validate_children d fuel (filter (\<lambda>p. p \<noteq> 0) (first_root f # map snd (seps f))) s = Inr (length (fblocks f))"
  for t :: "('k, 'v) tree" and f :: "('k, 'v) forest"
proof (induction t and f arbitrary: h fuel and h fuel)
  case (Lf b kvs)
  then obtain n where "read_node d b s = Inr n" "bn_level n = 0" by (auto elim: read_leaf)
  then show ?case using Lf by (cases fuel) auto
next
  case (Nd b f)
  then obtain n where "read_node d b s = Inr n" "bn_level n = h" "0 < h" "bn_leftmost n = first_root f" "bn_items n = seps f"
    by (auto elim: read_inner)
  moreover from this obtain fuel' where "fuel = Suc fuel'" "h - 1 < fuel'" using Nd.prems(2) by (cases fuel) auto
  moreover from this have "validate_children d fuel' (filter (\<lambda>p. p \<noteq> 0) (first_root f # map snd (seps f))) s = Inr (length (fblocks f))"
    using Nd.prems(1,3) by (intro Nd.IH [of "h - 1"]) simp_all
  ultimately show ?case by simp
next
  case (One t)
  have "validate_node d fuel (root_of t) s = Inr (length (blocks t))" using One.prems by (intro One.IH) simp_all
  moreover have "root_of t \<noteq> 0" using One.prems(3) blocks_root [of t] by auto
  ultimately show ?case by simp
next
  case (More t k f)
  have "validate_node d fuel (root_of t) s = Inr (length (blocks t))"
    "validate_children d fuel (filter (\<lambda>p. p \<noteq> 0) (first_root f # map snd (seps f))) s = Inr (length (fblocks f))"
    using More.prems by (intro More.IH; simp)+
  moreover have "root_of t \<noteq> 0" using More.prems(3) blocks_root [of t] by auto
  ultimately show ?case by simp
qed

end
