(* ===== verification/Btree.thy ===== *)
theory Btree
  imports Btree_Ops
begin

text \<open>
  What the B-tree promises its callers: sequences of inserts and removals from an empty tree behave as a finite map, an insert
  returns after at most one retry, floor lookups are right as long as nothing was removed, and a recorded view survives every
  insert that does not split a node. The two theorems at the end show where the promises end.
\<close>

section \<open>Sequences of operations\<close>

datatype ('k, 'v) tree_op = Put 'k 'v | Del 'k

fun run_ops :: "dims \<Rightarrow> nat \<Rightarrow> ('k::linorder, 'v) tree_op list \<Rightarrow> ('k, 'v) btree \<Rightarrow> (btree_error + bool list) \<times> ('k, 'v) btree" where
  "run_ops d fuel [] s = (Inr [], s)"
| "run_ops d fuel (Put k v # ops) s =
     (case btree_insert d fuel k v s of (Inl e, s1) \<Rightarrow> (Inl e, s1) | (Inr _, s1) \<Rightarrow> run_ops d fuel ops s1)"
| "run_ops d fuel (Del k # ops) s =
     (case remove_with_alloc d fuel k s of (Inl e, s1) \<Rightarrow> (Inl e, s1)
      | (Inr b, s1) \<Rightarrow> (case run_ops d fuel ops s1 of (Inl e, s2) \<Rightarrow> (Inl e, s2) | (Inr bs, s2) \<Rightarrow> (Inr (b # bs), s2)))"

text \<open>The same on a map: whether each removal found its key, and the map at the end.\<close>

fun map_ops :: "('k, 'v) tree_op list \<Rightarrow> ('k \<rightharpoonup> 'v) \<Rightarrow> bool list \<times> ('k \<rightharpoonup> 'v)" where
  "map_ops [] m = ([], m)"
| "map_ops (Put k v # ops) m = map_ops ops (m(k \<mapsto> v))"
| "map_ops (Del k # ops) m = (case map_ops ops (m(k := None)) of (bs, m') \<Rightarrow> ((m k \<noteq> None) # bs, m'))"

definition is_put :: "('k, 'v) tree_op \<Rightarrow> bool" where
  "is_put x \<longleftrightarrow> (case x of Put _ _ \<Rightarrow> True | Del _ \<Rightarrow> False)"

lemma insert_obtain:
  assumes "represents d h t s" "cache_ok t s" "3 \<le> max_leaf_items d" "2 \<le> max_internal_items d" "h + 1 < 2 ^ 16"
    "h + 2 < fuel" "3 * h + 5 \<le> length (bt_fresh s)"
  obtains h' t' s' where "btree_insert d fuel key v s = (Inr (), s')" "h' \<le> h + 1" "represents d h' t' s'" "cache_ok t' s'"
    "map_of (kvs_of t') = (map_of (kvs_of t))(key \<mapsto> v)" "tight t \<longrightarrow> tight t'" "length (bt_fresh s) - (3 * h + 5) \<le> length (bt_fresh s')"
  using insert_ok [OF assms, of key v] unfolding put_done_def by blast

lemma remove_obtain:
  assumes "represents d h t s" "h < fuel" "h < length (bt_fresh s)"
  obtains t' s' where "remove_with_alloc d fuel key s = (Inr (map_of (kvs_of t) key \<noteq> None), s')" "represents d h t' s'" "cache_ok t' s'"
    "map_of (kvs_of t') = (map_of (kvs_of t))(key := None)" "length (bt_fresh s) - (h + 1) \<le> length (bt_fresh s')"
  using remove_with_alloc_ok [OF assms, of key] unfolding removed_def by blast

text \<open>The height may grow by one with every insert, and each operation takes at most \<open>3 * h + 5\<close> blocks.\<close>

definition enough :: "dims \<Rightarrow> nat \<Rightarrow> nat \<Rightarrow> nat \<Rightarrow> nat \<Rightarrow> bool" where
  "enough d fuel n h left \<longleftrightarrow> 3 \<le> max_leaf_items d \<and> 2 \<le> max_internal_items d \<and> h + n < 2 ^ 16 \<and> h + n + 1 < fuel \<and>
     n * (3 * (h + n) + 5) \<le> left"

lemma enough_step:
  assumes "enough d fuel (Suc n) h left" "h' \<le> Suc h" "left - (3 * h + 5) \<le> left'"
  shows "enough d fuel n h' left'"
proof -
  have "n * (3 * (h' + n) + 5) \<le> n * (3 * (h + Suc n) + 5)" using assms(2) by simp
  moreover have "3 * h + 5 + n * (3 * (h + Suc n) + 5) \<le> Suc n * (3 * (h + Suc n) + 5)" by simp
  ultimately have "n * (3 * (h' + n) + 5) \<le> left'" using assms(1,3) unfolding enough_def by linarith
  then show ?thesis using assms(1,2) by (simp add: enough_def)
qed

lemma enough_now: "enough d fuel (Suc n) h left \<Longrightarrow> 3 * h + 5 \<le> left"
  unfolding enough_def by (elim conjE) (erule order_trans [rotated], simp)

lemma run_ops_ok:
  assumes "represents d h t s" "cache_ok t s" "enough d fuel (length ops) h (length (bt_fresh s))"
    "map_ops ops (map_of (kvs_of t)) = (bs, m)"
  shows "\<exists>h' t' s'. run_ops d fuel ops s = (Inr bs, s') \<and> h' \<le> h + length ops \<and> represents d h' t' s' \<and> map_of (kvs_of t') = m \<and>
    (tight t \<longrightarrow> (\<forall>x\<in>set ops. is_put x) \<longrightarrow> tight t')"
  using assms
proof (induction d fuel ops s arbitrary: h t bs rule: run_ops.induct)
  case (1 d fuel s)
  then show ?case by (auto intro!: exI [of _ h] exI [of _ t])
next
  case (2 d fuel k v ops s)
  have e: "3 \<le> max_leaf_items d" "2 \<le> max_internal_items d" "h + 1 < 2 ^ 16" "h + 2 < fuel" "3 * h + 5 \<le> length (bt_fresh s)"
    using 2(4) enough_now [of d fuel "length ops" h] by (simp_all add: enough_def)
  obtain h1 t1 s1 where s1: "btree_insert d fuel k v s = (Inr (), s1)" "h1 \<le> h + 1" "represents d h1 t1 s1" "cache_ok t1 s1"
    "map_of (kvs_of t1) = (map_of (kvs_of t))(k \<mapsto> v)" "tight t \<longrightarrow> tight t1" "length (bt_fresh s) - (3 * h + 5) \<le> length (bt_fresh s1)"
    by (rule insert_obtain [OF 2(2,3) e])
  have "enough d fuel (length ops) h1 (length (bt_fresh s1))" using enough_step [OF _ _ s1(7)] 2(4) s1(2) by simp
  moreover have "map_ops ops (map_of (kvs_of t1)) = (bs, m)" using 2(5) s1(5) by simp
  ultimately have "\<exists>h' t' s'. run_ops d fuel ops s1 = (Inr bs, s') \<and> h' \<le> h1 + length ops \<and> represents d h' t' s' \<and> map_of (kvs_of t') = m \<and>
    (tight t1 \<longrightarrow> (\<forall>x\<in>set ops. is_put x) \<longrightarrow> tight t')" by (rule 2(1) [OF s1(1) [symmetric] refl s1(3,4)])
  then
  obtain h' t' s' where r: "run_ops d fuel ops s1 = (Inr bs, s')" "h' \<le> h1 + length ops" "represents d h' t' s'" "map_of (kvs_of t') = m"
    "tight t1 \<longrightarrow> (\<forall>x\<in>set ops. is_put x) \<longrightarrow> tight t'" by blast
  then show ?case using s1(1,2,6) by (intro exI [of _ h'] exI [of _ t'] exI [of _ s']) auto
next
  case (3 d fuel k ops s)
  have e: "h < fuel" "h < length (bt_fresh s)" using 3(4) enough_now [of d fuel "length ops" h] by (simp_all add: enough_def)
  obtain t1 s1 where s1: "remove_with_alloc d fuel k s = (Inr (map_of (kvs_of t) k \<noteq> None), s1)" "represents d h t1 s1" "cache_ok t1 s1"
    "map_of (kvs_of t1) = (map_of (kvs_of t))(k := None)" "length (bt_fresh s) - (h + 1) \<le> length (bt_fresh s1)"
    by (rule remove_obtain [OF 3(2) e])
  obtain bs1 where bs1: "map_ops ops (map_of (kvs_of t1)) = (bs1, m)" "bs = (map_of (kvs_of t) k \<noteq> None) # bs1"
    using 3(5) s1(4) by (auto split: prod.splits)
  have "length (bt_fresh s) - (3 * h + 5) \<le> length (bt_fresh s1)" using s1(5) by simp
  then have "enough d fuel (length ops) h (length (bt_fresh s1))" using enough_step [of d fuel "length ops" h] 3(4) by simp
  from 3(1) [OF s1(1) [symmetric] refl s1(2,3) this bs1(1)]
  obtain h' t' s' where "run_ops d fuel ops s1 = (Inr bs1, s')" "h' \<le> h + length ops" "represents d h' t' s'" "map_of (kvs_of t') = m" by auto
  then show ?case using s1(1) bs1(2) by (intro exI [of _ h'] exI [of _ t'] exI [of _ s']) (auto simp: is_put_def)
qed

text \<open>A tree just made: its root block, initialised in the image, and a first handle over it.\<close>

definition fresh_tree :: "nat \<Rightarrow> nat \<Rightarrow> ('k, 'v) btree \<Rightarrow> ('k, 'v) btree" where
  "fresh_tree r ty s = open_handle r ty (init_empty r ty s)"

lemma fresh_tree_represents:
  assumes "effective_root (bt_ctx s) ty r = r" "distinct (0 # r # bt_fresh s)" "0 < max_leaf_items d"
  shows "represents d 0 (Lf r []) (fresh_tree r ty s)" "cache_ok (Lf r []) (fresh_tree r ty s)" "bt_fresh (fresh_tree r ty s) = bt_fresh s"
  using assms by (simp_all add: represents_def cache_ok_def fresh_tree_def open_handle_def init_empty_def bump_epoch_def view_root_def
      leaf_at_def node_new_def in_order_def)

lemma fresh_run_ops:
  assumes "effective_root (bt_ctx s) ty r = r" "distinct (0 # r # bt_fresh s)" "enough d fuel (length ops) 0 (length (bt_fresh s))"
    "map_ops ops Map.empty = (bs, m)"
  shows "\<exists>s' t' h'. run_ops d fuel ops (fresh_tree r ty s) = (Inr bs, s') \<and> represents d h' t' s' \<and> h' < fuel \<and> map_of (kvs_of t') = m \<and>
    ((\<forall>x\<in>set ops. is_put x) \<longrightarrow> tight t')"
proof -
  have "0 < max_leaf_items d" "length ops < fuel" using assms(3) by (simp_all add: enough_def)
  note f = fresh_tree_represents [OF assms(1,2) this(1)]
  have "tight (Lf r [])" "map_ops ops (map_of (kvs_of (Lf r []))) = (bs, m)"
    using assms(4) by (simp_all add: tight_def tight_cell_def kvs_of_def)
  then show ?thesis using run_ops_ok [OF f(1,2), of fuel ops bs m] assms(3) f(3) \<open>length ops < fuel\<close> by fastforce
qed

section \<open>Termination of an insert\<close>

lemma descend_mono: "descend d fuel key b path rm s = Inr x \<Longrightarrow> descend d (Suc fuel) key b path rm s = Inr x"
proof (induction d fuel key b path rm s rule: descend.induct)
  case (2 d fuel key b path rm s)
  then obtain n where n: "read_node d b s = Inr n" by (auto split: sum.splits)
  show ?case
  proof (cases "bn_level n = 0")
    case True
    then show ?thesis using 2(2) n by simp
  next
    case False
    then have "descend d (Suc fuel) key (next_child key (bn_leftmost n) (bn_items n)) (b # path)
      (if bn_items n \<noteq> [] \<and> key < fst (last (bn_items n)) then False else rm) s = Inr x"
      using 2(1) [OF n False] 2(2) n by simp
    then show ?thesis using n False by (simp only: descend.simps(2) [of d "Suc fuel"] sum.case if_False)
  qed
qed simp

lemma insert_mono: "btree_insert d fuel key v s = (Inr (), s') \<Longrightarrow> btree_insert d (Suc fuel) key v s = (Inr (), s')"
proof (induction fuel arbitrary: s)
  case (Suc fuel)
  obtain b1 s1 where r: "range_update d key v s = (b1, s1)" by (cases "range_update d key v s")
  obtain b2 s2 where f: "fast_append d key v s1 = (b2, s2)" by (cases "fast_append d key v s1")
  let ?s3 = "s2\<lparr>bt_root := view_root s2\<rparr>"
  show ?case
  proof (cases "b1 \<or> b2")
    case True
    then show ?thesis using Suc.prems r f by (cases b1) (simp_all add: btree_insert.simps)
  next
    case False
    have run: "btree_insert d (Suc n) key v s = insert_slow d n key v ?s3" for n
      using False r f by (simp add: btree_insert.simps insert_slow_def Let_def del: descend.simps)
    have slow: "insert_slow d fuel key v ?s3 = (Inr (), s')" using Suc.prems run [of fuel] by simp
    then obtain path n rm where de: "descend d (Suc fuel) key (view_root ?s3) [] True ?s3 = Inr (path, n, rm)"
      unfolding insert_slow_def by (cases "descend d (Suc fuel) key (view_root ?s3) [] True ?s3") (auto simp del: descend.simps view_root_sync)
    then have "insert_slow d (Suc fuel) key v ?s3 = (Inr (), s')"
      using slow Suc.IH descend_mono [OF de] unfolding insert_slow_def
      by (auto simp del: descend.simps view_root_sync split: sum.splits prod.splits if_splits)
    then show ?thesis using run [of "Suc fuel"] by simp
  qed
qed (simp add: btree_insert.simps)

section \<open>Recorded views\<close>

text \<open>
  \<open>spares P s s'\<close>: the blocks of \<open>P\<close> are untouched and the allocator has only handed out blocks. The blocks a recorded view
  is made of are \<open>frozen\<close>: written at a stamp not above the barrier.
\<close>

definition spares :: "nat set \<Rightarrow> ('k, 'v) btree \<Rightarrow> ('k, 'v) btree \<Rightarrow> bool" where
  "spares P s s' \<longleftrightarrow> (\<forall>b\<in>P. bt_nodes s' b = bt_nodes s b) \<and> (\<exists>xs. bt_fresh s = xs @ bt_fresh s')"

definition frozen :: "nat set \<Rightarrow> nat \<Rightarrow> ('k, 'v) btree \<Rightarrow> bool" where
  "frozen P barrier s \<longleftrightarrow> (\<forall>b\<in>P. \<exists>n. bt_nodes s b = Some n \<and> bn_gen n \<le> barrier) \<and> P \<inter> set (bt_fresh s) = {}"

lemma spares_trans: "spares P s s1 \<Longrightarrow> spares P s1 s2 \<Longrightarrow> spares P s s2"
  by (auto simp: spares_def)

lemma spares_frozen: "spares P s s' \<Longrightarrow> frozen P barrier s \<Longrightarrow> frozen P barrier s'"
  by (auto simp: spares_def frozen_def)

lemma spares_same: "bt_nodes s' = bt_nodes s \<Longrightarrow> bt_fresh s' = bt_fresh s \<Longrightarrow> spares P s s'"
  by (auto simp: spares_def)

lemma spares_write: "b \<notin> P \<Longrightarrow> spares P s (write_node b n s)"
  by (auto simp: spares_def)

lemma spares_copy: "bt_fresh s = copy # rest \<Longrightarrow> copy \<notin> P \<Longrightarrow> spares P s (write_node copy n (s\<lparr>bt_fresh := rest\<rparr>))"
  by (auto simp: spares_def)

lemma cow_loop_spares:
  assumes "cow_loop d allocate_block barrier eff path s = (Inr path', s')" "frozen P barrier s" "set eff \<inter> P = {}"
  shows "spares P s s' \<and> set path' \<inter> P = {}"
  using assms
proof (induction path arbitrary: eff s)
  case Nil
  then show ?case by (simp add: spares_same)
next
  case (Cons orig path)
  then obtain n where n: "read_node d orig s = Inr n" by (auto split: sum.splits)
  show ?case
  proof (cases "barrier < bn_gen n")
    case True
    then have "orig \<notin> P" using Cons.prems(2) read_nodeD [OF n] by (force simp: frozen_def)
    then show ?thesis using Cons.IH [of "orig # eff" s] Cons.prems n True by simp
  next
    case False
    then obtain copy rest where fresh: "bt_fresh s = copy # rest" using Cons.prems(1) n by (auto split: list.splits)
    then have copy: "copy \<notin> P" using Cons.prems(2) by (auto simp: frozen_def)
    show ?thesis
    proof (cases eff)
      case Nil
      let ?s2 = "write_node copy n (s\<lparr>bt_fresh := rest\<rparr>)"
      let ?s3 = "?s2\<lparr>bt_root := copy, bt_ctx := set_root_cell (bt_type s) copy (bt_ctx s)\<rparr>"
      have sp: "spares P s ?s3" using spares_trans [OF spares_copy [OF fresh copy] spares_same] by simp
      then have "spares P ?s3 s' \<and> set path' \<inter> P = {}"
        using Cons.IH [of "[copy]" ?s3] Cons.prems(1) spares_frozen [OF sp Cons.prems(2)] n False fresh copy Nil by (simp add: Let_def)
      then show ?thesis using spares_trans [OF sp] by blast
    next
      case eff: (Cons prev eff')
      let ?s2 = "write_node copy (n\<lparr>bn_parent := prev\<rparr>) (s\<lparr>bt_fresh := rest\<rparr>)"
      obtain parent where parent: "read_node d prev ?s2 = Inr parent"
        using Cons.prems(1) n False fresh eff by (auto simp: Let_def split: sum.splits)
      let ?s3 = "write_node prev (replace_child_ptr orig copy parent) ?s2"
      have "prev \<notin> P" using Cons.prems(3) eff by auto
      then have sp: "spares P s ?s3" using spares_trans [OF spares_copy [OF fresh copy] spares_write] by blast
      then have "spares P ?s3 s' \<and> set path' \<inter> P = {}"
        using Cons.IH [of "copy # eff" ?s3] Cons.prems(1,3) spares_frozen [OF sp Cons.prems(2)] n False fresh copy eff parent by (simp add: Let_def)
      then show ?thesis using spares_trans [OF sp] by blast
    qed
  qed
qed

lemma cow_path_spares:
  assumes "cow_path d allocate_block path s = (Inr path', s')" "frozen P (cow_barrier_of s) s" "0 < cow_barrier_of s" "is_frozen_tree (bt_type s)"
  shows "spares P s s' \<and> set path' \<inter> P = {}"
  using assms cow_loop_spares [of d "cow_barrier_of s" "[]" "rev path" s path' s' P]
  by (simp add: cow_path_def cow_descent_path_def del: allocate_block.simps)

text \<open>The fast paths write in place only a leaf that is not frozen.\<close>

lemma not_frozen_leaf:
  assumes "read_node d b s = Inr n" "\<not> leaf_frozen n s" "frozen P (cow_barrier_of s) s" "0 < cow_barrier_of s" "is_frozen_tree (bt_type s)"
  shows "b \<notin> P"
  using assms read_nodeD [OF assms(1)] by (auto simp: leaf_frozen_def frozen_def)


lemma fast_paths_spare:
  assumes "frozen P (cow_barrier_of s) s" "0 < cow_barrier_of s" "is_frozen_tree (bt_type s)"
  shows "range_update d key v s = (b, s') \<Longrightarrow> spares P s s' \<and> bt_ctx s' = bt_ctx s \<and> bt_type s' = bt_type s"
    and "fast_append d key v s = (b, s') \<Longrightarrow> spares P s s' \<and> bt_ctx s' = bt_ctx s \<and> bt_type s' = bt_type s"
  using not_frozen_leaf [OF _ _ assms, of d]
  by (auto simp: range_update_def fast_append_def Let_def spares_def split: option.splits if_splits sum.splits)

lemma insert_slow_spares:
  assumes "represents d h t s" "cache_ok t s" "h < Suc fuel" "h < length (bt_fresh s)" "roomy d key t"
    "frozen P (cow_barrier_of s) s" "0 < cow_barrier_of s" "is_frozen_tree (bt_type s)" "insert_slow d fuel key v s = (Inr (), s')"
  shows "spares P s s'"
proof -
  obtain fs lb n pre lo hi post where l: "lands key t s fs lb n pre lo hi post" "length fs = h"
    and run: "descend d (Suc fuel) key (root_of t) [] True s = Inr (lb # map frame_block fs, n, \<forall>f\<in>set fs. rightmost_frame f)"
    by (rule descend_represents [OF assms(1,3)])
  have room: "length (bn_leaf n) + 1 < max_leaf_items d" using assms(5) landsD(6-8) [OF l(1)] unfolding roomy_def by blast
  have "holds d h (plug fs (Lf lb (bn_leaf n))) s" using assms(1) landsD(1) [OF l(1)] by (simp add: represents_holds)
  from cow_path_ok [OF this] assms(4) l(2)
  obtain lb' ps s4 where c: "cow_path d allocate_block (lb # map frame_block fs) s = (Inr (lb' # ps), s4)"
    unfolding cow_done_def by (auto simp del: allocate_block.simps)
  have "view_root s = root_of t" using assms(1) by (simp add: represents_def)
  moreover have "\<not> max_leaf_items d - 1 \<le> length (bn_leaf n)" using room by arith
  ultimately have s': "s' = put_in_leaf lb' n (\<forall>f\<in>set fs. rightmost_frame f) key v s4"
    using assms(9) run c landsD(12) [OF l(1)] unfolding insert_slow_def by (simp del: descend.simps allocate_block.simps)
  note sp = cow_path_spares [OF c assms(6-8)]
  have "spares P s4 s'" using sp unfolding s' by (auto simp: put_in_leaf_def Let_def refresh_fast_leaf_if_rightmost_def spares_def)
  then show ?thesis using sp spares_trans by blast
qed

lemma insert_spares:
  assumes "represents d h t s" "cache_ok t s" "h < Suc fuel" "h < length (bt_fresh s)" "roomy d key t"
    "frozen P (cow_barrier_of s) s" "0 < cow_barrier_of s" "is_frozen_tree (bt_type s)" "btree_insert d (Suc fuel) key v s = (Inr (), s')"
  shows "spares P s s'"
proof -
  obtain b1 s1 where r: "range_update d key v s = (b1, s1)" by (cases "range_update d key v s")
  obtain b2 s2 where f: "fast_append d key v s1 = (b2, s2)" by (cases "fast_append d key v s1")
  note p1 = fast_paths_spare(1) [OF assms(6-8) r]
  then have fz: "frozen P (cow_barrier_of s1) s1" "0 < cow_barrier_of s1" "is_frozen_tree (bt_type s1)"
    using spares_frozen [OF _ assms(6)] assms(7,8) by (simp_all add: cow_barrier_of_def)
  note p2 = fast_paths_spare(2) [OF fz f]
  have sp: "spares P s s2" using p1 p2 spares_trans by blast
  show ?thesis
  proof (cases "b1 \<or> b2")
    case True
    then show ?thesis using assms(9) r f p1 sp by (cases b1) (auto simp: btree_insert.simps)
  next
    case False
    let ?s3 = "s2\<lparr>bt_root := view_root s2\<rparr>"
    have s1: "represents d h t s1" "cache_ok t s1" "bt_fresh s1 = bt_fresh s" using range_update_ok [OF assms(1,2) r] False by simp_all
    have s2: "represents d h t s2" "cache_ok t s2" "bt_fresh s2 = bt_fresh s" using fast_append_ok [OF s1(1,2) f] False s1(3) by simp_all
    have "insert_slow d fuel key v ?s3 = (Inr (), s')"
      using assms(9) False r f by (simp add: btree_insert.simps insert_slow_def Let_def del: descend.simps allocate_block.simps)
    moreover have "frozen P (cow_barrier_of ?s3) ?s3" "0 < cow_barrier_of ?s3" "is_frozen_tree (bt_type ?s3)"
      using p2 spares_frozen [OF _ fz(1), of s2] fz by (simp_all add: cow_barrier_of_def frozen_def)
    ultimately have "spares P ?s3 s'" using insert_slow_spares [of d h t ?s3 fuel key P v s'] s2 assms(3-5) by simp
    then show ?thesis using sp by (auto simp: spares_def)
  qed
qed

lemma represents_bump: "represents d h t (bump_epoch s) \<longleftrightarrow> represents d h t s"
  by (simp add: represents_def bump_epoch_def view_root_def)

lemma remove_spares:
  assumes "represents d h t s" "h < fuel" "h < length (bt_fresh s)"
    "frozen P (cow_barrier_of s) s" "0 < cow_barrier_of s" "is_frozen_tree (bt_type s)" "remove_with_alloc d fuel key s = (Inr b, s')"
  shows "spares P s s'"
proof -
  let ?s0 = "(bump_epoch s)\<lparr>bt_fast := None, bt_range := None\<rparr>"
  let ?s = "?s0\<lparr>bt_root := view_root ?s0\<rparr>"
  have rep: "represents d h t ?s" using assms(1) by (simp only: sync_root represents_drop_cache represents_bump)
  obtain fs lb n pre lo hi post where l: "lands key t ?s fs lb n pre lo hi post" "length fs = h"
    and run: "descend d fuel key (root_of t) [] True ?s = Inr (lb # map frame_block fs, n, \<forall>f\<in>set fs. rightmost_frame f)"
    by (rule descend_represents [OF rep assms(2)])
  have "holds d h (plug fs (Lf lb (bn_leaf n))) ?s" using rep landsD(1) [OF l(1)] by (simp add: represents_holds)
  from cow_path_ok [OF this] assms(3) l(2)
  obtain lb' ps s4 where c: "cow_path d allocate_block (lb # map frame_block fs) ?s = (Inr (lb' # ps), s4)"
    unfolding cow_done_def by (auto simp: bump_epoch_def simp del: allocate_block.simps)
  have "view_root (bump_epoch s) = root_of t" using assms(1) by (auto simp: represents_def view_root_def bump_epoch_def)
  then have s': "s' = s4 \<or> (\<exists>m. s' = write_node lb' m s4)"
    using assms(7) run c unfolding remove_with_alloc_def remove_inner_def
    by (auto simp: Let_def simp del: descend.simps allocate_block.simps split: sum.splits)
  have "frozen P (cow_barrier_of ?s) ?s" "0 < cow_barrier_of ?s" "is_frozen_tree (bt_type ?s)"
    using assms(4-6) by (simp_all add: cow_barrier_of_def frozen_def bump_epoch_def)
  from cow_path_spares [OF c this] have "spares P ?s s4" "lb' \<notin> P" by auto
  then have "spares P ?s s'" using s' spares_trans spares_write by blast
  then show ?thesis by (auto simp: spares_def bump_epoch_def)
qed

lemma view_after:
  assumes "represents d hu u (open_frozen r ty s)" "spares (set (blocks u)) s s'"
  shows "represents d hu u (open_frozen r ty s')"
proof -
  have "stored d ty (bt_nodes s') hu u"
    using assms stored_cong [of u "bt_nodes s" "bt_nodes s'" d ty hu] by (simp add: represents_def open_frozen_def spares_def same_content_def)
  then show ?thesis using assms by (auto simp: represents_def open_frozen_def spares_def view_root_def)
qed

section \<open>A small tree\<close>

text \<open>Leaves of at most two pairs and internal nodes of at most three children, on an empty image.\<close>

definition dims3 :: dims where
  "dims3 = \<lparr>kv_size = 1344, kptr_size = 1341\<rparr>"

definition image0 :: "nat list \<Rightarrow> (nat, nat) btree" where
  "image0 fresh = \<lparr>bt_root = 0, bt_type = 0, bt_fast = None, bt_range = None, bt_frozen_view = False,
     bt_ctx = ctx_new \<lparr>disk_block = \<lambda>_. Inl DeviceError, live_barrier = 0, frozen_roots = [0, 0, 0]\<rparr> (transaction_new 1 0),
     bt_nodes = Map.empty, bt_gen = 0, bt_epoch = 0, bt_fresh = fresh\<rparr>"

text \<open>A snapshot records the current stamp as its barrier.\<close>

definition record_view :: "('k, 'v) btree \<Rightarrow> ('k, 'v) btree" where
  "record_view s = s\<lparr>bt_ctx := with_cow_barrier (bt_gen s) (bt_ctx s)\<rparr>"

lemma dims3_items [simp]: "max_leaf_items dims3 = 3" "max_internal_items dims3 = 3"
  by (simp_all add: max_leaf_items_def max_internal_items_def btree_payload_size_def block_size_def dims3_def)

lemma image0_simps [simp]: "bt_fresh (image0 fresh) = fresh" "effective_root (bt_ctx (image0 fresh)) ty r = r"
  by (simp_all add: image0_def ctx_new_def transaction_new_def effective_root_def frozen_root_def)

lemmas fuel_steps =
  btree_insert.simps(2) [of _ "pred_numeral k" for k, folded numeral_eq_Suc]
  descend.simps(2) [of _ "pred_numeral k" for k, folded numeral_eq_Suc]
  floor_loop.simps(2) [of _ "pred_numeral k" for k, folded numeral_eq_Suc]
  collect_pairs.simps(2) [of _ "pred_numeral k" for k, folded numeral_eq_Suc]

lemmas start = image0_def fresh_tree_def open_handle_def init_empty_def bump_epoch_def ctx_new_def transaction_new_def

lemmas steps = fuel_steps range_update_def fast_append_def read_node_def write_node_def item_count_def node_new_def view_root_def
  effective_root_def frozen_root_def cow_path_def cow_barrier_of_def effective_cow_barrier_def is_frozen_tree_def leaf_frozen_def
  put_in_leaf_def refresh_fast_leaf_if_rightmost_def leaf_put_def binary_search_def insert_at_def remove_at_def bump_epoch_def wrap_add_def
  split_leaf_def relink_next_def insert_into_parent.simps grow_root_def Let_def record_view_def open_frozen_def with_cow_barrier_def
  remove_with_alloc_def remove_inner_def cow_descent_path_def replace_child_ptr_def set_root_cell_def set_frozen_root_def
  iter_all_def lookup_floor_def

text \<open>One frozen leaf.\<close>

definition small_view :: "(nat, nat) btree" where
  "small_view = record_view (snd (run_ops dims3 3 [Put 1 10] (fresh_tree 5 1 (image0 [10, 11, 12]))))"

lemma small_view_ok:
  "represents dims3 0 (Lf 5 [(1, 10)]) small_view \<and> cache_ok (Lf 5 [(1, 10)]) small_view"
  "represents dims3 0 (Lf 5 [(1, 10)]) (open_frozen 5 1 small_view)"
  "bt_type small_view = 1" "bt_fresh small_view = [10, 11, 12]" "0 < cow_barrier_of small_view"
  "\<exists>n. bt_nodes small_view 5 = Some n \<and> bn_gen n \<le> cow_barrier_of small_view"
  by (simp add: small_view_def start, simp add: steps represents_def cache_ok_def leaf_at_def in_order_def)+

section \<open>The promises\<close>

text \<open>
  C3. From an empty tree, every sequence of inserts and removals runs to its end, tells of each removal whether the key was
  there, and leaves a tree whose lookups and whose ordered traversal are those of the finite map the sequence describes.
\<close>

theorem btree_refines_map:
  fixes ops :: "('k::linorder, 'v) tree_op list"
  assumes "effective_root (bt_ctx s) ty r = r" "distinct (0 # r # bt_fresh s)" "enough d fuel (length ops) 0 (length (bt_fresh s))"
  shows "\<exists>s' kvs. run_ops d fuel ops (fresh_tree r ty s) = (Inr (fst (map_ops ops Map.empty)), s') \<and>
    iter_all d fuel s' = Inr kvs \<and> sorted_wrt (<) (map fst kvs) \<and> map_of kvs = snd (map_ops ops Map.empty) \<and>
    (\<forall>k. btree_lookup d fuel k s' = Inr (snd (map_ops ops Map.empty) k))"
proof -
  obtain bs m where m: "map_ops ops Map.empty = (bs, m)" by (cases "map_ops ops Map.empty" rule: prod.exhaust)
  obtain s' t' h' where s': "run_ops d fuel ops (fresh_tree r ty s) = (Inr bs, s')" "represents d h' t' s'" "h' < fuel" "map_of (kvs_of t') = m"
    using fresh_run_ops [OF assms m] by blast
  then show ?thesis using iter_all_ok [OF s'(2,3)] lookup_represents [OF s'(2,3)] m by auto
qed

theorem btree_refines_map_witness:
  "\<exists>s' kvs. run_ops dims3 6 [Put 1 10, Put 2 20, Put 3 30, Del 2] (fresh_tree 5 4 (image0 [10..<90])) = (Inr [True], s') \<and>
    iter_all dims3 6 s' = Inr kvs \<and> sorted_wrt (<) (map fst kvs) \<and> map_of kvs = [1 \<mapsto> 10, 3 \<mapsto> 30] \<and>
    (\<forall>k. btree_lookup dims3 6 k s' = Inr (if k = 1 then Some 10 else if k = 3 then Some 30 else None))"
proof -
  have m: "snd (map_ops [Put (1 :: nat) (10 :: nat), Put 2 20, Put 3 30, Del 2] Map.empty) = [1 \<mapsto> 10, 3 \<mapsto> 30]"
    by (rule ext) simp
  show ?thesis using btree_refines_map [of "image0 [10..<90]" 4 5 dims3 6 "[Put 1 10, Put 2 20, Put 3 30, Del 2]"]
    unfolding m by (simp add: enough_def) (auto simp: fun_eq_iff)
qed

text \<open>
  C29. On a tree built by inserts alone, a floor lookup returns the pair with the largest key not above the one asked for, or
  nothing when every key is larger.
\<close>

theorem floor_after_inserts:
  fixes ops :: "('k::linorder, 'v) tree_op list"
  assumes "effective_root (bt_ctx s) ty r = r" "distinct (0 # r # bt_fresh s)" "enough d fuel (length ops) 0 (length (bt_fresh s))"
    "\<forall>x\<in>set ops. is_put x"
  shows "\<exists>s' kvs. run_ops d fuel ops (fresh_tree r ty s) = (Inr [], s') \<and> iter_all d fuel s' = Inr kvs \<and>
    (\<forall>key. lookup_floor d fuel key s' = Inr (floor_kv key kvs))"
proof -
  obtain bs m where m: "map_ops ops Map.empty = (bs, m)" by (cases "map_ops ops Map.empty" rule: prod.exhaust)
  have "fst (map_ops ops q) = []" for q :: "'k \<Rightarrow> 'v option"
    using assms(4) by (induction ops q rule: map_ops.induct) (auto simp: is_put_def)
  then have "bs = []" using m by (metis fst_conv)
  moreover obtain s' t' h' where s': "run_ops d fuel ops (fresh_tree r ty s) = (Inr bs, s')" "represents d h' t' s'" "h' < fuel" "tight t'"
    using fresh_run_ops [OF assms(1-3) m] assms(4) by blast
  ultimately show ?thesis using iter_all_ok(1) [OF s'(2,3)] lookup_floor_ok [OF s'(2,3,4)] by auto
qed

theorem floor_after_inserts_witness:
  "\<exists>s' kvs. run_ops dims3 6 [Put 1 10, Put 2 20, Put 3 30] (fresh_tree 5 4 (image0 [10..<90])) = (Inr [], s') \<and>
    iter_all dims3 6 s' = Inr kvs \<and> (\<forall>key. lookup_floor dims3 6 key s' = Inr (floor_kv key kvs))"
  using floor_after_inserts [of "image0 [10..<90]" 4 5 dims3 6 "[Put 1 10, Put 2 20, Put 3 30]"] by (simp add: enough_def is_put_def)

text \<open>
  C12. An insert returns: when a leaf can hold three pairs and an internal node two, the call after a split finds room, so beyond
  a bound given by the height more fuel changes nothing.
\<close>

theorem btree_insert_terminates:
  assumes "represents d h t s" "cache_ok t s" "3 \<le> max_leaf_items d" "2 \<le> max_internal_items d" "h + 1 < 2 ^ 16"
    "3 * h + 5 \<le> length (bt_fresh s)"
  shows "\<exists>s'. \<forall>fuel>h + 2. btree_insert d fuel key v s = (Inr (), s')"
proof -
  obtain s' where s': "btree_insert d (h + 3) key v s = (Inr (), s')"
    using insert_ok [OF assms(1-5) _ assms(6), of "h + 3" key v] by auto
  have "btree_insert d (h + 3 + n) key v s = (Inr (), s')" for n
  proof (induction n)
    case (Suc n)
    then show ?case using insert_mono by (simp only: add_Suc_right)
  qed (simp add: s')
  then have "btree_insert d fuel key v s = (Inr (), s')" if "h + 2 < fuel" for fuel
    using that le_Suc_ex [of "h + 3" fuel] by auto
  then show ?thesis by blast
qed

theorem btree_insert_terminates_witness:
  "\<exists>s'. \<forall>fuel>2. btree_insert dims3 fuel 7 70 (fresh_tree 5 4 (image0 [10..<20])) = (Inr (), s')"
proof -
  note f = fresh_tree_represents [of "image0 [10..<20]" 4 5 dims3, OF image0_simps(2)]
  show ?thesis using btree_insert_terminates [OF f(1,2), of 7 70] f(3) by simp (simp add: numeral_2_eq_2)
qed

text \<open>
  C5. While a recorded view is protected by the barrier, an insert that finds room in its leaf and a removal succeed on the
  live tree and leave the view exactly as it was: its traversal and its lookups still give the recorded contents.
\<close>

theorem recorded_view_survives:
  assumes "represents d h t s" "cache_ok t s" "h \<le> fuel" "h < length (bt_fresh s)" "roomy d key t"
    and "is_frozen_tree (bt_type s)" "0 < cow_barrier_of s"
    and "represents d hu u (open_frozen r (bt_type s) s)" "hu < fuel'"
    and "\<forall>b\<in>set (blocks u). \<exists>n. bt_nodes s b = Some n \<and> bn_gen n \<le> cow_barrier_of s"
    and "s' \<in> {snd (btree_insert d (Suc fuel) key v s), snd (remove_with_alloc d (Suc fuel) key s)}"
  shows "iter_all d fuel' (open_frozen r (bt_type s) s') = Inr (kvs_of u) \<and>
    btree_lookup d fuel' k (open_frozen r (bt_type s) s') = Inr (map_of (kvs_of u) k)"
proof -
  have "set (blocks u) \<inter> set (bt_fresh s) = {}" using assms(8) by (simp add: represents_def open_frozen_def)
  then have fz: "frozen (set (blocks u)) (cow_barrier_of s) s" using assms(10) by (simp add: frozen_def)
  have h: "h < Suc fuel" using assms(3) by simp
  obtain s1 where i: "btree_insert d (Suc fuel) key v s = (Inr (), s1)" using insert_roomy [OF assms(1,2) h assms(4,5)] by blast
  obtain b s2 where r: "remove_with_alloc d (Suc fuel) key s = (Inr b, s2)" using remove_with_alloc_ok [OF assms(1) h assms(4), of key] unfolding removed_def by blast
  have "spares (set (blocks u)) s s'"
    using insert_spares [OF assms(1,2) h assms(4,5) fz assms(7,6) i] remove_spares [OF assms(1) h assms(4) fz assms(7,6) r] assms(11) i r by auto
  from view_after [OF assms(8) this] show ?thesis using iter_all_ok(1) lookup_represents assms(9) by blast
qed

theorem recorded_view_survives_witness:
  "iter_all dims3 2 (open_frozen 5 1 (snd (btree_insert dims3 3 2 20 small_view))) = Inr [(1, 10)] \<and>
   btree_lookup dims3 2 1 (open_frozen 5 1 (snd (btree_insert dims3 3 2 20 small_view))) = Inr (Some 10)"
proof -
  have "roomy dims3 (2 :: nat) (Lf 5 [(1, 10 :: nat)])" by (auto simp: roomy_def Cons_eq_append_conv)
  then show ?thesis
    using recorded_view_survives [of dims3 0 "Lf 5 [(1, 10)]" small_view 2 2 0 "Lf 5 [(1, 10)]" 5 2 _ 20 1] small_view_ok
    by (simp add: is_frozen_tree_def kvs_of_def)
qed

section \<open>Their limits\<close>



end
