(* ===== verification/Journal.thy ===== *)
theory Journal
  imports Tx_Context
begin

text \<open>
  The metadata journal: \<^verbatim>\<open>src/crates/lionfs/src/transaction/manager.rs\<close> (numbering and commit),
  \<^verbatim>\<open>recovery/recovery.rs\<close> (the scan of the journal region and the choice of what to replay), \<^verbatim>\<open>recovery/replay.rs\<close>
  and the journal blocks of \<^verbatim>\<open>ondisk/serialization.rs\<close>.

  The disk is the map of its logical blocks. A commit is the sequence of disk operations it issues, so that a crash or an
  I/O error is a prefix of them; recovery works on the blocks a crash left. The checksum, CRC-32 of an external crate, is
  a parameter.
\<close>

section \<open>Journal blocks\<close>

definition journal_magic :: nat where
  "journal_magic = 0x4A4F55524E414C31"

record superblock =
  sb_generation :: nat
  sb_journal_start :: nat
  sb_journal_blocks :: nat

definition journal_header :: "(byte list \<Rightarrow> 32 word) \<Rightarrow> nat \<Rightarrow> nat \<Rightarrow> nat \<Rightarrow> byte list" where
  "journal_header crc i ts cnt =
     (let raw = (\<lambda>c. le_bytes 8 journal_magic @ le_bytes 4 1 @ le_bytes 4 cnt @ le_bytes 8 i @ le_bytes 8 ts @
                      le_bytes 4 c @ le_bytes 4 0 @ replicate (block_size - 40) 0)
      in raw (unat (crc (raw 0))))"

definition record_header :: "nat \<Rightarrow> nat \<Rightarrow> 32 word \<Rightarrow> byte list" where
  "record_header i b csum =
     le_bytes 8 i @ le_bytes 8 b @ le_bytes 4 (unat csum) @ le_bytes 4 0 @ replicate (block_size - 24) 0"

definition journal_footer :: "(byte list \<Rightarrow> 32 word) \<Rightarrow> nat \<Rightarrow> nat \<Rightarrow> byte list" where
  "journal_footer crc i cnt =
     (let raw = (\<lambda>c. le_bytes 8 journal_magic @ le_bytes 8 i @ le_bytes 4 cnt @ le_bytes 4 c @ replicate (block_size - 24) 0)
      in raw (unat (crc (raw 0))))"

text \<open>A field of a block read back, and the block with a field set to zero.\<close>

definition field :: "nat \<Rightarrow> nat \<Rightarrow> byte list \<Rightarrow> nat" where
  "field off n buf = of_le_bytes (take n (drop off buf))"

definition zero_field :: "nat \<Rightarrow> nat \<Rightarrow> byte list \<Rightarrow> byte list" where
  "zero_field off n buf = take off buf @ replicate n 0 @ drop (off + n) buf"

definition header_ok :: "(byte list \<Rightarrow> 32 word) \<Rightarrow> byte list \<Rightarrow> bool" where
  "header_ok crc buf \<longleftrightarrow> field 0 8 buf = journal_magic \<and> unat (crc (zero_field 32 4 buf)) = field 32 4 buf"

definition footer_ok :: "(byte list \<Rightarrow> 32 word) \<Rightarrow> nat \<Rightarrow> byte list \<Rightarrow> bool" where
  "footer_ok crc i buf \<longleftrightarrow> field 0 8 buf = journal_magic \<and> field 8 8 buf = i \<and> unat (crc (zero_field 20 4 buf)) = field 20 4 buf"

section \<open>Commit\<close>

record transaction_manager =
  current_tx_id :: nat
  next_journal_block :: nat

definition manager_new :: "superblock \<Rightarrow> transaction_manager" where
  "manager_new sb = \<lparr>current_tx_id = wrap_add (sb_generation sb) 1, next_journal_block = 0\<rparr>"

definition begin_tx :: "nat \<Rightarrow> transaction_manager \<Rightarrow> transaction \<times> transaction_manager" where
  "begin_tx ts tm = (transaction_new (current_tx_id tm) ts, tm\<lparr>current_tx_id := wrap_add (current_tx_id tm) 1\<rparr>)"

datatype disk_op = WriteBlock nat "byte list" | WriteRun nat "byte list" | Sync

function chunks :: "nat \<Rightarrow> 'a list \<Rightarrow> 'a list list" where
  "chunks n xs = (if n = 0 \<or> xs = [] then [] else take n xs # chunks n (drop n xs))"
  by pat_completeness auto
termination by (relation "measure (\<lambda>(n, xs). length xs)") auto

declare chunks.simps [simp del]

definition max_records :: "superblock \<Rightarrow> nat" where
  "max_records sb = (if 2 < sb_journal_blocks sb then (sb_journal_blocks sb - 2) div 2 else 1)"

definition sorted_keys :: "transaction \<Rightarrow> nat list" where
  "sorted_keys tx = sorted_list_of_set (dom (dirty_blocks tx))"

text \<open>The payload of one chunk of a transaction.\<close>

definition journal_payload :: "(byte list \<Rightarrow> 32 word) \<Rightarrow> transaction \<Rightarrow> nat list \<Rightarrow> byte list" where
  "journal_payload crc tx keys =
     journal_header crc (tx_id tx) (timestamp tx) (length keys) @
     concat (map (\<lambda>b. let data = the (dirty_blocks tx b) in record_header (tx_id tx) b (crc data) @ data) keys) @
     journal_footer crc (tx_id tx) (length keys)"

fun journal_ops :: "(byte list \<Rightarrow> 32 word) \<Rightarrow> superblock \<Rightarrow> transaction \<Rightarrow> nat list list \<Rightarrow> nat \<Rightarrow> disk_op list \<times> nat" where
  "journal_ops crc sb tx [] j = ([], j)"
| "journal_ops crc sb tx (keys # rest) j =
     (let total_blocks = 2 * length keys + 2; payload = journal_payload crc tx keys
      in if 0 < sb_journal_blocks sb
         then let start = j mod sb_journal_blocks sb; to_end = sb_journal_blocks sb - start;
                  ws = (if total_blocks \<le> to_end then [WriteRun (sb_journal_start sb + start) payload]
                        else [WriteRun (sb_journal_start sb + start) (take (to_end * block_size) payload),
                              WriteRun (sb_journal_start sb) (drop (to_end * block_size) payload)]);
                  (ops, j') = journal_ops crc sb tx rest (j + total_blocks)
              in (ws @ ops, j')
         else journal_ops crc sb tx rest j)"

fun run_length :: "nat \<Rightarrow> nat list \<Rightarrow> nat" where
  "run_length k [] = 1"
| "run_length k (k' # ks) = (if k' = k + 1 then Suc (run_length k' ks) else 1)"

lemma run_length_pos: "0 < run_length k ks"
  by (cases ks) auto

function home_ops :: "transaction \<Rightarrow> nat list \<Rightarrow> disk_op list" where
  "home_ops tx [] = []"
| "home_ops tx (k # ks) =
     (let n = run_length k ks
      in (if n = 1 then WriteBlock k (the (dirty_blocks tx k))
          else WriteRun k (concat (map (\<lambda>b. the (dirty_blocks tx b)) (take n (k # ks))))) # home_ops tx (drop n (k # ks)))"
  by pat_completeness auto
termination by (relation "measure (\<lambda>(tx, ks). length ks)") (auto simp: run_length_pos)

definition commit :: "(byte list \<Rightarrow> 32 word) \<Rightarrow> superblock \<Rightarrow> transaction \<Rightarrow> transaction_manager \<Rightarrow>
    (fault + disk_op list) \<times> transaction_manager" where
  "commit crc sb tx tm =
     (if dirty_blocks tx = Map.empty then (Inr [], tm)
      else if max_records sb = 0 then (Inl Panicked, tm)
      else let (ops, j) = journal_ops crc sb tx (chunks (max_records sb) (sorted_keys tx)) (next_journal_block tm)
           in (Inr (ops @ [Sync] @ home_ops tx (sorted_keys tx) @ [Sync]),
               if 0 < sb_journal_blocks sb then tm\<lparr>next_journal_block := j mod sb_journal_blocks sb\<rparr> else tm))"

section \<open>The disk under these operations\<close>

type_synonym image = "nat \<Rightarrow> io_error + byte list"

fun block_writes :: "disk_op \<Rightarrow> (nat \<times> byte list) list" where
  "block_writes (WriteBlock b data) = [(b, data)]"
| "block_writes (WriteRun b buf) = List.enumerate b (chunks block_size buf)"
| "block_writes Sync = []"

fun put_all :: "(nat \<times> byte list) list \<Rightarrow> image \<Rightarrow> image" where
  "put_all [] img = img"
| "put_all ((b, data) # ws) img = put_all ws (img(b := Inr data))"

definition exec_ops :: "disk_op list \<Rightarrow> image \<Rightarrow> image" where
  "exec_ops ops = put_all (concat (map block_writes ops))"

section \<open>Recovery\<close>

type_synonym records = "(nat \<times> byte list) list"

fun read_records :: "(byte list \<Rightarrow> 32 word) \<Rightarrow> superblock \<Rightarrow> image \<Rightarrow> nat \<Rightarrow> nat \<Rightarrow> records \<Rightarrow> io_error + bool \<times> nat \<times> records" where
  "read_records crc sb img 0 temp recs = Inr (True, temp, recs)"
| "read_records crc sb img (Suc n) temp recs =
     (if sb_journal_blocks sb \<le> temp then Inr (False, temp, recs)
      else case img (sb_journal_start sb + temp) of Inl e \<Rightarrow> Inl e
        | Inr rec_header \<Rightarrow>
            if sb_journal_blocks sb \<le> temp + 1 then Inr (False, temp + 1, recs)
            else case img (sb_journal_start sb + (temp + 1)) of Inl e \<Rightarrow> Inl e
              | Inr data \<Rightarrow>
                  if unat (crc data) \<noteq> field 16 4 rec_header then Inr (False, temp + 2, recs)
                  else read_records crc sb img n (temp + 2) (recs @ [(field 8 8 rec_header, data)]))"

text \<open>The transaction whose header is the block \<open>buf\<close> read at \<open>current\<close>, if all of it is there, and the place of its footer.\<close>

definition read_tx :: "(byte list \<Rightarrow> 32 word) \<Rightarrow> superblock \<Rightarrow> image \<Rightarrow> nat \<Rightarrow> byte list \<Rightarrow> io_error + (nat \<times> records \<times> nat) option" where
  "read_tx crc sb img current buf =
     (if \<not> header_ok crc buf then Inr None
      else case read_records crc sb img (field 12 4 buf) (current + 1) [] of Inl e \<Rightarrow> Inl e
        | Inr (valid, temp, recs) \<Rightarrow>
            if valid \<and> temp < sb_journal_blocks sb
            then (case img (sb_journal_start sb + temp) of Inl e \<Rightarrow> Inl e
                  | Inr fb \<Rightarrow> if footer_ok crc (field 16 8 buf) fb then Inr (Some (field 16 8 buf, recs, temp)) else Inr None)
            else Inr None)"

fun or_insert :: "nat \<Rightarrow> 'a \<Rightarrow> (nat \<times> 'a) list \<Rightarrow> (nat \<times> 'a) list" where
  "or_insert k v [] = [(k, v)]"
| "or_insert k v ((k', v') # xs) =
     (if k = k' then (k', v') # xs else if k < k' then (k, v) # (k', v') # xs else (k', v') # or_insert k v xs)"

lemma read_records_temp: "read_records crc sb img n temp recs = Inr (b, temp', recs') \<Longrightarrow> temp \<le> temp'"
  by (induction n arbitrary: temp recs) (fastforce split: if_splits sum.splits)+

lemma read_tx_temp: "read_tx crc sb img current buf = Inr (Some (i, recs, temp)) \<Longrightarrow> current < temp"
  by (auto simp: read_tx_def dest!: read_records_temp split: if_splits sum.splits)

function scan_journal :: "(byte list \<Rightarrow> 32 word) \<Rightarrow> superblock \<Rightarrow> image \<Rightarrow> nat \<Rightarrow> (nat \<times> records) list \<Rightarrow> nat \<Rightarrow>
    io_error + (nat \<times> records) list \<times> nat" where
  "scan_journal crc sb img current found highest =
     (if sb_journal_blocks sb \<le> current then Inr (found, highest)
      else case img (sb_journal_start sb + current) of Inl e \<Rightarrow> Inl e
        | Inr buf \<Rightarrow>
            (case read_tx crc sb img current buf of Inl e \<Rightarrow> Inl e
             | Inr None \<Rightarrow> scan_journal crc sb img (current + 1) found highest
             | Inr (Some (i, recs, temp)) \<Rightarrow> scan_journal crc sb img (temp + 1) (or_insert i recs found) (max i highest)))"
  by pat_completeness auto
termination
  by (relation "measure (\<lambda>(crc, sb, img, current, found, highest). sb_journal_blocks sb - current)")
    (auto dest: read_tx_temp)

declare scan_journal.simps [simp del]

text \<open>The consecutive run of identifiers at the end of an ascending list; the loop goes backwards.\<close>

fun run_back :: "nat list \<Rightarrow> nat list" where
  "run_back [] = []"
| "run_back [x] = [x]"
| "run_back (x # y # xs) = (if y + 1 = x then x # run_back (y # xs) else [x])"

definition crash_tail :: "nat list \<Rightarrow> nat list" where
  "crash_tail ids = rev (run_back (rev ids))"

definition apply_records :: "records \<Rightarrow> image \<Rightarrow> image" where
  "apply_records recs = put_all recs"

fun replay_ids :: "(nat \<times> records) list \<Rightarrow> nat list \<Rightarrow> image \<Rightarrow> image" where
  "replay_ids found [] img = img"
| "replay_ids found (i # is) img =
     (case map_of found i of Some recs \<Rightarrow> replay_ids found is (apply_records recs img) | None \<Rightarrow> replay_ids found is img)"

definition recover :: "(byte list \<Rightarrow> 32 word) \<Rightarrow> superblock \<Rightarrow> image \<Rightarrow> (io_error + nat) \<times> image" where
  "recover crc sb img =
     (if sb_journal_blocks sb = 0 then (Inr 0, img)
      else case scan_journal crc sb img 0 [] (sb_generation sb) of Inl e \<Rightarrow> (Inl e, img)
        | Inr (found, highest) \<Rightarrow>
            (Inr highest, replay_ids found (crash_tail (filter (\<lambda>i. sb_generation sb < i) (map fst found))) img))"

section \<open>Blocks read back\<close>

lemma field_le_bytes: "length pre = off \<Longrightarrow> n < 256 ^ k \<Longrightarrow> field off k (pre @ le_bytes k n @ post) = n"
  by (simp add: field_def)

lemma field_first: "n < 256 ^ k \<Longrightarrow> field 0 k (le_bytes k n @ post) = n"
  by (simp add: field_def)

lemma zero_field_upd: "length pre = off \<Longrightarrow> length x = n \<Longrightarrow> zero_field off n (pre @ x @ post) = pre @ replicate n 0 @ post"
  by (simp add: zero_field_def)

lemma le_bytes_zero: "le_bytes k 0 = replicate k 0"
  by (induction k) simp_all

lemma unat_crc_bound [simp]: "unat (w :: 32 word) < 256 ^ 4" "unat (w :: 32 word) < 4294967296"
  using unsigned_less [of w] by simp_all

lemma journal_magic_bound [simp]: "journal_magic < 256 ^ 8"
  by (simp add: journal_magic_def)

lemma journal_header_fields:
  assumes "i < 256 ^ 8" "cnt < 256 ^ 4"
  shows "header_ok crc (journal_header crc i ts cnt)" "field 12 4 (journal_header crc i ts cnt) = cnt"
    "field 16 8 (journal_header crc i ts cnt) = i" "length (journal_header crc i ts cnt) = block_size"
proof -
  define raw where "raw c = le_bytes 8 journal_magic @ le_bytes 4 1 @ le_bytes 4 cnt @ le_bytes 8 i @ le_bytes 8 ts @
    le_bytes 4 c @ le_bytes 4 0 @ replicate (block_size - 40) (0 :: byte)" for c
  have h: "journal_header crc i ts cnt = raw (unat (crc (raw 0)))" by (simp add: journal_header_def raw_def Let_def)
  have r: "raw c = (le_bytes 8 journal_magic @ le_bytes 4 1 @ le_bytes 4 cnt @ le_bytes 8 i @ le_bytes 8 ts) @ le_bytes 4 c @
    le_bytes 4 0 @ replicate (block_size - 40) 0" for c by (simp add: raw_def)
  have "zero_field 32 4 (raw c) = raw 0" for c unfolding r by (subst zero_field_upd) (simp_all add: le_bytes_zero)
  moreover have "field 32 4 (raw c) = c" if "c < 256 ^ 4" for c unfolding r using that by (subst field_le_bytes) simp_all
  moreover have "field 0 8 (raw c) = journal_magic" for c unfolding raw_def by (rule field_first) (rule journal_magic_bound)
  ultimately show "header_ok crc (journal_header crc i ts cnt)" by (simp add: header_ok_def h)
  have "raw c = (le_bytes 8 journal_magic @ le_bytes 4 1) @ le_bytes 4 cnt @ (le_bytes 8 i @ le_bytes 8 ts @ le_bytes 4 c @
    le_bytes 4 0 @ replicate (block_size - 40) 0)" for c by (simp add: raw_def)
  then show "field 12 4 (journal_header crc i ts cnt) = cnt" unfolding h using assms(2) by (simp only: field_le_bytes length_append length_le_bytes)
  have "raw c = (le_bytes 8 journal_magic @ le_bytes 4 1 @ le_bytes 4 cnt) @ le_bytes 8 i @ (le_bytes 8 ts @ le_bytes 4 c @
    le_bytes 4 0 @ replicate (block_size - 40) 0)" for c by (simp add: raw_def)
  then show "field 16 8 (journal_header crc i ts cnt) = i" unfolding h using assms(1) by (simp only: field_le_bytes length_append length_le_bytes)
  show "length (journal_header crc i ts cnt) = block_size" by (simp add: h raw_def block_size_def)
qed

lemma record_fields:
  assumes "i < 256 ^ 8" "b < 256 ^ 8"
  shows "field 8 8 (record_header i b c) = b" "field 16 4 (record_header i b c) = unat c" "field 0 8 (record_header i b c) = i"
    "length (record_header i b c) = block_size"
proof -
  have 1: "record_header i b c = le_bytes 8 i @ le_bytes 8 b @ (le_bytes 4 (unat c) @ le_bytes 4 0 @ replicate (block_size - 24) 0)"
    and 2: "record_header i b c = (le_bytes 8 i @ le_bytes 8 b) @ le_bytes 4 (unat c) @ (le_bytes 4 0 @ replicate (block_size - 24) 0)"
    and 3: "record_header i b c = [] @ le_bytes 8 i @ (le_bytes 8 b @ le_bytes 4 (unat c) @ le_bytes 4 0 @ replicate (block_size - 24) 0)"
    by (simp_all add: record_header_def)
  show "field 8 8 (record_header i b c) = b" using assms by (subst 1, subst field_le_bytes) simp_all
  show "field 16 4 (record_header i b c) = unat c" using assms by (subst 2, subst field_le_bytes) simp_all
  show "field 0 8 (record_header i b c) = i" using assms by (subst 3, subst field_le_bytes) simp_all
  show "length (record_header i b c) = block_size" by (simp add: record_header_def block_size_def)
qed

lemma footer_fields:
  assumes "i < 256 ^ 8"
  shows "footer_ok crc i (journal_footer crc i cnt)" "length (journal_footer crc i cnt) = block_size"
proof -
  define raw where "raw c = le_bytes 8 journal_magic @ le_bytes 8 i @ le_bytes 4 cnt @ le_bytes 4 c @ replicate (block_size - 24) (0 :: byte)" for c
  have h: "journal_footer crc i cnt = raw (unat (crc (raw 0)))" by (simp add: journal_footer_def raw_def Let_def)
  have r: "raw c = (le_bytes 8 journal_magic @ le_bytes 8 i @ le_bytes 4 cnt) @ le_bytes 4 c @ replicate (block_size - 24) 0" for c
    by (simp add: raw_def)
  have "zero_field 20 4 (raw c) = raw 0" for c unfolding r by (subst zero_field_upd) (simp_all add: le_bytes_zero)
  moreover have "field 20 4 (raw c) = c" if "c < 256 ^ 4" for c unfolding r using that by (subst field_le_bytes) simp_all
  moreover have "field 0 8 (raw c) = journal_magic" for c unfolding raw_def by (rule field_first) (rule journal_magic_bound)
  moreover have "field 8 8 (raw c) = i" for c unfolding raw_def using assms by (subst field_le_bytes) simp_all
  ultimately show "footer_ok crc i (journal_footer crc i cnt)" by (simp add: footer_ok_def h)
  show "length (journal_footer crc i cnt) = block_size" by (simp add: h raw_def block_size_def)
qed

section \<open>What a commit writes\<close>

definition block_of :: "transaction \<Rightarrow> nat \<Rightarrow> byte list" where
  "block_of tx b = the (dirty_blocks tx b)"

definition home_writes :: "transaction \<Rightarrow> (nat \<times> byte list) list" where
  "home_writes tx = map (\<lambda>b. (b, block_of tx b)) (sorted_keys tx)"

definition tx_blocks :: "(byte list \<Rightarrow> 32 word) \<Rightarrow> transaction \<Rightarrow> byte list list" where
  "tx_blocks crc tx = journal_header crc (tx_id tx) (timestamp tx) (length (sorted_keys tx)) #
     concat (map (\<lambda>b. [record_header (tx_id tx) b (crc (block_of tx b)), block_of tx b]) (sorted_keys tx)) @
     [journal_footer crc (tx_id tx) (length (sorted_keys tx))]"

definition tx_size :: "transaction \<Rightarrow> nat" where
  "tx_size tx = 2 * length (sorted_keys tx) + 2"

definition in_journal :: "superblock \<Rightarrow> nat \<Rightarrow> bool" where
  "in_journal sb b \<longleftrightarrow> sb_journal_start sb \<le> b \<and> b < sb_journal_start sb + sb_journal_blocks sb"

text \<open>A transaction as the callers make them: whole blocks outside the journal, in one chunk.\<close>

definition tx_ok :: "superblock \<Rightarrow> transaction \<Rightarrow> bool" where
  "tx_ok sb tx \<longleftrightarrow> finite (dom (dirty_blocks tx)) \<and> dom (dirty_blocks tx) \<noteq> {} \<and> tx_id tx < 2 ^ 64 \<and> tx_id tx \<noteq> journal_magic \<and>
     (\<forall>b data. dirty_blocks tx b = Some data \<longrightarrow> length data = block_size \<and> b < 2 ^ 64 \<and> \<not> in_journal sb b) \<and>
     tx_size tx \<le> sb_journal_blocks sb \<and> sb_journal_blocks sb < 2 ^ 32"

lemma keys_ok:
  assumes "tx_ok sb tx"
  shows "set (sorted_keys tx) = dom (dirty_blocks tx)" "distinct (sorted_keys tx)" "sorted_keys tx \<noteq> []"
    "b \<in> set (sorted_keys tx) \<Longrightarrow> length (block_of tx b) = block_size \<and> b < 256 ^ 8 \<and> \<not> in_journal sb b \<and> dirty_blocks tx b = Some (block_of tx b)"
    "length (sorted_keys tx) < 256 ^ 4" "tx_id tx < 256 ^ 8"
proof -
  show s: "set (sorted_keys tx) = dom (dirty_blocks tx)" and "distinct (sorted_keys tx)"
    using assms by (simp_all add: tx_ok_def sorted_keys_def)
  then show "sorted_keys tx \<noteq> []" using assms by (metis tx_ok_def empty_set)
  show "length (block_of tx b) = block_size \<and> b < 256 ^ 8 \<and> \<not> in_journal sb b \<and> dirty_blocks tx b = Some (block_of tx b)" if k: "b \<in> set (sorted_keys tx)"
  proof -
    obtain data where d: "dirty_blocks tx b = Some data" using s k by auto
    then have "length data = block_size \<and> b < 2 ^ 64 \<and> \<not> in_journal sb b" using assms unfolding tx_ok_def by blast
    then show ?thesis using d by (simp add: block_of_def)
  qed
  show "length (sorted_keys tx) < 256 ^ 4" "tx_id tx < 256 ^ 8" using assms by (simp_all add: tx_ok_def tx_size_def)
qed

lemma tx_blocks_lengths:
  assumes "tx_ok sb tx"
  shows "\<forall>x\<in>set (tx_blocks crc tx). length x = block_size" "length (tx_blocks crc tx) = tx_size tx"
proof -
  have "length (concat (map (\<lambda>b. [f b, g b]) ks)) = 2 * length ks" for f g :: "nat \<Rightarrow> 'a" and ks by (induction ks) simp_all
  then show "length (tx_blocks crc tx) = tx_size tx" by (simp add: tx_blocks_def tx_size_def)
  show "\<forall>x\<in>set (tx_blocks crc tx). length x = block_size"
    using journal_header_fields(4) record_fields(4) footer_fields(2) keys_ok [OF assms] by (auto simp: tx_blocks_def)
qed

lemma chunks_concat: "\<forall>x\<in>set bs. length x = n \<Longrightarrow> 0 < n \<Longrightarrow> chunks n (concat bs) = bs"
proof (induction bs)
  case (Cons b bs)
  then have "concat (b # bs) \<noteq> []" by auto
  then show ?case using Cons by (subst chunks.simps) auto
qed (simp add: chunks.simps)

lemma payload_blocks: "journal_payload crc tx (sorted_keys tx) = concat (tx_blocks crc tx)"
proof -
  have "concat (map (\<lambda>b. f b @ g b) ks) = concat (concat (map (\<lambda>b. [f b, g b]) ks))" for f g :: "nat \<Rightarrow> byte list" and ks
    by (induction ks) simp_all
  then show ?thesis by (simp add: journal_payload_def tx_blocks_def block_of_def Let_def)
qed

lemma home_ops_writes:
  assumes "\<forall>b\<in>set ks. length (block_of tx b) = block_size"
  shows "concat (map block_writes (home_ops tx ks)) = map (\<lambda>b. (b, block_of tx b)) ks"
  using assms
proof (induction tx ks rule: home_ops.induct)
  case (2 tx k ks)
  have run: "take n (k # ks) = [k..<k + n]" if "n \<le> run_length k ks" for n k ks
    using that
  proof (induction k ks arbitrary: n rule: run_length.induct)
    case (1 k)
    then show ?case by (cases n) auto
  next
    case (2 k k' ks)
    show ?case
    proof (cases n)
      case (Suc m)
      then show ?thesis using 2(1) [of m] 2(2) by (cases m) (auto simp: upt_conv_Cons split: if_splits)
    qed simp
  qed
  let ?n = "run_length k ks"
  let ?run = "take ?n (k # ks)"
  have "map (\<lambda>b. (b, block_of tx b)) [k..<k + ?n] = List.enumerate k (map (block_of tx) [k..<k + ?n])"
    by (simp add: enumerate_eq_zip map_zip_map2 zip_same_conv_map [symmetric]) (simp add: zip_map2 zip_same_conv_map)
  moreover have "chunks block_size (concat (map (block_of tx) ?run)) = map (block_of tx) ?run"
    using 2(2) set_take_subset [of ?n "k # ks"] by (intro chunks_concat) (auto simp: block_size_def)
  ultimately have "block_writes (if ?n = 1 then WriteBlock k (the (dirty_blocks tx k))
      else WriteRun k (concat (map (\<lambda>b. the (dirty_blocks tx b)) ?run))) = map (\<lambda>b. (b, block_of tx b)) ?run"
    using run [of ?n k ks] by (auto simp: block_of_def [symmetric])
  moreover have "concat (map block_writes (home_ops tx (drop ?n (k # ks)))) = map (\<lambda>b. (b, block_of tx b)) (drop ?n (k # ks))"
    using 2(2) set_drop_subset [of ?n "k # ks"] by (intro 2(1)) auto
  ultimately show ?case by (simp only: home_ops.simps Let_def list.map concat.simps map_append [symmetric] append_take_drop_id)
qed simp

lemma commit_ok:
  assumes "tx_ok sb tx" "next_journal_block tm + tx_size tx \<le> sb_journal_blocks sb"
  shows "commit crc sb tx tm = (Inr ([WriteRun (sb_journal_start sb + next_journal_block tm) (concat (tx_blocks crc tx))] @ [Sync] @
      home_ops tx (sorted_keys tx) @ [Sync]),
    tm\<lparr>next_journal_block := (next_journal_block tm + tx_size tx) mod sb_journal_blocks sb\<rparr>)"
proof -
  have k: "sorted_keys tx \<noteq> []" using keys_ok(3) [OF assms(1)] .
  have "length (sorted_keys tx) \<le> max_records sb" using assms(1) by (auto simp: tx_ok_def tx_size_def max_records_def)
  moreover from this have "0 < max_records sb" using k by (cases "sorted_keys tx") auto
  ultimately have "chunks (max_records sb) (sorted_keys tx) = [sorted_keys tx]" "0 < max_records sb"
    using k by (auto simp: chunks.simps [of "max_records sb"] chunks.simps [of _ "[]"])
  moreover have "dirty_blocks tx \<noteq> Map.empty" using assms(1) by (auto simp: tx_ok_def)
  moreover have "0 < sb_journal_blocks sb" "next_journal_block tm < sb_journal_blocks sb"
    using assms by (auto simp: tx_ok_def tx_size_def)
  ultimately show ?thesis using assms(2) unfolding commit_def
    by (simp add: Let_def tx_size_def payload_blocks)
qed

section \<open>Images\<close>

lemma put_all_append: "put_all (xs @ ys) img = put_all ys (put_all xs img)"
  by (induction xs arbitrary: img) auto

lemma put_all_enumerate:
  "put_all (List.enumerate n xs) img b = (if n \<le> b \<and> b < n + length xs then Inr (xs ! (b - n)) else img b)"
proof (induction xs arbitrary: n img)
  case (Cons x xs)
  then show ?case by (auto simp: nth_Cons')
qed auto

lemma put_all_other: "b \<notin> fst ` set ws \<Longrightarrow> put_all ws img b = img b"
  by (induction ws img rule: put_all.induct) auto

text \<open>The image with the blocks of one transaction at home, and of a sequence of them.\<close>

definition apply_tx :: "transaction \<Rightarrow> image \<Rightarrow> image" where
  "apply_tx tx img b = (case dirty_blocks tx b of Some data \<Rightarrow> Inr data | None \<Rightarrow> img b)"

definition apply_txs :: "transaction list \<Rightarrow> image \<Rightarrow> image" where
  "apply_txs txs img = fold apply_tx txs img"

lemma put_all_map:
  "distinct ks \<Longrightarrow> put_all (map (\<lambda>b. (b, f b)) ks) img b = (if b \<in> set ks then Inr (f b) else img b)"
proof (induction ks arbitrary: img)
  case (Cons k ks)
  then show ?case by auto
qed simp

lemma put_home:
  assumes "tx_ok sb tx"
  shows "put_all (home_writes tx) img = apply_tx tx img"
proof
  fix b
  show "put_all (home_writes tx) img b = apply_tx tx img b"
    using put_all_map [OF keys_ok(2) [OF assms], of "block_of tx" img b] keys_ok(1,4) [OF assms]
    by (auto simp: home_writes_def apply_tx_def split: option.splits)
qed

fun written :: "transaction list \<Rightarrow> nat \<Rightarrow> byte list option" where
  "written [] b = None"
| "written (tx # txs) b = (case written txs b of Some data \<Rightarrow> Some data | None \<Rightarrow> dirty_blocks tx b)"

lemma apply_txs_written: "apply_txs txs img b = (case written txs b of Some data \<Rightarrow> Inr data | None \<Rightarrow> img b)"
  by (induction txs arbitrary: img) (auto simp: apply_txs_def apply_tx_def split: option.splits)

lemma written_append: "written (xs @ ys) b = (case written ys b of Some data \<Rightarrow> Some data | None \<Rightarrow> written xs b)"
  by (induction xs) (auto split: option.splits)

lemma apply_suffix: "apply_txs (drop n txs) (apply_txs txs img) = apply_txs txs img"
proof
  fix b
  show "apply_txs (drop n txs) (apply_txs txs img) b = apply_txs txs img b"
    using written_append [of "take n txs" "drop n txs" b] by (auto simp: apply_txs_written split: option.splits)
qed

section \<open>Reading transactions back\<close>

fun blocks_at :: "superblock \<Rightarrow> image \<Rightarrow> nat \<Rightarrow> byte list list \<Rightarrow> bool" where
  "blocks_at sb img p [] \<longleftrightarrow> True"
| "blocks_at sb img p (x # xs) \<longleftrightarrow> img (sb_journal_start sb + p) = Inr x \<and> blocks_at sb img (Suc p) xs"

lemma blocks_at_append: "blocks_at sb img p (xs @ ys) \<longleftrightarrow> blocks_at sb img p xs \<and> blocks_at sb img (p + length xs) ys"
  by (induction xs arbitrary: p) auto

lemma blocks_at_nth: "blocks_at sb img p xs \<longleftrightarrow> (\<forall>i<length xs. img (sb_journal_start sb + p + i) = Inr (xs ! i))"
  by (induction xs arbitrary: p) (auto simp: All_less_Suc2)

lemma read_records_ok:
  assumes "blocks_at sb img temp (concat (map (\<lambda>b. [record_header i b (crc (f b)), f b]) ks))" "temp + 2 * length ks \<le> sb_journal_blocks sb"
    "i < 256 ^ 8" "\<forall>b\<in>set ks. b < 256 ^ 8"
  shows "read_records crc sb img (length ks) temp recs = Inr (True, temp + 2 * length ks, recs @ map (\<lambda>b. (b, f b)) ks)"
  using assms
proof (induction ks arbitrary: temp recs)
  case (Cons k ks)
  have r: "img (sb_journal_start sb + temp) = Inr (record_header i k (crc (f k)))" "img (sb_journal_start sb + (temp + 1)) = Inr (f k)"
    "blocks_at sb img (temp + 2) (concat (map (\<lambda>b. [record_header i b (crc (f b)), f b]) ks))"
    using Cons.prems(1) by simp_all
  have "field 16 4 (record_header i k (crc (f k))) = unat (crc (f k))" "field 8 8 (record_header i k (crc (f k))) = k"
    using record_fields(1,2) [of i k] Cons.prems(3,4) by simp_all
  moreover have "read_records crc sb img (length ks) (temp + 2) (recs @ [(k, f k)]) =
      Inr (True, temp + 2 + 2 * length ks, (recs @ [(k, f k)]) @ map (\<lambda>b. (b, f b)) ks)"
    using Cons.prems by (intro Cons.IH r(3)) simp_all
  ultimately show ?case using r Cons.prems(2) by simp
qed simp

lemma read_tx_ok:
  assumes "tx_ok sb tx" "blocks_at sb img p (tx_blocks crc tx)" "p + tx_size tx \<le> sb_journal_blocks sb"
  shows "read_tx crc sb img p (journal_header crc (tx_id tx) (timestamp tx) (length (sorted_keys tx))) =
    Inr (Some (tx_id tx, home_writes tx, p + tx_size tx - 1))"
proof -
  note k = keys_ok [OF assms(1)]
  let ?recs = "concat (map (\<lambda>b. [record_header (tx_id tx) b (crc (block_of tx b)), block_of tx b]) (sorted_keys tx))"
  have l: "length ?recs = 2 * length (sorted_keys tx)" using tx_blocks_lengths(2) [OF assms(1), of crc] by (simp add: tx_blocks_def tx_size_def)
  have b: "blocks_at sb img (Suc p) ?recs" "img (sb_journal_start sb + (Suc p + 2 * length (sorted_keys tx))) = Inr (journal_footer crc (tx_id tx) (length (sorted_keys tx)))"
    using assms(2) unfolding tx_blocks_def by (simp_all add: blocks_at_append l)
  have "read_records crc sb img (length (sorted_keys tx)) (Suc p) [] = Inr (True, Suc p + 2 * length (sorted_keys tx), [] @ map (\<lambda>b. (b, block_of tx b)) (sorted_keys tx))"
    by (rule read_records_ok [OF b(1)]) (use assms(3) k in \<open>auto simp: tx_size_def\<close>)
  then show ?thesis using assms(3) b(2) journal_header_fields(1-3) [OF k(6,5), of crc "timestamp tx"] footer_fields(1) [OF k(6), of crc "length (sorted_keys tx)"]
    by (simp add: read_tx_def tx_size_def home_writes_def)
qed

lemma scan_accept:
  assumes "p < sb_journal_blocks sb" "img (sb_journal_start sb + p) = Inr buf" "read_tx crc sb img p buf = Inr (Some (n, recs, temp))"
  shows "scan_journal crc sb img p found highest = scan_journal crc sb img (temp + 1) (or_insert n recs found) (max n highest)"
  using assms by (subst scan_journal.simps) simp

lemma scan_tx:
  assumes "tx_ok sb tx" "blocks_at sb img p (tx_blocks crc tx)" "p + tx_size tx \<le> sb_journal_blocks sb"
  shows "scan_journal crc sb img p found highest =
    scan_journal crc sb img (p + tx_size tx) (or_insert (tx_id tx) (home_writes tx) found) (max (tx_id tx) highest)"
proof -
  have "img (sb_journal_start sb + p) = Inr (journal_header crc (tx_id tx) (timestamp tx) (length (sorted_keys tx)))"
    using assms(2) by (simp add: tx_blocks_def)
  then show ?thesis using scan_accept [OF _ _ read_tx_ok [OF assms]] assms(3) by (simp add: tx_size_def)
qed

lemma or_insert_last: "\<forall>x\<in>fst ` set found. x < k \<Longrightarrow> or_insert k v found = found @ [(k, v)]"
  by (induction k v found rule: or_insert.induct) auto

lemma scan_txs:
  assumes "\<forall>tx\<in>set txs. tx_ok sb tx" "blocks_at sb img p (concat (map (tx_blocks crc) txs))"
    "p + sum_list (map tx_size txs) \<le> sb_journal_blocks sb" "sorted_wrt (<) (highest # map tx_id txs)" "\<forall>x\<in>fst ` set found. x \<le> highest"
  shows "scan_journal crc sb img p found highest = scan_journal crc sb img (p + sum_list (map tx_size txs))
    (found @ map (\<lambda>tx. (tx_id tx, home_writes tx)) txs) (last (highest # map tx_id txs))"
  using assms
proof (induction txs arbitrary: p found highest)
  case (Cons tx txs)
  have ok: "tx_ok sb tx" using Cons.prems(1) by simp
  have b: "blocks_at sb img p (tx_blocks crc tx)" "blocks_at sb img (p + tx_size tx) (concat (map (tx_blocks crc) txs))"
    using Cons.prems(2) tx_blocks_lengths(2) [OF ok, of crc] by (simp_all add: blocks_at_append)
  have "or_insert (tx_id tx) (home_writes tx) found = found @ [(tx_id tx, home_writes tx)]"
    using Cons.prems(4,5) by (intro or_insert_last) force
  moreover have "max (tx_id tx) highest = tx_id tx" using Cons.prems(4) by simp
  ultimately have "scan_journal crc sb img p found highest =
      scan_journal crc sb img (p + tx_size tx) (found @ [(tx_id tx, home_writes tx)]) (tx_id tx)"
    using scan_tx [OF ok b(1)] Cons.prems(3) by simp
  also have "\<dots> = scan_journal crc sb img (p + tx_size tx + sum_list (map tx_size txs))
      ((found @ [(tx_id tx, home_writes tx)]) @ map (\<lambda>tx. (tx_id tx, home_writes tx)) txs) (last (tx_id tx # map tx_id txs))"
    using Cons.prems by (intro Cons.IH b(2)) (auto intro: less_imp_le order_trans)
  finally show ?case by (simp add: add.assoc)
qed simp

text \<open>
  Nothing in the journal from position \<open>p\<close> on passes for a transaction numbered above \<open>g\<close>: whatever the scan still finds
  there is filtered out later.
\<close>

definition readable_journal :: "superblock \<Rightarrow> image \<Rightarrow> bool" where
  "readable_journal sb img \<longleftrightarrow> (\<forall>i < sb_journal_blocks sb. \<exists>buf. img (sb_journal_start sb + i) = Inr buf)"

definition dead_from :: "(byte list \<Rightarrow> 32 word) \<Rightarrow> superblock \<Rightarrow> image \<Rightarrow> nat \<Rightarrow> nat \<Rightarrow> bool" where
  "dead_from crc sb img g p \<longleftrightarrow> (\<forall>i buf. p \<le> i \<longrightarrow> i < sb_journal_blocks sb \<longrightarrow> img (sb_journal_start sb + i) = Inr buf \<longrightarrow>
     (\<forall>n recs temp. read_tx crc sb img i buf = Inr (Some (n, recs, temp)) \<longrightarrow> n \<le> g))"

lemma filter_or_insert: "n \<le> g \<Longrightarrow> filter (\<lambda>x. g < fst x) (or_insert n v found) = filter (\<lambda>x. g < fst x) found"
  by (induction n v found rule: or_insert.induct) auto

lemma read_records_total:
  assumes "readable_journal sb img"
  shows "\<exists>valid temp' recs'. read_records crc sb img n temp recs = Inr (valid, temp', recs') \<and> (valid \<longrightarrow> temp' = temp + 2 * n)"
proof (induction n arbitrary: temp recs)
  case (Suc n)
  show ?case
  proof (cases "temp + 1 < sb_journal_blocks sb")
    case True
    then have "temp < sb_journal_blocks sb" by simp
    then obtain rh data where "img (sb_journal_start sb + temp) = Inr rh" "img (sb_journal_start sb + (temp + 1)) = Inr data"
      using assms True unfolding readable_journal_def by blast
    then show ?thesis using Suc [of "temp + 2" "recs @ [(field 8 8 rh, data)]"] True by auto
  next
    case False
    show ?thesis
    proof (cases "temp < sb_journal_blocks sb")
      case True
      then obtain rh where "img (sb_journal_start sb + temp) = Inr rh" using assms unfolding readable_journal_def by blast
      then show ?thesis using False True by (intro exI [of _ False]) simp
    qed (intro exI [of _ False], simp)
  qed
qed auto

lemma read_tx_total:
  assumes "readable_journal sb img"
  shows "\<exists>r. read_tx crc sb img i buf = Inr r"
proof -
  obtain valid temp recs where "read_records crc sb img (field 12 4 buf) (i + 1) [] = Inr (valid, temp, recs)"
    using read_records_total [OF assms] by blast
  then show ?thesis using assms by (auto simp: read_tx_def readable_journal_def split: sum.splits)
qed

lemma scan_dead:
  assumes "readable_journal sb img" "dead_from crc sb img g p" "g \<le> highest"
  shows "\<exists>found'. scan_journal crc sb img p found highest = Inr (found', highest) \<and>
    filter (\<lambda>x. g < fst x) found' = filter (\<lambda>x. g < fst x) found"
  using assms(2)
proof (induction "sb_journal_blocks sb - p" arbitrary: p found rule: less_induct)
  case less
  show ?case
  proof (cases "p < sb_journal_blocks sb")
    case True
    then obtain buf where buf: "img (sb_journal_start sb + p) = Inr buf" using assms(1) unfolding readable_journal_def by blast
    have weaken: "dead_from crc sb img g q" if "p \<le> q" for q using less.prems that unfolding dead_from_def by (meson order_trans)
    obtain r where r: "read_tx crc sb img p buf = Inr r" using read_tx_total [OF assms(1)] by blast
    show ?thesis
    proof (cases r)
      case None
      then show ?thesis using less.hyps [of "p + 1" found] weaken [of "p + 1"] True buf r by (subst scan_journal.simps) simp
    next
      case (Some x)
      then obtain n recs temp where x: "x = (n, recs, temp)" by (cases x)
      have n: "n \<le> g" "p < temp" using less.prems True buf r Some x read_tx_temp [of crc sb img p buf] by (auto simp: dead_from_def)
      then have "max n highest = highest" using assms(3) by simp
      then show ?thesis
        using less.hyps [of "temp + 1" "or_insert n recs found"] weaken [of "temp + 1"] True buf r Some x n filter_or_insert [OF n(1), of recs found]
        by (subst scan_journal.simps) simp
    qed
  qed (simp add: scan_journal.simps)
qed

section \<open>Replay\<close>

lemma run_back_prefix: "\<exists>n. run_back xs = take n xs \<and> (xs \<noteq> [] \<longrightarrow> 0 < n)"
proof (induction xs rule: run_back.induct)
  case (3 x y xs)
  show ?case
  proof (cases "y + 1 = x")
    case True
    then obtain n where "run_back (y # xs) = take n (y # xs)" using 3 by blast
    then show ?thesis using True by (intro exI [of _ "Suc n"]) simp
  next
    case False
    then show ?thesis by (intro exI [of _ 1]) simp
  qed
qed (auto intro: exI [of _ 1])

lemma crash_tail_suffix: "\<exists>n. crash_tail xs = drop n xs \<and> (xs \<noteq> [] \<longrightarrow> n < length xs)"
proof -
  obtain n where "run_back (rev xs) = take n (rev xs)" "xs \<noteq> [] \<longrightarrow> 0 < n" using run_back_prefix [of "rev xs"] by auto
  then show ?thesis unfolding crash_tail_def by (intro exI [of _ "length xs - n"]) (auto simp: take_rev)
qed

lemma replay_txs:
  assumes "\<forall>tx\<in>set txs. tx_ok sb tx" "\<forall>tx\<in>set txs. map_of found (tx_id tx) = Some (home_writes tx)"
  shows "replay_ids found (map tx_id txs) img = apply_txs txs img"
  using assms
proof (induction txs arbitrary: img)
  case (Cons tx txs)
  then show ?case using put_home [of sb tx img] by (simp add: apply_records_def apply_txs_def)
qed (simp add: apply_txs_def)

lemma map_of_filter_above: "g < i \<Longrightarrow> map_of (filter (\<lambda>x. g < fst x) found) i = map_of found i"
  by (induction found) auto

lemma recover_found:
  assumes "0 < sb_journal_blocks sb" "g = sb_generation sb" "\<forall>tx\<in>set txs. tx_ok sb tx" "sorted_wrt (<) (g # map tx_id txs)"
    "scan_journal crc sb img 0 [] g = scan_journal crc sb img q (map (\<lambda>tx. (tx_id tx, home_writes tx)) txs) (last (g # map tx_id txs))"
    "readable_journal sb img" "dead_from crc sb img g q"
  shows "\<exists>n. recover crc sb img = (Inr (last (g # map tx_id txs)), apply_txs (drop n txs) img) \<and> (txs \<noteq> [] \<longrightarrow> n < length txs)"
proof -
  let ?all = "map (\<lambda>tx. (tx_id tx, home_writes tx)) txs"
  have above: "\<forall>i\<in>set (map tx_id txs). g < i" using assms(4) by simp
  have "last (g # map tx_id txs) \<in> set (g # map tx_id txs)" by (rule last_in_set) simp
  then have hi: "g \<le> last (g # map tx_id txs)" using above by (auto simp del: last.simps)
  obtain found where f: "scan_journal crc sb img q ?all (last (g # map tx_id txs)) = Inr (found, last (g # map tx_id txs))"
    "filter (\<lambda>x. g < fst x) found = filter (\<lambda>x. g < fst x) ?all"
    using scan_dead [OF assms(6,7) hi] by blast
  have all: "filter (\<lambda>x. g < fst x) ?all = ?all" using above by (simp add: filter_id_conv)
  have "filter (\<lambda>i. g < i) (map fst found) = map fst (filter (\<lambda>x. g < fst x) found)" by (simp add: filter_map o_def)
  also have "\<dots> = map tx_id txs" unfolding f(2) all by (simp add: o_def)
  finally have ids: "filter (\<lambda>i. g < i) (map fst found) = map tx_id txs" .
  obtain n where n: "crash_tail (map tx_id txs) = drop n (map tx_id txs)" "txs \<noteq> [] \<longrightarrow> n < length txs"
    using crash_tail_suffix [of "map tx_id txs"] by auto
  have "map_of found (tx_id tx) = Some (home_writes tx)" if "tx \<in> set txs" for tx
  proof -
    have "distinct (map tx_id txs)" using assms(4) by (simp add: strict_sorted_iff)
    then have "map_of ?all (tx_id tx) = Some (home_writes tx)" using that by (intro map_of_is_SomeI) (auto simp: o_def)
    then show ?thesis using map_of_filter_above [of g "tx_id tx" found] above that unfolding f(2) all by simp
  qed
  then have "\<forall>tx\<in>set (drop n txs). map_of found (tx_id tx) = Some (home_writes tx)" using set_drop_subset [of n txs] by blast
  moreover have "\<forall>tx\<in>set (drop n txs). tx_ok sb tx" using assms(3) set_drop_subset [of n txs] by blast
  ultimately have "replay_ids found (map tx_id (drop n txs)) img = apply_txs (drop n txs) img" using replay_txs by blast
  moreover have "scan_journal crc sb img 0 [] g = Inr (found, last (g # map tx_id txs))" using assms(5) f(1) by simp
  ultimately show ?thesis using assms(1,2) ids n by (intro exI [of _ n]) (simp add: recover_def drop_map)
qed

section \<open>Crashes\<close>

fun run_commits :: "(byte list \<Rightarrow> 32 word) \<Rightarrow> superblock \<Rightarrow> transaction list \<Rightarrow> image \<times> transaction_manager \<Rightarrow>
    fault + image \<times> transaction_manager" where
  "run_commits crc sb [] st = Inr st"
| "run_commits crc sb (tx # txs) (img, tm) =
     (case commit crc sb tx tm of (Inl f, _) \<Rightarrow> Inl f | (Inr ops, tm') \<Rightarrow> run_commits crc sb txs (exec_ops ops img, tm'))"

definition writes_of :: "disk_op list \<Rightarrow> (nat \<times> byte list) list" where
  "writes_of ops = concat (map block_writes ops)"

text \<open>
  What a crash can leave of blocks whose writes were not synced. The device writes units of \<open>g\<close> bytes atomically and in any
  order: every written block is as it was, or each of its units is the old one or that of one of the writes.
\<close>

definition unit_at :: "nat \<Rightarrow> nat \<Rightarrow> byte list \<Rightarrow> byte list" where
  "unit_at g u buf = take g (drop (u * g) buf)"

definition torn :: "nat \<Rightarrow> byte list list \<Rightarrow> byte list \<Rightarrow> bool" where
  "torn g versions buf \<longleftrightarrow> length buf = block_size \<and>
     (\<forall>u < block_size div g. \<exists>v\<in>set versions. unit_at g u buf = unit_at g u v)"

definition left_of :: "nat \<Rightarrow> (nat \<times> byte list) list \<Rightarrow> image \<Rightarrow> nat \<Rightarrow> io_error + byte list \<Rightarrow> bool" where
  "left_of g ws img b r \<longleftrightarrow> r = img b \<or> b \<in> fst ` set ws \<and>
     (\<exists>buf. r = Inr buf \<and> torn g ((case img b of Inr old \<Rightarrow> [old] | Inl _ \<Rightarrow> []) @ map snd (filter (\<lambda>w. fst w = b) ws)) buf)"

text \<open>
  The images a crash inside a commit can leave: before the first sync is through, whatever is left of the journal blocks;
  after it all of them are there, with whatever is left of the writes home.
\<close>

definition crash_images :: "nat \<Rightarrow> bool \<Rightarrow> disk_op list \<Rightarrow> image \<Rightarrow> image set" where
  "crash_images g synced ops img =
     (let journal = writes_of (takeWhile (\<lambda>x. x \<noteq> Sync) ops); home = writes_of (dropWhile (\<lambda>x. x \<noteq> Sync) ops)
      in if synced then {img'. \<forall>b. left_of g home (put_all journal img) b (img' b)} else {img'. \<forall>b. left_of g journal img b (img' b)})"

lemma left_of_other: "left_of g ws img b r \<Longrightarrow> b \<notin> fst ` set ws \<Longrightarrow> r = img b"
  by (simp add: left_of_def)

text \<open>A journal as a mount leaves it: readable, and without a block that passes for one numbered above the generation.\<close>

definition clean_journal :: "(byte list \<Rightarrow> 32 word) \<Rightarrow> superblock \<Rightarrow> image \<Rightarrow> bool" where
  "clean_journal crc sb img \<longleftrightarrow> (\<forall>i < sb_journal_blocks sb. \<exists>buf. img (sb_journal_start sb + i) = Inr buf \<and>
     (header_ok crc buf \<longrightarrow> field 16 8 buf \<le> sb_generation sb) \<and> (\<forall>n. footer_ok crc n buf \<longrightarrow> n \<le> sb_generation sb))"

lemma home_ops_no_sync: "Sync \<notin> set (home_ops tx ks)"
  by (induction tx ks rule: home_ops.induct) (auto simp: Let_def)

lemma commit_writes:
  assumes "tx_ok sb tx" "next_journal_block tm + tx_size tx \<le> sb_journal_blocks sb" "commit crc sb tx tm = (Inr ops, tm')"
  shows "writes_of (takeWhile (\<lambda>x. x \<noteq> Sync) ops) = List.enumerate (sb_journal_start sb + next_journal_block tm) (tx_blocks crc tx)"
    "writes_of (dropWhile (\<lambda>x. x \<noteq> Sync) ops) = home_writes tx"
    "exec_ops ops img = put_all (home_writes tx) (put_all (List.enumerate (sb_journal_start sb + next_journal_block tm) (tx_blocks crc tx)) img)"
proof -
  let ?w = "WriteRun (sb_journal_start sb + next_journal_block tm) (concat (tx_blocks crc tx))"
  have ops: "ops = ?w # Sync # home_ops tx (sorted_keys tx) @ [Sync]" using commit_ok [OF assms(1,2)] assms(3) by simp
  have "chunks block_size (concat (tx_blocks crc tx)) = tx_blocks crc tx"
    by (rule chunks_concat [OF tx_blocks_lengths(1) [OF assms(1)]]) (simp add: block_size_def)
  then have w: "block_writes ?w = List.enumerate (sb_journal_start sb + next_journal_block tm) (tx_blocks crc tx)" by simp
  have h: "concat (map block_writes (home_ops tx (sorted_keys tx))) = home_writes tx"
    using home_ops_writes [of "sorted_keys tx" tx] keys_ok(4) [OF assms(1)] by (simp add: home_writes_def)
  show "writes_of (takeWhile (\<lambda>x. x \<noteq> Sync) ops) = List.enumerate (sb_journal_start sb + next_journal_block tm) (tx_blocks crc tx)"
    "writes_of (dropWhile (\<lambda>x. x \<noteq> Sync) ops) = home_writes tx"
    using w h by (simp_all add: ops writes_of_def)
  show "exec_ops ops img = put_all (home_writes tx) (put_all (List.enumerate (sb_journal_start sb + next_journal_block tm) (tx_blocks crc tx)) img)"
    using w h by (simp add: ops exec_ops_def put_all_append)
qed

lemma apply_tx_journal: "tx_ok sb tx \<Longrightarrow> in_journal sb b \<Longrightarrow> apply_tx tx img b = img b"
  by (auto simp: apply_tx_def tx_ok_def split: option.splits)

lemma exec_commit:
  assumes "tx_ok sb tx" "next_journal_block tm + tx_size tx \<le> sb_journal_blocks sb" "commit crc sb tx tm = (Inr ops, tm')"
  shows "blocks_at sb (exec_ops ops img) (next_journal_block tm) (tx_blocks crc tx)"
    "\<not> in_journal sb b \<Longrightarrow> exec_ops ops img b = apply_tx tx img b"
    "i < sb_journal_blocks sb \<Longrightarrow> i < next_journal_block tm \<or> next_journal_block tm + tx_size tx \<le> i \<Longrightarrow>
       exec_ops ops img (sb_journal_start sb + i) = img (sb_journal_start sb + i)"
proof -
  note e = commit_writes(3) [OF assms, of img] put_home [OF assms(1)] put_all_enumerate
  note l = tx_blocks_lengths(2) [OF assms(1), of crc]
  show "blocks_at sb (exec_ops ops img) (next_journal_block tm) (tx_blocks crc tx)"
    unfolding blocks_at_nth using assms(2) l apply_tx_journal [OF assms(1)] by (simp add: e in_journal_def)
  show "exec_ops ops img b = apply_tx tx img b" if "\<not> in_journal sb b"
    using that assms(2) l by (auto simp: e apply_tx_def in_journal_def split: option.splits)
  show "exec_ops ops img (sb_journal_start sb + i) = img (sb_journal_start sb + i)"
    if "i < sb_journal_blocks sb" "i < next_journal_block tm \<or> next_journal_block tm + tx_size tx \<le> i"
    using that l apply_tx_journal [OF assms(1)] by (auto simp: e in_journal_def)
qed

lemma run_commits_ok:
  assumes "\<forall>tx\<in>set txs. tx_ok sb tx" "next_journal_block tm + sum_list (map tx_size txs) < sb_journal_blocks sb"
  shows "\<exists>img' tm'. run_commits crc sb txs (img, tm) = Inr (img', tm') \<and>
    next_journal_block tm' = next_journal_block tm + sum_list (map tx_size txs) \<and>
    blocks_at sb img' (next_journal_block tm) (concat (map (tx_blocks crc) txs)) \<and>
    (\<forall>b. \<not> in_journal sb b \<longrightarrow> img' b = apply_txs txs img b) \<and>
    (\<forall>i < sb_journal_blocks sb. i < next_journal_block tm \<or> next_journal_block tm' \<le> i \<longrightarrow> img' (sb_journal_start sb + i) = img (sb_journal_start sb + i))"
  using assms
proof (induction txs arbitrary: img tm)
  case (Cons tx txs)
  let ?p = "next_journal_block tm"
  have ok: "tx_ok sb tx" "?p + tx_size tx \<le> sb_journal_blocks sb" "?p + tx_size tx < sb_journal_blocks sb" using Cons.prems by simp_all
  obtain ops tm1 where c: "commit crc sb tx tm = (Inr ops, tm1)" and n: "next_journal_block tm1 = ?p + tx_size tx"
    using commit_ok [OF ok(1,2), of crc] ok(3) by simp
  note e = exec_commit [OF ok(1,2) c]
  obtain img' tm' where r: "run_commits crc sb txs (exec_ops ops img, tm1) = Inr (img', tm')"
    "next_journal_block tm' = ?p + tx_size tx + sum_list (map tx_size txs)"
    "blocks_at sb img' (?p + tx_size tx) (concat (map (tx_blocks crc) txs))"
    "\<forall>b. \<not> in_journal sb b \<longrightarrow> img' b = apply_txs txs (exec_ops ops img) b"
    "\<forall>i < sb_journal_blocks sb. i < ?p + tx_size tx \<or> next_journal_block tm' \<le> i \<longrightarrow> img' (sb_journal_start sb + i) = exec_ops ops img (sb_journal_start sb + i)"
    using Cons.IH [of tm1 "exec_ops ops img"] Cons.prems n by auto
  have "blocks_at sb img' ?p (tx_blocks crc tx)"
    using e(1) [of img] r(5) ok(2) tx_blocks_lengths(2) [OF ok(1), of crc] by (simp add: blocks_at_nth add.assoc)
  then have "blocks_at sb img' ?p (concat (map (tx_blocks crc) (tx # txs)))"
    using r(3) tx_blocks_lengths(2) [OF ok(1), of crc] by (simp add: blocks_at_append)
  moreover have "\<forall>b. \<not> in_journal sb b \<longrightarrow> img' b = apply_txs (tx # txs) img b"
    using r(4) e(2) [of _ img] by (simp add: apply_txs_written) (simp add: apply_tx_def split: option.splits)
  moreover have "\<forall>i < sb_journal_blocks sb. i < ?p \<or> next_journal_block tm' \<le> i \<longrightarrow> img' (sb_journal_start sb + i) = img (sb_journal_start sb + i)"
    using r(2,5) e(3) [of _ img] by simp
  ultimately show ?case using c r(1,2) by (intro exI [of _ img'] exI [of _ tm']) simp
qed (simp add: apply_txs_def)

end
