(* ===== verification/Journal_Crash.thy ===== *)
theory Journal_Crash
  imports Journal
begin

text \<open>
  Crashes and the journal: a commit that fits the journal without wrapping is atomic and, once its journal blocks are
  synced, durable. Before the sync the journal blocks reach the disk in any order and in pieces, so atomicity rests on the
  checksums: \<open>detects\<close> says that no mixture of old and new pieces in the blocks of the commit passes for a header or a
  record it is not. The theory \<^verbatim>\<open>Journal_Wrap\<close> shows a crash that loses committed data when old records lie in those blocks.
\<close>

section \<open>A torn transaction is not found\<close>

lemma read_records_valid: "read_records crc sb img n temp recs = Inr (True, temp', recs') \<Longrightarrow> temp' = temp + 2 * n"
  by (induction n arbitrary: temp recs) (fastforce split: if_splits sum.splits)+

lemma read_tx_some:
  assumes "read_tx crc sb img i buf = Inr (Some (n, recs, temp))"
  shows "header_ok crc buf" "n = field 16 8 buf" "temp = i + 1 + 2 * field 12 4 buf" "temp < sb_journal_blocks sb"
    "\<exists>fb. img (sb_journal_start sb + temp) = Inr fb \<and> footer_ok crc n fb"
  using assms read_records_valid [of crc sb img "field 12 4 buf" "i + 1" "[]"]
  by (auto simp: read_tx_def split: if_splits sum.splits)

text \<open>What a crash can leave in block \<open>j\<close> of a commit that writes its journal blocks from position \<open>p\<close> on.\<close>

definition slot_left :: "nat \<Rightarrow> (byte list \<Rightarrow> 32 word) \<Rightarrow> superblock \<Rightarrow> transaction \<Rightarrow> nat \<Rightarrow> image \<Rightarrow> nat \<Rightarrow> byte list \<Rightarrow> bool" where
  "slot_left g crc sb tx p img j buf \<longleftrightarrow>
     left_of g (List.enumerate (sb_journal_start sb + p) (tx_blocks crc tx)) img (sb_journal_start sb + p + j) (Inr buf)"

text \<open>
  The checksums tell such leftovers apart: a leftover in front of the footer that passes for a header is the header of the
  commit or is numbered no higher than the generation, and two leftovers that pass for a record are the record of the commit.
\<close>

definition detects :: "nat \<Rightarrow> (byte list \<Rightarrow> 32 word) \<Rightarrow> superblock \<Rightarrow> transaction \<Rightarrow> nat \<Rightarrow> image \<Rightarrow> bool" where
  "detects g crc sb tx p img \<longleftrightarrow>
     (\<forall>j buf. j + 1 < tx_size tx \<longrightarrow> slot_left g crc sb tx p img j buf \<longrightarrow> header_ok crc buf \<longrightarrow>
        j = 0 \<and> buf = journal_header crc (tx_id tx) (timestamp tx) (length (sorted_keys tx)) \<or> field 16 8 buf \<le> sb_generation sb) \<and>
     (\<forall>i h d. i < length (sorted_keys tx) \<longrightarrow> slot_left g crc sb tx p img (1 + 2 * i) h \<longrightarrow> slot_left g crc sb tx p img (2 + 2 * i) d \<longrightarrow>
        unat (crc d) = field 16 4 h \<longrightarrow> field 8 8 h = sorted_keys tx ! i \<and> d = block_of tx (sorted_keys tx ! i))"

lemma detectsD:
  assumes "detects g crc sb tx p img" "slot_left g crc sb tx p img j buf"
  shows "j + 1 < tx_size tx \<Longrightarrow> header_ok crc buf \<Longrightarrow>
      j = 0 \<and> buf = journal_header crc (tx_id tx) (timestamp tx) (length (sorted_keys tx)) \<or> field 16 8 buf \<le> sb_generation sb"
    "j = 1 + 2 * i \<Longrightarrow> i < length (sorted_keys tx) \<Longrightarrow> slot_left g crc sb tx p img (2 + 2 * i) d \<Longrightarrow> unat (crc d) = field 16 4 buf \<Longrightarrow>
      field 8 8 buf = sorted_keys tx ! i \<and> d = block_of tx (sorted_keys tx ! i)"
  using assms unfolding detects_def by blast+

lemma read_records_detected:
  assumes "read_records crc sb img (length ks) temp recs = Inr (True, temp', recs')"
    "\<And>i h d. i < length ks \<Longrightarrow> img (sb_journal_start sb + (temp + 2 * i)) = Inr h \<Longrightarrow> img (sb_journal_start sb + (temp + 2 * i + 1)) = Inr d \<Longrightarrow>
      unat (crc d) = field 16 4 h \<Longrightarrow> field 8 8 h = ks ! i \<and> d = f (ks ! i)"
  shows "recs' = recs @ map (\<lambda>b. (b, f b)) ks"
  using assms
proof (induction ks arbitrary: temp recs)
  case (Cons k ks)
  then obtain h d where hd: "img (sb_journal_start sb + temp) = Inr h" "img (sb_journal_start sb + (temp + 1)) = Inr d" "unat (crc d) = field 16 4 h"
    and rest: "read_records crc sb img (length ks) (temp + 2) (recs @ [(field 8 8 h, d)]) = Inr (True, temp', recs')"
    by (auto split: if_splits sum.splits)
  have "field 8 8 h = k \<and> d = f k" using Cons.prems(2) [of 0 h d] hd by simp
  moreover have "recs' = (recs @ [(field 8 8 h, d)]) @ map (\<lambda>b. (b, f b)) ks"
    by (rule Cons.IH [OF rest]) (use Cons.prems(2) [of "Suc _"] in simp)
  ultimately show ?case by simp
qed simp

lemma clean_block:
  assumes "clean_journal crc sb img" "i < sb_journal_blocks sb" "img2 (sb_journal_start sb + i) = img (sb_journal_start sb + i)"
    "img2 (sb_journal_start sb + i) = Inr buf"
  shows "header_ok crc buf \<Longrightarrow> field 16 8 buf \<le> sb_generation sb" "footer_ok crc n buf \<Longrightarrow> n \<le> sb_generation sb"
proof -
  obtain buf' where "img (sb_journal_start sb + i) = Inr buf'" "header_ok crc buf' \<longrightarrow> field 16 8 buf' \<le> sb_generation sb"
    "\<forall>n. footer_ok crc n buf' \<longrightarrow> n \<le> sb_generation sb" using assms(1,2) unfolding clean_journal_def by blast
  then show "header_ok crc buf \<Longrightarrow> field 16 8 buf \<le> sb_generation sb" "footer_ok crc n buf \<Longrightarrow> n \<le> sb_generation sb"
    using assms(3,4) by auto
qed

lemma stale_dead:
  assumes "clean_journal crc sb img" "\<forall>i < sb_journal_blocks sb. p \<le> i \<longrightarrow> img2 (sb_journal_start sb + i) = img (sb_journal_start sb + i)"
  shows "dead_from crc sb img2 (sb_generation sb) p"
  unfolding dead_from_def using clean_block(1) [OF assms(1)] read_tx_some(1,2) assms(2) by blast

text \<open>The blocks of a commit after a crash, with the rest of the journal as it was.\<close>

definition left_behind :: "nat \<Rightarrow> (byte list \<Rightarrow> 32 word) \<Rightarrow> superblock \<Rightarrow> transaction \<Rightarrow> nat \<Rightarrow> image \<Rightarrow> image \<Rightarrow> bool" where
  "left_behind g crc sb tx p img img2 \<longleftrightarrow>
     (\<forall>j buf. j < tx_size tx \<longrightarrow> img2 (sb_journal_start sb + p + j) = Inr buf \<longrightarrow> slot_left g crc sb tx p img j buf) \<and>
     (\<forall>i < sb_journal_blocks sb. i < p \<or> p + tx_size tx \<le> i \<longrightarrow> img2 (sb_journal_start sb + i) = img (sb_journal_start sb + i))"

lemma left_header:
  assumes "tx_ok sb tx" "detects g crc sb tx p img" "left_behind g crc sb tx p img img2" "img2 (sb_journal_start sb + p) = Inr buf"
    "read_tx crc sb img2 p buf = Inr (Some (n, recs, temp))" "sb_generation sb < n"
  shows "n = tx_id tx" "recs = home_writes tx" "temp + 1 = p + tx_size tx"
proof -
  note r = read_tx_some [OF assms(5)]
  have "slot_left g crc sb tx p img 0 buf" using assms(3,4) unfolding left_behind_def by (metis add_0_right tx_size_def zero_less_Suc add_2_eq_Suc')
  then have buf: "buf = journal_header crc (tx_id tx) (timestamp tx) (length (sorted_keys tx))"
    using detectsD(1) [OF assms(2), of 0 buf] assms(6) r(1,2) by (simp add: tx_size_def)
  then have f: "field 12 4 buf = length (sorted_keys tx)" "field 16 8 buf = tx_id tx"
    using journal_header_fields(2,3) keys_ok(5,6) [OF assms(1)] by simp_all
  then show "n = tx_id tx" "temp + 1 = p + tx_size tx" using r(2,3) by (simp_all add: tx_size_def)
  obtain t where "read_records crc sb img2 (length (sorted_keys tx)) (p + 1) [] = Inr (True, t, recs)"
    using assms(5) f(1) by (auto simp: read_tx_def split: if_splits sum.splits)
  then have "recs = [] @ map (\<lambda>b. (b, block_of tx b)) (sorted_keys tx)"
  proof (rule read_records_detected)
    fix i h d
    assume i: "i < length (sorted_keys tx)" and h: "img2 (sb_journal_start sb + (p + 1 + 2 * i)) = Inr h"
      and d: "img2 (sb_journal_start sb + (p + 1 + 2 * i + 1)) = Inr d" and crc: "unat (crc d) = field 16 4 h"
    have "slot_left g crc sb tx p img (1 + 2 * i) h" "slot_left g crc sb tx p img (2 + 2 * i) d"
      using assms(3) i h d unfolding left_behind_def by (auto simp: tx_size_def add.assoc)
    then show "field 8 8 h = sorted_keys tx ! i \<and> d = block_of tx (sorted_keys tx ! i)"
      using detectsD(2) [OF assms(2) _ refl i _ crc] by blast
  qed
  then show "recs = home_writes tx" by (simp add: home_writes_def)
qed

lemma left_dead:
  assumes "clean_journal crc sb img0" "\<forall>i < sb_journal_blocks sb. p \<le> i \<longrightarrow> img (sb_journal_start sb + i) = img0 (sb_journal_start sb + i)"
    "detects g crc sb tx p img" "left_behind g crc sb tx p img img2"
    "\<And>buf n recs temp. img2 (sb_journal_start sb + p) = Inr buf \<Longrightarrow> read_tx crc sb img2 p buf = Inr (Some (n, recs, temp)) \<Longrightarrow> n \<le> sb_generation sb"
  shows "dead_from crc sb img2 (sb_generation sb) p"
  unfolding dead_from_def
proof (intro allI impI)
  fix i buf n recs temp
  assume i: "p \<le> i" "i < sb_journal_blocks sb" and buf: "img2 (sb_journal_start sb + i) = Inr buf"
    and rt: "read_tx crc sb img2 i buf = Inr (Some (n, recs, temp))"
  note r = read_tx_some [OF rt]
  have stale: "img2 (sb_journal_start sb + i) = img0 (sb_journal_start sb + i)" if "i < sb_journal_blocks sb" "p + tx_size tx \<le> i" for i
    using assms(2,4) that unfolding left_behind_def by simp
  obtain j where j: "i = p + j" using i(1) le_Suc_ex by blast
  consider "j = 0" | "0 < j" "j + 1 < tx_size tx" | "j + 1 = tx_size tx" | "tx_size tx \<le> j" by linarith
  then show "n \<le> sb_generation sb"
  proof cases
    case 1
    then show ?thesis using assms(5) [of buf n recs temp] j buf rt by simp
  next
    case 2
    then have "slot_left g crc sb tx p img j buf" using assms(4) buf j unfolding left_behind_def by (simp add: add.assoc)
    then show ?thesis using detectsD(1) [OF assms(3)] 2 r(1,2) by blast
  next
    case 3
    have "img2 (sb_journal_start sb + temp) = img0 (sb_journal_start sb + temp)" using stale [OF r(4)] r(3) 3 j by simp
    then show ?thesis using clean_block(2) [of crc sb img0 temp img2] assms(1) r(4,5) by blast
  next
    case 4
    then have "img2 (sb_journal_start sb + i) = img0 (sb_journal_start sb + i)" using stale [OF i(2)] j by simp
    then show ?thesis using clean_block(1) [of crc sb img0 i img2 buf] assms(1) i(2) buf r(1,2) by simp
  qed
qed

section \<open>Atomicity and durability\<close>

lemma enumerated:
  assumes "j < length xs"
  shows "n + j \<in> fst ` set (List.enumerate n xs)" "map snd (filter (\<lambda>w. fst w = n + j) (List.enumerate n xs)) = [xs ! j]"
  using assms
proof (induction xs arbitrary: n j)
  case (Cons x xs)
  {
    case 1
    then show ?case using Cons(1) [of "j - 1" "Suc n"] by (cases j) auto
  next
    case 2
    have "filter (\<lambda>w. fst w = m) (List.enumerate k xs) = []" if "m < k" for m k using that by (auto simp: filter_empty_conv in_set_enumerate_eq)
    then show ?case using 2 Cons(2) [of "j - 1" "Suc n"] by (cases j) auto
  }
qed simp_all

lemma left_of_new:
  assumes "j < length xs" "length (xs ! j) = block_size"
  shows "left_of g (List.enumerate n xs) img (n + j) (Inr (xs ! j))"
  unfolding left_of_def torn_def using enumerated [OF assms(1), of n] assms(2) by auto

lemma crash_image_left:
  assumes "tx_ok sb tx" "next_journal_block tm = p" "p + tx_size tx \<le> sb_journal_blocks sb" "commit crc sb tx tm = (Inr ops, tm')"
    "img2 \<in> crash_images g synced ops img"
  shows "synced \<Longrightarrow> blocks_at sb img2 p (tx_blocks crc tx)" "left_behind g crc sb tx p img img2"
    "\<not> in_journal sb b \<Longrightarrow> synced \<longrightarrow> dirty_blocks tx b = None \<Longrightarrow> img2 b = img b"
proof -
  let ?s = "sb_journal_start sb + p"
  note w = commit_writes(1,2) [OF assms(1) _ assms(4), unfolded assms(2), OF assms(3)]
  note l = tx_blocks_lengths [OF assms(1), of crc]
  have home: "\<not> in_journal sb b" if "b \<in> fst ` set (home_writes tx)" for b
    using keys_ok(4) [OF assms(1)] that by (auto simp: home_writes_def)
  have jr: "\<forall>b. left_of g (home_writes tx) (put_all (List.enumerate ?s (tx_blocks crc tx)) img) b (img2 b)" if synced
    using assms(5) that w by (simp add: crash_images_def Let_def)
  have ns: "\<forall>b. left_of g (List.enumerate ?s (tx_blocks crc tx)) img b (img2 b)" if "\<not> synced"
    using assms(5) that w by (simp add: crash_images_def Let_def)
  have ex: "img2 b = put_all (List.enumerate ?s (tx_blocks crc tx)) img b" if synced "b \<notin> fst ` set (home_writes tx)" for b
    using left_of_other [OF jr [OF that(1), rule_format] that(2)] .
  have jb: "sb_journal_start sb + i \<notin> fst ` set (home_writes tx)" if "i < sb_journal_blocks sb" for i
    using home [of "sb_journal_start sb + i"] that by (auto simp: in_journal_def)
  have slot: "img2 (?s + j) = Inr (tx_blocks crc tx ! j)" if synced "j < tx_size tx" for j
    using ex [OF that(1) jb [of "p + j"]] assms(3) that(2) l(2) by (simp add: put_all_enumerate add.assoc)
  then show at: "blocks_at sb img2 p (tx_blocks crc tx)" if synced using that l(2) by (simp add: blocks_at_nth)
  have out: "b \<notin> fst ` set (List.enumerate ?s (tx_blocks crc tx))" if "b < ?s \<or> ?s + tx_size tx \<le> b" for b
    using that l(2) by (auto simp: in_set_enumerate_eq)
  have "slot_left g crc sb tx p img j buf" if j: "j < tx_size tx" and b: "img2 (?s + j) = Inr buf" for j buf
  proof (cases synced)
    case True
    then have buf: "buf = tx_blocks crc tx ! j" using slot [OF True j] b by simp
    then show ?thesis unfolding slot_left_def using left_of_new [of j "tx_blocks crc tx"] l j by simp
  next
    case False
    then show ?thesis using ns b unfolding slot_left_def by metis
  qed
  moreover have "img2 (sb_journal_start sb + i) = img (sb_journal_start sb + i)" if "i < sb_journal_blocks sb" "i < p \<or> p + tx_size tx \<le> i" for i
  proof (cases synced)
    case True
    then show ?thesis using ex [OF True jb [OF that(1)]] that(2) l(2) by (auto simp: put_all_enumerate)
  next
    case False
    then show ?thesis using left_of_other [OF ns [OF False, rule_format] out] that(2) by auto
  qed
  ultimately show "left_behind g crc sb tx p img img2" unfolding left_behind_def by (simp add: add.assoc)
  show "img2 b = img b" if b: "\<not> in_journal sb b" "synced \<longrightarrow> dirty_blocks tx b = None"
  proof (cases synced)
    case True
    then have "b \<notin> fst ` set (home_writes tx)" using b(2) keys_ok(1) [OF assms(1)] by (auto simp: home_writes_def)
    then show ?thesis using ex [OF True] b(1) assms(3) l(2) by (auto simp: put_all_enumerate in_journal_def)
  next
    case False
    then show ?thesis using left_of_other [OF ns [OF False, rule_format] out] b(1) assms(3) by (auto simp: in_journal_def)
  qed
qed

lemma apply_tx_last: "apply_txs (ts @ [tx]) img = apply_tx tx (apply_txs ts img)"
  by (simp add: apply_txs_def)

text \<open>Replaying a tail of a sequence completes it on an image where the blocks of its last transaction can be anything.\<close>

lemma apply_tail:
  assumes "n < length (ts @ [tx])" "dirty_blocks tx b = None \<Longrightarrow> img2 b = apply_txs ts img b"
  shows "apply_txs (drop n (ts @ [tx])) img2 b = apply_txs (ts @ [tx]) img b"
proof -
  have d: "drop n (ts @ [tx]) = drop n ts @ [tx]" using assms(1) by simp
  have s: "written ts b = (case written (drop n ts) b of Some data \<Rightarrow> Some data | None \<Rightarrow> written (take n ts) b)"
    using written_append [of "take n ts" "drop n ts" b] by simp
  show ?thesis using assms(2) s unfolding d
    by (auto simp: apply_txs_written written_append split: option.splits)
qed

lemma readable_left:
  assumes "clean_journal crc sb img0" "\<forall>i < sb_journal_blocks sb. p \<le> i \<longrightarrow> img (sb_journal_start sb + i) = img0 (sb_journal_start sb + i)"
    "\<forall>i<p. \<exists>buf. img (sb_journal_start sb + i) = Inr buf" "img2 \<in> crash_images g synced ops img"
    "tx_ok sb tx" "next_journal_block tm = p" "p + tx_size tx \<le> sb_journal_blocks sb" "commit crc sb tx tm = (Inr ops, tm')"
  shows "readable_journal sb img2"
  unfolding readable_journal_def
proof (intro allI impI)
  fix i
  assume i: "i < sb_journal_blocks sb"
  note w = commit_writes(1,2) [OF assms(5) _ assms(8), unfolded assms(6), OF assms(7)]
  have img: "\<exists>buf. img (sb_journal_start sb + i) = Inr buf"
    using assms(1-3) i unfolding clean_journal_def by (metis not_less)
  then have "\<exists>buf. put_all (List.enumerate (sb_journal_start sb + p) (tx_blocks crc tx)) img (sb_journal_start sb + i) = Inr buf"
    by (simp add: put_all_enumerate)
  then show "\<exists>buf. img2 (sb_journal_start sb + i) = Inr buf"
    using assms(4) w img by (auto simp: crash_images_def Let_def left_of_def split: if_splits dest!: spec [of _ "sb_journal_start sb + i"])
qed

section \<open>Transactions that fill blocks with one byte\<close>

definition fill_tx :: "nat \<Rightarrow> nat list \<Rightarrow> byte \<Rightarrow> transaction" where
  "fill_tx i bs d = fold (\<lambda>b. add_block b (replicate block_size d)) bs (transaction_new i 0)"

definition zero_image :: image where
  "zero_image = (\<lambda>_. Inr (replicate block_size 0))"

lemma fill_tx_fields:
  "tx_id (fill_tx i bs d) = i" "timestamp (fill_tx i bs d) = 0"
  "dirty_blocks (fill_tx i bs d) = (\<lambda>b. if b \<in> set bs then Some (replicate block_size d) else None)"
proof -
  have "tx_id (fold (\<lambda>b. add_block b x) bs tx) = tx_id tx \<and> timestamp (fold (\<lambda>b. add_block b x) bs tx) = timestamp tx \<and>
      dirty_blocks (fold (\<lambda>b. add_block b x) bs tx) = (\<lambda>b. if b \<in> set bs then Some x else dirty_blocks tx b)" for x and tx :: transaction
    by (induction bs arbitrary: tx) (auto simp: add_block_def fun_eq_iff)
  then show "tx_id (fill_tx i bs d) = i" "timestamp (fill_tx i bs d) = 0"
    "dirty_blocks (fill_tx i bs d) = (\<lambda>b. if b \<in> set bs then Some (replicate block_size d) else None)"
    by (simp_all add: fill_tx_def transaction_new_def fun_eq_iff)
qed

lemma fill_tx_keys: "sorted_keys (fill_tx i bs d) = sorted_list_of_set (set bs)"
  by (simp add: sorted_keys_def fill_tx_fields dom_def)

lemma fill_tx_ok:
  assumes "bs \<noteq> []" "i < journal_magic" "\<forall>b\<in>set bs. b < 2 ^ 64 \<and> \<not> in_journal sb b" "distinct bs"
    "2 * length bs + 2 \<le> sb_journal_blocks sb" "sb_journal_blocks sb < 2 ^ 32"
  shows "tx_ok sb (fill_tx i bs d)" "tx_size (fill_tx i bs d) = 2 * length bs + 2"
proof -
  have l: "length (sorted_keys (fill_tx i bs d)) = length bs" using assms(4) by (simp add: fill_tx_keys distinct_card)
  then show "tx_size (fill_tx i bs d) = 2 * length bs + 2" by (simp add: tx_size_def)
  show "tx_ok sb (fill_tx i bs d)"
    using assms l by (auto simp: tx_ok_def fill_tx_fields tx_size_def dom_def journal_magic_def neq_Nil_conv split: if_splits)
qed

text \<open>No block filled with one byte is a journal block.\<close>

lemma fill_not_magic: "field 0 8 (replicate block_size d) \<noteq> journal_magic"
proof
  assume magic: "field 0 8 (replicate block_size d) = journal_magic"
  have "take 8 (replicate block_size d) = replicate (Suc (Suc 6)) d" by (simp add: block_size_def)
  then have "field 0 8 (replicate block_size d) = unat d + 256 * (unat d + 256 * of_le_bytes (replicate 6 d))"
    by (simp only: field_def drop_0 replicate_Suc of_le_bytes.simps)
  moreover have "(x + 256 * y) mod 256 = x \<and> (x + 256 * y) div 256 = y" if "x < 256" for x y :: nat using that by simp
  moreover have "unat d < 256" using unsigned_less [of d] by simp
  ultimately have "journal_magic mod 256 = unat d" "journal_magic div 256 mod 256 = unat d" unfolding magic by metis+
  then show False by (simp add: journal_magic_def)
qed

definition small_sb :: superblock where
  "small_sb = \<lparr>sb_generation = 1, sb_journal_start = 4, sb_journal_blocks = 16\<rparr>"

section \<open>Checksums that detect\<close>

text \<open>When the old and the new block differ in the first unit only, a torn block is one of them.\<close>

lemma torn_first_unit:
  assumes "torn g [old, new] buf" "drop g old = drop g new" "length old = block_size" "length new = block_size" "0 < g" "g dvd block_size"
  shows "buf = old \<or> buf = new"
proof -
  have u: "block_size div g * g = block_size" using assms(6) by simp
  have "block_size \<noteq> 0" by (simp add: block_size_def)
  then have "0 < block_size div g" using u by (metis gr0I mult_0)
  then have "\<exists>v\<in>set [old, new]. unit_at g 0 buf = unit_at g 0 v" using assms(1) unfolding torn_def by blast
  then obtain v where v: "v = old \<or> v = new" "take g buf = take g v" by (auto simp: unit_at_def)
  have nth: "buf ! i = v ! i" if i: "i < block_size" for i
  proof (cases "i < g")
    case True
    then show ?thesis using v(2) by (metis nth_take)
  next
    case False
    have "i div g < block_size div g" using i u assms(5) by (metis div_less_iff_less_mult)
    then have "\<exists>w\<in>set [old, new]. unit_at g (i div g) buf = unit_at g (i div g) w" using assms(1) unfolding torn_def by blast
    then obtain w where w: "w = old \<or> w = new" "unit_at g (i div g) buf = unit_at g (i div g) w" by auto
    have n: "unit_at g (i div g) x ! (i mod g) = x ! i" if "length x = block_size" for x
    proof -
      have "i div g * g + i mod g = i" "i div g * g \<le> length x" using that i div_times_less_eq_dividend [of i g] by (simp, linarith)
      then show ?thesis using assms(5) by (simp add: unit_at_def)
    qed
    have "drop g w ! (i - g) = drop g v ! (i - g)" using w(1) v(1) assms(2) by auto
    moreover have "g \<le> length w" "g \<le> length v" using False i w(1) v(1) assms(3,4) by auto
    ultimately have "w ! i = v ! i" using False by simp
    moreover have "buf ! i = w ! i" using n [of buf] n [of w] w(1) assms(1,3,4) unfolding w(2) [symmetric] torn_def by auto
    ultimately show ?thesis by simp
  qed
  have "buf = v" by (rule nth_equalityI) (use v(1) assms(1,3,4) nth in \<open>auto simp: torn_def\<close>)
  then show ?thesis using v(1) by blast
qed

lemma pairs_nth: "i < length ks \<Longrightarrow> concat (map (\<lambda>b. [f b, h b]) ks) ! (2 * i) = f (ks ! i) \<and> concat (map (\<lambda>b. [f b, h b]) ks) ! (2 * i + 1) = h (ks ! i)"
proof (induction ks arbitrary: i)
  case (Cons k ks)
  then show ?case by (cases i) auto
qed simp

lemma tx_blocks_nth:
  assumes "i < length (sorted_keys tx)"
  shows "tx_blocks crc tx ! (1 + 2 * i) = record_header (tx_id tx) (sorted_keys tx ! i) (crc (block_of tx (sorted_keys tx ! i)))"
    "tx_blocks crc tx ! (2 + 2 * i) = block_of tx (sorted_keys tx ! i)"
proof -
  have "length (concat (map (\<lambda>b. [f b, h b]) ks)) = 2 * length ks" for f h :: "nat \<Rightarrow> byte list" and ks by (induction ks) simp_all
  then show "tx_blocks crc tx ! (1 + 2 * i) = record_header (tx_id tx) (sorted_keys tx ! i) (crc (block_of tx (sorted_keys tx ! i)))"
    "tx_blocks crc tx ! (2 + 2 * i) = block_of tx (sorted_keys tx ! i)"
    using pairs_nth [OF assms, of "\<lambda>b. record_header (tx_id tx) b (crc (block_of tx b))" "block_of tx"] assms
    by (simp_all add: tx_blocks_def nth_append)
qed

text \<open>
  On zeroed journal blocks, with sectors of 512 bytes, any checksum does that is never zero and gives no other block the
  value of the data block.
\<close>

lemma zero_slot:
  assumes "slot_left 512 crc sb tx p img j buf" "img (sb_journal_start sb + p + j) = Inr (replicate block_size 0)" "j < length (tx_blocks crc tx)"
  shows "buf = replicate block_size 0 \<or> torn 512 [replicate block_size 0, tx_blocks crc tx ! j] buf"
  using assms enumerated [OF assms(3), of "sb_journal_start sb + p"] by (auto simp: slot_left_def left_of_def)

lemma zero_slot_first:
  assumes "slot_left 512 crc sb tx p img j buf" "img (sb_journal_start sb + p + j) = Inr (replicate block_size 0)" "j < length (tx_blocks crc tx)"
    "length (tx_blocks crc tx ! j) = block_size" "drop 512 (tx_blocks crc tx ! j) = replicate (block_size - 512) 0"
  shows "buf = replicate block_size 0 \<or> buf = tx_blocks crc tx ! j"
  using zero_slot [OF assms(1-3)] torn_first_unit [of 512 "replicate block_size 0" "tx_blocks crc tx ! j" buf] assms(4,5) by (auto simp: block_size_def)

lemma journal_tails: "drop 512 (journal_header crc i ts cnt) = replicate (block_size - 512) 0" "drop 512 (record_header i b c) = replicate (block_size - 512) 0"
  by (simp_all add: journal_header_def record_header_def Let_def block_size_def)

lemma zero_not_magic: "\<not> header_ok crc (replicate block_size 0)" "field 16 4 (replicate block_size 0) = 0"
  using fill_not_magic [of 0] by (simp_all add: header_ok_def) (simp add: field_def block_size_def numeral_eq_Suc)

lemma torn_fill_not_header:
  assumes "buf = replicate block_size 0 \<or> torn 512 [replicate block_size 0, replicate block_size d] buf"
  shows "\<not> header_ok crc buf"
proof -
  obtain v where v: "v = replicate block_size 0 \<or> v = replicate block_size d" "unit_at 512 0 buf = unit_at 512 0 v"
    using assms
  proof (elim disjE)
    assume t: "torn 512 [replicate block_size 0, replicate block_size d] buf"
    have "0 < block_size div 512" by (simp add: block_size_def)
    then have "\<exists>v\<in>set [replicate block_size 0, replicate block_size d]. unit_at 512 0 buf = unit_at 512 0 v"
      using t unfolding torn_def by blast
    then show thesis using that by auto
  qed blast
  have "take 8 x = take 8 (unit_at 512 0 x)" for x by (simp add: unit_at_def)
  then have "take 8 buf = take 8 v" using v(2) by metis
  then show ?thesis using v(1) fill_not_magic [of 0] fill_not_magic [of d] by (auto simp: header_ok_def field_def)
qed

lemma slot_kinds:
  assumes "j + 1 < tx_size tx"
  shows "j = 0 \<or> (\<exists>n<length (sorted_keys tx). j = 1 + 2 * n) \<or> (\<exists>n<length (sorted_keys tx). j = 2 + 2 * n)"
proof -
  have "j = 0 \<or> j = 1 + 2 * ((j - 1) div 2) \<or> j = 2 + 2 * ((j - 1) div 2)" by presburger
  moreover have "j \<noteq> 0 \<longrightarrow> (j - 1) div 2 < length (sorted_keys tx)" using assms by (auto simp: tx_size_def div_less_iff_less_mult)
  ultimately show ?thesis by blast
qed

lemma zero_detects:
  assumes "tx_ok sb (fill_tx i bs d)" "\<forall>j<tx_size (fill_tx i bs d). img (sb_journal_start sb + p + j) = Inr (replicate block_size 0)"
    "\<forall>x. crc x \<noteq> 0" "\<forall>x. crc x = crc (replicate block_size d) \<longrightarrow> x = replicate block_size d"
  shows "detects 512 crc sb (fill_tx i bs d) p img"
proof -
  let ?tx = "fill_tx i bs d"
  note k = keys_ok [OF assms(1)] and l = tx_blocks_lengths [OF assms(1), of crc]
  have blk: "block_of ?tx b = replicate block_size d" if "b \<in> set (sorted_keys ?tx)" for b
    using k(1) that by (auto simp: block_of_def fill_tx_fields)
  have zero: "img (sb_journal_start sb + p + j) = Inr (replicate block_size 0)" if "j < length (tx_blocks crc ?tx)" for j
    using assms(2) that l(2) by simp
  have len: "length (tx_blocks crc ?tx ! j) = block_size" if "j < length (tx_blocks crc ?tx)" for j using l(1) that by simp
  have rec: "h = replicate block_size 0 \<or> h = record_header i (sorted_keys ?tx ! n) (crc (replicate block_size d))"
    if "slot_left 512 crc sb ?tx p img (1 + 2 * n) h" "n < length (sorted_keys ?tx)" for n h
  proof -
    have j: "1 + 2 * n < length (tx_blocks crc ?tx)" using that(2) l(2) by (simp add: tx_size_def)
    then show ?thesis using zero_slot_first [OF that(1) zero [OF j] j len [OF j]] tx_blocks_nth(1) [OF that(2), of crc] journal_tails(2) that(2)
      by (simp add: blk fill_tx_fields)
  qed
  have "j = 0 \<and> buf = journal_header crc (tx_id ?tx) (timestamp ?tx) (length (sorted_keys ?tx))"
    if j: "j + 1 < tx_size ?tx" and left: "slot_left 512 crc sb ?tx p img j buf" and h: "header_ok crc buf" for j buf
  proof -
    have j': "j < length (tx_blocks crc ?tx)" using j l(2) by simp
    consider "j = 0" | n where "j = 1 + 2 * n" "n < length (sorted_keys ?tx)" | n where "j = 2 + 2 * n" "n < length (sorted_keys ?tx)"
      using slot_kinds [OF j] by blast
    then show ?thesis
    proof cases
      case 1
      have "tx_blocks crc ?tx ! 0 = journal_header crc (tx_id ?tx) (timestamp ?tx) (length (sorted_keys ?tx))" by (simp add: tx_blocks_def)
      then show ?thesis using zero_slot_first [OF left zero [OF j'] j' len [OF j']] 1 h zero_not_magic(1) [of crc] journal_tails(1) by auto
    next
      case 2
      then have "buf = replicate block_size 0 \<or> buf = record_header i (sorted_keys ?tx ! n) (crc (replicate block_size d))" using rec left by blast
      moreover have "field 0 8 (record_header i (sorted_keys ?tx ! n) c) = i" for c
        using record_fields(3) k(4) [of "sorted_keys ?tx ! n"] k(6) 2(2) by (simp add: fill_tx_fields)
      ultimately show ?thesis using h zero_not_magic(1) [of crc] assms(1) by (auto simp: header_ok_def tx_ok_def fill_tx_fields)
    next
      case 3
      have "buf = replicate block_size 0 \<or> torn 512 [replicate block_size 0, replicate block_size d] buf"
        using zero_slot [OF left zero [OF j'] j'] tx_blocks_nth(2) [OF 3(2), of crc] 3 by (simp add: blk)
      then show ?thesis using torn_fill_not_header h by blast
    qed
  qed
  moreover have "field 8 8 h = sorted_keys ?tx ! n \<and> x = block_of ?tx (sorted_keys ?tx ! n)"
    if n: "n < length (sorted_keys ?tx)" and left: "slot_left 512 crc sb ?tx p img (1 + 2 * n) h" and c: "unat (crc x) = field 16 4 h" for n h x
  proof -
    have "h \<noteq> replicate block_size 0" using c assms(3) zero_not_magic(2) by (auto simp: unat_eq_0)
    then have h: "h = record_header i (sorted_keys ?tx ! n) (crc (replicate block_size d))" using rec [OF left n] by blast
    then have "field 8 8 h = sorted_keys ?tx ! n" "field 16 4 h = unat (crc (replicate block_size d))"
      using record_fields(1,2) k(4) [of "sorted_keys ?tx ! n"] k(6) n by (simp_all add: fill_tx_fields)
    then show ?thesis using c assms(4) blk n by (simp add: word_unat_eq_iff)
  qed
  ultimately show ?thesis unfolding detects_def by blast
qed

section \<open>The crash theorem\<close>

lemma recover_complete:
  assumes "\<forall>tx\<in>set (ts @ [tx]). tx_ok sb tx" "sorted_wrt (<) (sb_generation sb # map tx_id (ts @ [tx]))"
    "p = sum_list (map tx_size ts)" "p + tx_size tx \<le> sb_journal_blocks sb" "blocks_at sb img2 0 (concat (map (tx_blocks crc) ts))"
    "readable_journal sb img2" "dead_from crc sb img2 (sb_generation sb) (p + tx_size tx)"
    "img2 (sb_journal_start sb + p) = Inr buf" "read_tx crc sb img2 p buf = Inr (Some (tx_id tx, home_writes tx, temp))" "temp + 1 = p + tx_size tx"
  shows "\<exists>n. recover crc sb img2 = (Inr (tx_id tx), apply_txs (drop n (ts @ [tx])) img2) \<and> n < length (ts @ [tx])"
proof -
  let ?g = "sb_generation sb" and ?all = "map (\<lambda>tx. (tx_id tx, home_writes tx)) ts"
  have p: "p < sb_journal_blocks sb" using assms(4) by (simp add: tx_size_def)
  have "scan_journal crc sb img2 0 [] ?g = scan_journal crc sb img2 (0 + sum_list (map tx_size ts)) ([] @ ?all) (last (?g # map tx_id ts))"
    by (rule scan_txs) (use assms(1-5) in \<open>auto simp: sorted_wrt_append\<close>)
  also have "\<dots> = scan_journal crc sb img2 (temp + 1) (or_insert (tx_id tx) (home_writes tx) ?all) (max (tx_id tx) (last (?g # map tx_id ts)))"
    using scan_accept [OF p assms(8,9)] assms(3) by simp
  also have "or_insert (tx_id tx) (home_writes tx) ?all = map (\<lambda>tx. (tx_id tx, home_writes tx)) (ts @ [tx])"
    using assms(2) by (subst or_insert_last) (auto simp: sorted_wrt_append)
  also have "max (tx_id tx) (last (?g # map tx_id ts)) = last (?g # map tx_id (ts @ [tx]))"
  proof -
    have "last (?g # map tx_id ts) < tx_id tx"
      using assms(2) last_in_set [of "?g # map tx_id ts"] by (auto simp: sorted_wrt_append simp del: last.simps)
    then show ?thesis by simp
  qed
  finally show ?thesis using recover_found [of sb ?g "ts @ [tx]" crc img2 "p + tx_size tx"] assms p by auto
qed

lemma recover_torn:
  assumes "\<forall>tx\<in>set ts. tx_ok sb tx" "sorted_wrt (<) (sb_generation sb # map tx_id ts)" "0 < sb_journal_blocks sb"
    "sum_list (map tx_size ts) \<le> sb_journal_blocks sb" "blocks_at sb img2 0 (concat (map (tx_blocks crc) ts))"
    "readable_journal sb img2" "dead_from crc sb img2 (sb_generation sb) (sum_list (map tx_size ts))"
  shows "\<exists>n. recover crc sb img2 = (Inr (last (sb_generation sb # map tx_id ts)), apply_txs (drop n ts) img2) \<and> (ts \<noteq> [] \<longrightarrow> n < length ts)"
proof -
  let ?g = "sb_generation sb"
  have "scan_journal crc sb img2 0 [] ?g = scan_journal crc sb img2 (0 + sum_list (map tx_size ts)) ([] @ map (\<lambda>tx. (tx_id tx, home_writes tx)) ts)
      (last (?g # map tx_id ts))"
    by (rule scan_txs) (use assms in auto)
  then show ?thesis using recover_found [of sb ?g ts crc img2 "sum_list (map tx_size ts)"] assms by auto
qed


definition probe_crc :: "byte list \<Rightarrow> 32 word" where
  "probe_crc x = (if x = replicate block_size 2 then 2 else 1)"


end
