(* ===== verification/Journal_Wrap.thy ===== *)
theory Journal_Wrap
  imports Journal_Crash
begin

text \<open>
  Three histories of the journal of \<^verbatim>\<open>transaction/manager.rs\<close> and \<^verbatim>\<open>recovery/recovery.rs\<close> outside the conditions of the
  crash theorem: a transaction whose journal blocks wrap the end of the region, one that needs several chunks, and one whose
  journal blocks reach the disk out of order over the records of an earlier mount. They hold for every checksum.
\<close>

section \<open>A wrapped commit\<close>

lemma take_blocks:
  assumes "\<forall>x\<in>set bs. length x = n"
  shows "take (k * n) (concat bs) = concat (take k bs)" "drop (k * n) (concat bs) = concat (drop k bs)"
  using assms
proof (induction bs arbitrary: k)
  case (Cons b bs)
  {
    case 1
    then show ?case using Cons by (cases k) auto
  next
    case 2
    then show ?case using Cons by (cases k) auto
  }
qed simp_all

lemma commit_wraps:
  assumes "tx_ok sb tx" "next_journal_block tm < sb_journal_blocks sb" "sb_journal_blocks sb < next_journal_block tm + tx_size tx"
    "n = sb_journal_blocks sb - next_journal_block tm"
  shows "commit crc sb tx tm =
    (Inr ([WriteRun (sb_journal_start sb + next_journal_block tm) (concat (take n (tx_blocks crc tx))),
           WriteRun (sb_journal_start sb) (concat (drop n (tx_blocks crc tx)))] @ [Sync] @ home_ops tx (sorted_keys tx) @ [Sync]),
     tm\<lparr>next_journal_block := (next_journal_block tm + tx_size tx) mod sb_journal_blocks sb\<rparr>)"
proof -
  have k: "sorted_keys tx \<noteq> []" using keys_ok(3) [OF assms(1)] .
  have "length (sorted_keys tx) \<le> max_records sb" using assms(1) by (auto simp: tx_ok_def tx_size_def max_records_def)
  moreover from this have "0 < max_records sb" using k by (cases "sorted_keys tx") auto
  ultimately have "chunks (max_records sb) (sorted_keys tx) = [sorted_keys tx]" "0 < max_records sb"
    using k by (auto simp: chunks.simps [of "max_records sb"] chunks.simps [of _ "[]"])
  moreover have "dirty_blocks tx \<noteq> Map.empty" using assms(1) by (auto simp: tx_ok_def)
  ultimately show ?thesis using assms(2-4) unfolding commit_def
    by (simp add: Let_def tx_size_def payload_blocks take_blocks [OF tx_blocks_lengths(1) [OF assms(1)]])
qed

lemma exec_wraps:
  assumes "tx_ok sb tx" "next_journal_block tm < sb_journal_blocks sb" "sb_journal_blocks sb < next_journal_block tm + tx_size tx"
    "n = sb_journal_blocks sb - next_journal_block tm" "commit crc sb tx tm = (Inr ops, tm')"
  shows "exec_ops ops img = apply_tx tx (put_all (List.enumerate (sb_journal_start sb) (drop n (tx_blocks crc tx)))
    (put_all (List.enumerate (sb_journal_start sb + next_journal_block tm) (take n (tx_blocks crc tx))) img))"
proof -
  note l = tx_blocks_lengths(1) [OF assms(1), of crc]
  have c: "chunks block_size (concat (take n (tx_blocks crc tx))) = take n (tx_blocks crc tx)"
    "chunks block_size (concat (drop n (tx_blocks crc tx))) = drop n (tx_blocks crc tx)"
    using l set_take_subset [of n "tx_blocks crc tx"] set_drop_subset [of n "tx_blocks crc tx"]
    by (auto intro!: chunks_concat simp: block_size_def)
  have h: "concat (map block_writes (home_ops tx (sorted_keys tx))) = home_writes tx"
    unfolding home_writes_def by (rule home_ops_writes) (use keys_ok(4) [OF assms(1)] in blast)
  have "ops = [WriteRun (sb_journal_start sb + next_journal_block tm) (concat (take n (tx_blocks crc tx))),
           WriteRun (sb_journal_start sb) (concat (drop n (tx_blocks crc tx)))] @ [Sync] @ home_ops tx (sorted_keys tx) @ [Sync]"
    using commit_wraps [OF assms(1-4), of crc] assms(5) by simp
  then show ?thesis by (simp add: exec_ops_def c h put_all_append put_home [OF assms(1)])
qed

section \<open>Blocks that the scan passes over\<close>

lemma scan_skip:
  assumes "i < sb_journal_blocks sb" "img (sb_journal_start sb + i) = Inr buf" "read_tx crc sb img i buf = Inr None"
  shows "scan_journal crc sb img i found highest = scan_journal crc sb img (Suc i) found highest"
  using assms by (subst scan_journal.simps) simp

lemma scan_end: "scan_journal crc sb img (sb_journal_blocks sb) found highest = Inr (found, highest)"
  by (subst scan_journal.simps) simp

lemma read_tx_no_magic: "field 0 8 buf \<noteq> journal_magic \<Longrightarrow> read_tx crc sb img i buf = Inr None"
  by (simp add: read_tx_def header_ok_def)

text \<open>A footer has the magic of a header; read as one it has no records when the identifier is below \<open>2 ^ 32\<close>.\<close>

lemma le_bytes_add: "le_bytes (j + k) n = le_bytes j n @ le_bytes k (n div 256 ^ j)"
  by (induction j arbitrary: n) (simp_all add: div_mult2_eq)

lemma field_low_byte:
  assumes "length pre = off" "0 < k" "0 < j"
  shows "field off k (pre @ le_bytes j n @ post) mod 256 = n mod 256"
proof -
  obtain k' j' where "k = Suc k'" "j = Suc j'" using assms(2,3) by (auto simp: gr0_conv_Suc)
  then show ?thesis using assms(1) by (simp add: field_def unat_of_nat)
qed

lemma footer_as_header:
  assumes "n < 2 ^ 32"
  shows "field 12 4 (journal_footer crc n cnt) = 0" "field 16 8 (journal_footer crc n cnt) mod 256 = cnt mod 256"
proof -
  let ?c = "unat (crc (le_bytes 8 journal_magic @ le_bytes 8 n @ le_bytes 4 cnt @ le_bytes 4 0 @ replicate (block_size - 24) 0))"
  have f: "journal_footer crc n cnt = (le_bytes 8 journal_magic @ le_bytes 8 n) @ le_bytes 4 cnt @ (le_bytes 4 ?c @ replicate (block_size - 24) 0)"
    by (simp add: journal_footer_def Let_def)
  have "le_bytes (4 + 4) n = le_bytes 4 n @ le_bytes 4 0" using assms by (subst le_bytes_add) simp
  then have g: "journal_footer crc n cnt = (le_bytes 8 journal_magic @ le_bytes 4 n) @ le_bytes 4 0 @ (le_bytes 4 cnt @ le_bytes 4 ?c @ replicate (block_size - 24) 0)"
    unfolding f by simp
  show "field 12 4 (journal_footer crc n cnt) = 0" unfolding g by (subst field_le_bytes) simp_all
  show "field 16 8 (journal_footer crc n cnt) mod 256 = cnt mod 256" unfolding f by (subst field_low_byte) simp_all
qed

lemma fill_tx_blocks:
  assumes "sorted_wrt (<) bs"
  shows "tx_blocks crc (fill_tx i bs d) = journal_header crc i 0 (length bs) #
    concat (map (\<lambda>b. [record_header i b (crc (replicate block_size d)), replicate block_size d]) bs) @ [journal_footer crc i (length bs)]"
proof -
  have "sorted_list_of_set (set bs) = bs" using assms by (simp add: sorted_list_of_set.idem_if_sorted_distinct strict_sorted_iff)
  moreover have "map (\<lambda>b. [record_header i b (crc (block_of (fill_tx i bs d) b)), block_of (fill_tx i bs d) b]) bs =
      map (\<lambda>b. [record_header i b (crc (replicate block_size d)), replicate block_size d]) bs"
    by (rule map_cong) (simp_all add: block_of_def fill_tx_fields)
  ultimately show ?thesis by (simp only: tx_blocks_def fill_tx_keys fill_tx_fields)
qed

section \<open>A commit lost behind the end of the journal\<close>

definition wrap_sb :: superblock where
  "wrap_sb = \<lparr>sb_generation = 0, sb_journal_start = 4, sb_journal_blocks = 12\<rparr>"

definition wrapped_image :: "(byte list \<Rightarrow> 32 word) \<Rightarrow> image \<Rightarrow> bool" where
  "wrapped_image crc img \<longleftrightarrow>
     blocks_at wrap_sb img 0 [replicate block_size 3, journal_footer crc 3 1, replicate block_size 1,
       record_header 1 201 (crc (replicate block_size 1)), replicate block_size 1, journal_footer crc 1 2] \<and>
     blocks_at wrap_sb img 6 (tx_blocks crc (fill_tx 2 [100] 2)) \<and>
     blocks_at wrap_sb img 10 [journal_header crc 3 0 1, record_header 3 100 (crc (replicate block_size 3))] \<and>
     img 100 = Inr (replicate block_size 3)"

lemma wrap_txs:
  "tx_ok wrap_sb (fill_tx 1 [200, 201] 1)" "tx_size (fill_tx 1 [200, 201] 1) = 6"
  "tx_ok wrap_sb (fill_tx 2 [100] 2)" "tx_size (fill_tx 2 [100] 2) = 4"
  "tx_ok wrap_sb (fill_tx 3 [100] 3)" "tx_size (fill_tx 3 [100] 3) = 4"
  using fill_tx_ok [of "[200, 201]" 1 wrap_sb 1] fill_tx_ok [of "[100]" 2 wrap_sb 2] fill_tx_ok [of "[100]" 3 wrap_sb 3]
  by (simp_all add: wrap_sb_def in_journal_def journal_magic_def)

lemma wrapped_run:
  "\<exists>img tm. run_commits crc wrap_sb [fill_tx 1 [200, 201] 1, fill_tx 2 [100] 2, fill_tx 3 [100] 3] (zero_image, manager_new wrap_sb) =
     Inr (img, tm) \<and> wrapped_image crc img"
proof -
  let ?t0 = "fill_tx 1 [200, 201] 1" and ?t1 = "fill_tx 2 [100] 2" and ?t2 = "fill_tx 3 [100] 3"
  note b = fill_tx_blocks [of "[200, 201]" crc 1 1] fill_tx_blocks [of "[100]" crc 2 2] fill_tx_blocks [of "[100]" crc 3 3]
  obtain img tm where r: "run_commits crc wrap_sb [?t0, ?t1] (zero_image, manager_new wrap_sb) = Inr (img, tm)"
    "next_journal_block tm = 10" "blocks_at wrap_sb img 0 (concat (map (tx_blocks crc) [?t0, ?t1]))"
    using run_commits_ok [of "[?t0, ?t1]" wrap_sb "manager_new wrap_sb" crc zero_image] wrap_txs
    by (auto simp: manager_new_def wrap_sb_def)
  have c: "next_journal_block tm < sb_journal_blocks wrap_sb" "sb_journal_blocks wrap_sb < next_journal_block tm + tx_size ?t2"
    using r(2) wrap_txs by (simp_all add: wrap_sb_def)
  obtain ops tm2 where o: "commit crc wrap_sb ?t2 tm = (Inr ops, tm2)"
    using commit_wraps [OF wrap_txs(5) c refl, of crc] by blast
  have "run_commits crc wrap_sb [?t0, ?t1, ?t2] (zero_image, manager_new wrap_sb) = Inr (exec_ops ops img, tm2)"
    using r(1) o by (auto split: prod.splits sum.splits)
  moreover have "wrapped_image crc (exec_ops ops img)"
    using r(3) unfolding wrapped_image_def exec_wraps [OF wrap_txs(5) c refl o]
    by (simp add: b [simplified] r(2) wrap_sb_def apply_tx_def fill_tx_fields numeral_2_eq_2 [symmetric])
  ultimately show ?thesis by blast
qed

lemma read_tx_footer:
  assumes "n < 2 ^ 32" "i + 1 < sb_journal_blocks sb \<Longrightarrow> \<exists>fb. img (sb_journal_start sb + (i + 1)) = Inr fb \<and>
      \<not> footer_ok crc (field 16 8 (journal_footer crc n cnt)) fb"
  shows "read_tx crc sb img i (journal_footer crc n cnt) = Inr None"
  using assms(2) footer_as_header(1) [OF assms(1)] by (auto simp: read_tx_def)

lemma footer_not_header:
  assumes "n < 2 ^ 32" "cnt mod 256 \<noteq> 1"
  shows "\<not> footer_ok crc (field 16 8 (journal_footer crc n cnt)) (journal_header crc i ts c)"
proof
  let ?h = "journal_header crc i ts c"
  obtain rest where h: "?h = le_bytes 8 journal_magic @ le_bytes 4 1 @ rest" by (simp add: journal_header_def Let_def)
  assume "footer_ok crc (field 16 8 (journal_footer crc n cnt)) ?h"
  then have "field 16 8 (journal_footer crc n cnt) = field 8 8 ?h" by (simp add: footer_ok_def)
  moreover have "field 8 8 ?h mod 256 = 1" unfolding h by (subst field_low_byte) simp_all
  ultimately show False using footer_as_header(2) [OF assms(1), of crc cnt] assms(2) by simp
qed

lemma wrapped_scan:
  assumes "wrapped_image crc img"
  shows "scan_journal crc wrap_sb img 0 [] 0 = Inr ([(2, home_writes (fill_tx 2 [100] 2))], 2)"
proof -
  note b = assms [unfolded wrapped_image_def, simplified, unfolded fill_tx_blocks [of "[100]", simplified], simplified]
  have sb [simp]: "sb_journal_start wrap_sb = 4" "sb_journal_blocks wrap_sb = 12" by (simp_all add: wrap_sb_def)
  have "read_tx crc wrap_sb img 1 (journal_footer crc 3 1) = Inr None" "read_tx crc wrap_sb img 5 (journal_footer crc 1 2) = Inr None"
    using b fill_not_magic footer_not_header [of 1 2 crc 2 0 1] by (intro read_tx_footer; simp add: footer_ok_def)+
  moreover have "read_tx crc wrap_sb img i (record_header n c x) = Inr None" if "n < 256" "c < 256" for i n c x
    using record_fields(3) [of n c] that by (intro read_tx_no_magic) (simp add: journal_magic_def)
  moreover have "read_tx crc wrap_sb img 10 (journal_header crc 3 0 1) = Inr None"
    using b journal_header_fields(1,2) [of 3 1 crc 0] by (simp add: read_tx_def)
  moreover note read_tx_no_magic [OF fill_not_magic]
  ultimately have skip: "scan_journal crc wrap_sb img i f h = scan_journal crc wrap_sb img (Suc i) f h"
    if "i \<in> {0, 1, 2, 3, 4, 5, 10, 11}" for i f h
    using that b by (auto intro!: scan_skip)
  have "scan_journal crc wrap_sb img 0 [] 0 = scan_journal crc wrap_sb img 6 [] 0" by (simp add: skip) (simp add: eval_nat_numeral)
  also have "\<dots> = scan_journal crc wrap_sb img 10 [(2, home_writes (fill_tx 2 [100] 2))] 2"
    using scan_tx [OF wrap_txs(3), of img 6 crc "[]" 0] assms by (simp add: wrap_txs wrapped_image_def fill_tx_fields)
  also have "\<dots> = Inr ([(2, home_writes (fill_tx 2 [100] 2))], 2)"
    using scan_end [of crc wrap_sb img] by (simp add: skip)
  finally show ?thesis .
qed

text \<open>
  C32. C98: a commit that wraps the end of the journal is not durable. Recovery never follows a transaction around the end, so
  it misses the newest commit, and replays an older one over the blocks that commit had written home and synced.
\<close>

theorem wrapped_commit_reverted:
  "\<exists>img tm img'. run_commits crc wrap_sb [fill_tx 1 [200, 201] 1, fill_tx 2 [100] 2, fill_tx 3 [100] 3]
       (zero_image, manager_new wrap_sb) = Inr (img, tm) \<and>
     img 100 = Inr (replicate block_size 3) \<and>
     recover crc wrap_sb img = (Inr 2, img') \<and> img' 100 = Inr (replicate block_size 2)"
proof -
  obtain img tm where r: "run_commits crc wrap_sb [fill_tx 1 [200, 201] 1, fill_tx 2 [100] 2, fill_tx 3 [100] 3]
      (zero_image, manager_new wrap_sb) = Inr (img, tm)" "wrapped_image crc img" using wrapped_run by blast
  have "recover crc wrap_sb img = (Inr 2, apply_records (home_writes (fill_tx 2 [100] 2)) img)"
    using wrapped_scan [OF r(2)] by (simp add: recover_def wrap_sb_def crash_tail_def)
  moreover have "apply_records (home_writes (fill_tx 2 [100] 2)) img 100 = Inr (replicate block_size 2)"
    by (simp add: apply_records_def home_writes_def fill_tx_keys fill_tx_fields block_of_def)
  ultimately show ?thesis using r by (auto simp: wrapped_image_def)
qed

section \<open>A commit in several chunks\<close>

definition chunk_sb :: superblock where
  "chunk_sb = \<lparr>sb_generation = 0, sb_journal_start = 4, sb_journal_blocks = 6\<rparr>"

lemma chunk_payload:
  assumes "sorted_wrt (<) ks" "set ks \<subseteq> set bs"
  shows "journal_payload crc (fill_tx i bs d) ks = concat (tx_blocks crc (fill_tx i ks d))"
proof -
  have "sorted_keys (fill_tx i ks d) = ks"
    using assms(1) by (simp add: fill_tx_keys sorted_list_of_set.idem_if_sorted_distinct strict_sorted_iff)
  moreover have "map (\<lambda>b. let data = the (dirty_blocks (fill_tx i bs d) b) in record_header i b (crc data) @ data) ks =
      map (\<lambda>b. let data = the (dirty_blocks (fill_tx i ks d) b) in record_header i b (crc data) @ data) ks"
    using assms(2) by (intro map_cong) (auto simp: fill_tx_fields)
  ultimately show ?thesis unfolding payload_blocks [symmetric] by (simp only: journal_payload_def fill_tx_fields)
qed

lemma chunk_txs: "tx_ok chunk_sb (fill_tx 1 [100, 101] 1)" "tx_ok chunk_sb (fill_tx 1 [102] 1)" "tx_size (fill_tx 1 [102] 1) = 4"
  using fill_tx_ok [of "[100, 101]" 1 chunk_sb 1] fill_tx_ok [of "[102]" 1 chunk_sb 1]
  by (simp_all add: chunk_sb_def in_journal_def journal_magic_def)

lemma chunk_commit:
  "commit crc chunk_sb (fill_tx 1 [100, 101, 102] 1) (manager_new chunk_sb) =
     (Inr (WriteRun 4 (concat (tx_blocks crc (fill_tx 1 [100, 101] 1))) # WriteRun 4 (concat (tx_blocks crc (fill_tx 1 [102] 1))) #
        Sync # home_ops (fill_tx 1 [100, 101, 102] 1) [100, 101, 102] @ [Sync]),
      (manager_new chunk_sb)\<lparr>next_journal_block := 4\<rparr>)"
proof -
  let ?tx = "fill_tx 1 [100, 101, 102] 1"
  have "sorted_keys ?tx = [100, 101, 102]" by (simp add: fill_tx_keys)
  moreover have "chunks 2 [100, 101, 102] = [[100, 101], [102 :: nat]]" by (simp add: chunks.simps)
  moreover have "dirty_blocks ?tx \<noteq> Map.empty" by (auto simp: fill_tx_fields fun_eq_iff)
  ultimately show ?thesis unfolding commit_def
    by (simp add: max_records_def chunk_sb_def manager_new_def Let_def chunk_payload)
qed

lemma chunk_scan:
  assumes "blocks_at chunk_sb img 0 (tx_blocks crc (fill_tx 1 [102] 1))" "blocks_at chunk_sb img 4 [replicate block_size 1, journal_footer crc 1 2]"
  shows "scan_journal crc chunk_sb img 0 [] 0 = Inr ([(1, home_writes (fill_tx 1 [102] 1))], 1)"
proof -
  have sb [simp]: "sb_journal_start chunk_sb = 4" "sb_journal_blocks chunk_sb = 6" by (simp_all add: chunk_sb_def)
  have "scan_journal crc chunk_sb img 0 [] 0 = scan_journal crc chunk_sb img 4 [(1, home_writes (fill_tx 1 [102] 1))] 1"
    using scan_tx [OF chunk_txs(2) assms(1), of "[]" 0] by (simp add: chunk_txs(3) [simplified] fill_tx_fields)
  also have "\<dots> = scan_journal crc chunk_sb img (Suc 4) [(1, home_writes (fill_tx 1 [102] 1))] 1"
    by (rule scan_skip) (use assms(2) read_tx_no_magic [OF fill_not_magic] in simp_all)
  also have "\<dots> = scan_journal crc chunk_sb img (Suc (Suc 4)) [(1, home_writes (fill_tx 1 [102] 1))] 1"
    by (rule scan_skip) (use assms(2) read_tx_footer [of 1 5 chunk_sb] in simp_all)
  finally show ?thesis using scan_end [of crc chunk_sb img] by simp
qed

text \<open>
  C33. C97: a commit that needs more than one chunk is not atomic. The chunks share one identifier and the second overwrites the
  first in the journal, so after a crash behind the sync recovery completes only the blocks of the last chunk.
\<close>

theorem chunked_commit_torn:
  "\<exists>ops tm img img'. commit crc chunk_sb (fill_tx 1 [100, 101, 102] 1) (manager_new chunk_sb) = (Inr ops, tm) \<and>
     img \<in> crash_images g True ops zero_image \<and> recover crc chunk_sb img = (Inr 1, img') \<and>
     img' 100 = Inr (replicate block_size 0) \<and> img' 102 = Inr (replicate block_size 1)"
proof -
  let ?t1 = "fill_tx 1 [100, 101] 1" and ?t2 = "fill_tx 1 [102] 1"
  define img where "img = put_all (List.enumerate 4 (tx_blocks crc ?t2)) (put_all (List.enumerate 4 (tx_blocks crc ?t1)) zero_image)"
  obtain ops tm where c: "commit crc chunk_sb (fill_tx 1 [100, 101, 102] 1) (manager_new chunk_sb) = (Inr ops, tm)"
    and ops: "takeWhile (\<lambda>x. x \<noteq> Sync) ops = [WriteRun 4 (concat (tx_blocks crc ?t1)), WriteRun 4 (concat (tx_blocks crc ?t2))]"
    using chunk_commit [of crc] by simp
  have "chunks block_size (concat (tx_blocks crc ?t1)) = tx_blocks crc ?t1" "chunks block_size (concat (tx_blocks crc ?t2)) = tx_blocks crc ?t2"
    using tx_blocks_lengths(1) [OF chunk_txs(1)] tx_blocks_lengths(1) [OF chunk_txs(2)] by (auto intro!: chunks_concat simp: block_size_def)
  then have "put_all (writes_of (takeWhile (\<lambda>x. x \<noteq> Sync) ops)) zero_image = img"
    by (simp add: ops writes_of_def put_all_append img_def)
  then have "img \<in> crash_images g True ops zero_image"
    by (simp add: crash_images_def Let_def left_of_def)
  moreover have b: "blocks_at chunk_sb img 0 (tx_blocks crc ?t2)" "blocks_at chunk_sb img 4 [replicate block_size 1, journal_footer crc 1 2]"
    "img 100 = Inr (replicate block_size 0)"
    using fill_tx_blocks [of "[100, 101]" crc 1 1, simplified] fill_tx_blocks [of "[102]" crc 1 1, simplified]
    by (simp_all add: img_def chunk_sb_def zero_image_def numeral_2_eq_2)
  have "recover crc chunk_sb img = (Inr 1, apply_records (home_writes ?t2) img)"
    using chunk_scan [OF b(1,2)] by (simp add: recover_def chunk_sb_def crash_tail_def)
  moreover have "apply_records (home_writes ?t2) img = img(102 := Inr (replicate block_size 1))"
    by (simp add: apply_records_def home_writes_def fill_tx_keys fill_tx_fields block_of_def)
  ultimately show ?thesis using c b(3) by auto
qed

section \<open>A commit over the records of an earlier mount\<close>

definition reuse_sb :: "nat \<Rightarrow> superblock" where
  "reuse_sb n = \<lparr>sb_generation = n, sb_journal_start = 4, sb_journal_blocks = 12\<rparr>"

lemma reuse_fields [simp]: "sb_generation (reuse_sb n) = n" "sb_journal_start (reuse_sb n) = 4" "sb_journal_blocks (reuse_sb n) = 12"
  by (simp_all add: reuse_sb_def)

lemma reuse_txs:
  "tx_ok (reuse_sb n) (fill_tx 1 [100] 1)" "tx_size (fill_tx 1 [100] 1) = 4" "tx_ok (reuse_sb n) (fill_tx 2 [100] 2)"
  "tx_size (fill_tx 2 [100] 2) = 4" "tx_ok (reuse_sb n) (fill_tx 3 [200] 3)" "tx_size (fill_tx 3 [200] 3) = 4"
  using fill_tx_ok [of "[100]" 1 "reuse_sb n" 1] fill_tx_ok [of "[100]" 2 "reuse_sb n" 2] fill_tx_ok [of "[200]" 3 "reuse_sb n" 3]
  by (simp_all add: in_journal_def journal_magic_def)

text \<open>The first mount makes two commits to block 100; the recovery of the next mount finds both and changes nothing.\<close>

lemma reuse_first:
  "\<exists>img tm. run_commits crc (reuse_sb 0) [fill_tx 1 [100] 1, fill_tx 2 [100] 2] (zero_image, manager_new (reuse_sb 0)) = Inr (img, tm) \<and>
     blocks_at (reuse_sb 0) img 0 (tx_blocks crc (fill_tx 1 [100] 1) @ tx_blocks crc (fill_tx 2 [100] 2)) \<and>
     (\<forall>i<12. 8 \<le> i \<longrightarrow> img (4 + i) = Inr (replicate block_size 0)) \<and> img 100 = Inr (replicate block_size 2) \<and>
     img 200 = Inr (replicate block_size 0) \<and> recover crc (reuse_sb 0) img = (Inr 2, img)"
proof -
  let ?ts = "[fill_tx 1 [100] 1, fill_tx 2 [100] 2]" and ?sb = "reuse_sb 0"
  have ok: "\<forall>tx\<in>set ?ts. tx_ok ?sb tx" "sum_list (map tx_size ?ts) = 8" using reuse_txs by simp_all
  obtain img tm where r: "run_commits crc ?sb ?ts (zero_image, manager_new ?sb) = Inr (img, tm)"
    "blocks_at ?sb img 0 (concat (map (tx_blocks crc) ?ts))" "\<forall>b. \<not> in_journal ?sb b \<longrightarrow> img b = apply_txs ?ts zero_image b"
    "\<forall>i<12. 8 \<le> i \<longrightarrow> img (4 + i) = zero_image (4 + i)"
    using run_commits_ok [of ?ts ?sb "manager_new ?sb" crc zero_image] ok by (auto simp: manager_new_def)
  have home: "img 100 = Inr (replicate block_size 2)" "img 200 = Inr (replicate block_size 0)"
    using r(3) by (simp_all add: in_journal_def apply_txs_def apply_tx_def fill_tx_fields zero_image_def)
  have clean: "clean_journal crc ?sb zero_image"
    using fill_not_magic by (simp add: clean_journal_def zero_image_def header_ok_def footer_ok_def)
  have len: "length (concat (map (tx_blocks crc) ?ts)) = 8" using tx_blocks_lengths(2) [OF reuse_txs(1)] tx_blocks_lengths(2) [OF reuse_txs(3)] reuse_txs(2,4) by simp
  have "readable_journal ?sb img"
    unfolding readable_journal_def
  proof (intro allI impI)
    fix i
    assume "i < sb_journal_blocks ?sb"
    then show "\<exists>buf. img (sb_journal_start ?sb + i) = Inr buf"
      using r(2,4) len by (cases "i < 8") (auto simp: blocks_at_nth zero_image_def)
  qed
  moreover have "dead_from crc ?sb img (sb_generation ?sb) 8" by (rule stale_dead [OF clean]) (use r(4) in simp)
  ultimately obtain n where n: "recover crc ?sb img = (Inr 2, apply_txs (drop n ?ts) img)" "n < 2"
    using recover_torn [of ?ts ?sb img crc] ok r(2) by (auto simp: fill_tx_fields)
  have "n = 0 \<or> n = 1" using n(2) by auto
  then have "apply_txs (drop n ?ts) img = img"
    using home(1) by (auto simp: apply_txs_def apply_tx_def fill_tx_fields fun_eq_iff split: option.splits if_splits)
  then show ?thesis using r n(1) home by (intro exI [of _ img] exI [of _ tm]) (simp add: zero_image_def)
qed

text \<open>Two old blocks between a new header and a new footer pass for a record of the new transaction.\<close>

lemma stale_scan:
  assumes "blocks_at (reuse_sb 2) img 0 [journal_header crc 3 0 1, record_header 1 100 (crc (replicate block_size 1)), replicate block_size 1, journal_footer crc 3 1]"
    "blocks_at (reuse_sb 2) img 4 (tx_blocks crc (fill_tx 2 [100] 2))" "\<forall>i<12. 8 \<le> i \<longrightarrow> img (4 + i) = Inr (replicate block_size 0)"
  shows "scan_journal crc (reuse_sb 2) img 0 [] 2 = Inr ([(2, home_writes (fill_tx 2 [100] 2)), (3, [(100, replicate block_size 1)])], 3)"
proof -
  let ?sb = "reuse_sb 2" and ?h = "journal_header crc 3 0 1" and ?two = "(2, home_writes (fill_tx 2 [100] 2))" and ?new = "(3, [(100, replicate block_size 1)])"
  have b: "img 4 = Inr ?h" "img 5 = Inr (record_header 1 100 (crc (replicate block_size 1)))" "img 6 = Inr (replicate block_size 1)"
    "img 7 = Inr (journal_footer crc 3 1)" using assms(1) by simp_all
  have "read_records crc ?sb img (Suc 0) 1 [] = Inr (True, 3, [(100, replicate block_size 1)])"
    using b record_fields(1,2) [of 1 100 "crc (replicate block_size 1)"] by simp
  then have "read_tx crc ?sb img 0 ?h = Inr (Some (3, [(100, replicate block_size 1)], 3))"
    using b journal_header_fields(1-3) [of 3 1 crc 0] footer_fields(1) [of 3 crc 1] by (simp add: read_tx_def)
  then have "scan_journal crc ?sb img 0 [] 2 = scan_journal crc ?sb img 4 [?new] 3"
    using scan_accept [of 0 ?sb img ?h crc] b(1) by simp
  also have "\<dots> = scan_journal crc ?sb img 8 [?two, ?new] 3"
    using scan_tx [OF reuse_txs(3) assms(2), of "[?new]" 3] by (simp add: reuse_txs fill_tx_fields)
  also have "\<dots> = Inr ([?two, ?new], 3)"
  proof -
    have skip: "scan_journal crc ?sb img i f h = scan_journal crc ?sb img (Suc i) f h" if i: "i \<in> {8, 9, 10, 11}" for i f h
    proof (rule scan_skip)
      have "8 \<le> i" "i < 12" using i by auto
      then show "img (sb_journal_start ?sb + i) = Inr (replicate block_size 0)" "i < sb_journal_blocks ?sb" using assms(3) by simp_all
    qed (rule read_tx_no_magic [OF fill_not_magic])
    show ?thesis using scan_end [of crc ?sb img] by (simp add: skip)
  qed
  finally show ?thesis .
qed

text \<open>
  C96: recovery can undo a commit of an earlier mount. Two mounts use the same journal blocks. When the second one crashes
  inside a commit of which only the header and the footer have reached the disk, recovery takes the record of the first
  mount that lies between them for the record of the new transaction and replays it over a newer commit of the first mount.
\<close>

theorem stale_record_replayed:
  "\<exists>img tm ops tm2 img2 img3.
     run_commits crc (reuse_sb 0) [fill_tx 1 [100] 1, fill_tx 2 [100] 2] (zero_image, manager_new (reuse_sb 0)) = Inr (img, tm) \<and>
     recover crc (reuse_sb 0) img = (Inr 2, img) \<and> img 100 = Inr (replicate block_size 2) \<and>
     commit crc (reuse_sb 2) (fill_tx 3 [200] 3) (manager_new (reuse_sb 2)) = (Inr ops, tm2) \<and> img2 \<in> crash_images g False ops img \<and>
     recover crc (reuse_sb 2) img2 = (Inr 3, img3) \<and> img3 100 = Inr (replicate block_size 1) \<and> img3 200 = Inr (replicate block_size 0)"
proof -
  let ?sb = "reuse_sb 2" and ?t3 = "fill_tx 3 [200] 3" and ?h = "journal_header crc 3 0 1" and ?f = "journal_footer crc 3 1"
  note tb = fill_tx_blocks [of "[100]" crc 1 1] fill_tx_blocks [of "[100]" crc 2 2] fill_tx_blocks [of "[200]" crc 3 3]
  obtain img tm where r: "run_commits crc (reuse_sb 0) [fill_tx 1 [100] 1, fill_tx 2 [100] 2] (zero_image, manager_new (reuse_sb 0)) = Inr (img, tm)"
    "blocks_at (reuse_sb 0) img 0 (tx_blocks crc (fill_tx 1 [100] 1) @ tx_blocks crc (fill_tx 2 [100] 2))"
    "\<forall>i<12. 8 \<le> i \<longrightarrow> img (4 + i) = Inr (replicate block_size 0)" "img 100 = Inr (replicate block_size 2)"
    "img 200 = Inr (replicate block_size 0)" "recover crc (reuse_sb 0) img = (Inr 2, img)"
    using reuse_first by blast
  have room: "next_journal_block (manager_new ?sb) + tx_size ?t3 \<le> sb_journal_blocks ?sb" by (simp add: manager_new_def reuse_txs)
  obtain ops tm2 where c: "commit crc ?sb ?t3 (manager_new ?sb) = (Inr ops, tm2)"
    using commit_ok [OF reuse_txs(5) room] by blast
  have w: "writes_of (takeWhile (\<lambda>x. x \<noteq> Sync) ops) = List.enumerate 4 (tx_blocks crc ?t3)"
    using commit_writes(1) [OF reuse_txs(5) room c] by (simp add: manager_new_def)
  let ?img2 = "img(4 := Inr ?h, 7 := Inr ?f)"
  have i: "?img2 \<in> crash_images g False ops img"
    using left_of_new [of 0 "tx_blocks crc ?t3" g 4 img] left_of_new [of 3 "tx_blocks crc ?t3" g 4 img] tb(3)
      journal_header_fields(4) [of 3 1 crc 0] footer_fields(2) [of 3 crc 1]
    by (auto simp: crash_images_def w) (simp_all add: left_of_def)
  have "scan_journal crc ?sb ?img2 0 [] 2 = Inr ([(2, home_writes (fill_tx 2 [100] 2)), (3, [(100, replicate block_size 1)])], 3)"
    by (rule stale_scan) (use r(2,3) tb in \<open>auto simp: numeral_eq_Suc [of "num.Bit0 num.One"]\<close>)
  then have "recover crc ?sb ?img2 = (Inr 3, ?img2(100 := Inr (replicate block_size 1)))"
    by (simp add: recover_def crash_tail_def apply_records_def)
  then show ?thesis using r c i by fastforce
qed

end
