(* ===== verification/Spec2Isabelle.thy ===== *)
theory Spec2Isabelle
  imports Raft_Log Hamt Gc Block_Alloc Disk_Pool Posix_Acl Small_Write Btree Journal_Wrap
begin

text \<open>
  Verification library of LionFS (skeleton).
\<close>

end
